(* ===== verification/Prelude.thy ===== *)
theory Prelude
  imports Main "HOL-Library.Word"
begin

text \<open>
  Shared vocabulary of the development: Rust's fixed-width integers and their checked and
  saturating operations, Rust's \<open>Result\<close> with panics made visible, and the slice searches
  \<open>position\<close> and \<open>rposition\<close> with the lemmas the components use about them.

  Integers. A Rust integer of width \<open>w\<close> is a \<open>w word\<close>; \<open>+\<close>, \<open>-\<close> and \<open>*\<close> wrap
  around, as they do in the release profile of the workspace (\<open>src/Cargo.toml\<close> turns no
  overflow checks on; the development profile panics instead). Lengths and indexes of vectors
  are \<open>nat\<close>: Rust bounds them by \<open>isize::MAX\<close>.
\<close>

section \<open>Integers\<close>

type_synonym u8 = "8 word"
type_synonym u16 = "16 word"
type_synonym u32 = "32 word"
type_synonym u64 = "64 word"
type_synonym u128 = "128 word"
type_synonym bytes = "8 word list"

definition saturating_add :: "'w::len word \<Rightarrow> 'w word \<Rightarrow> 'w word" where
  "saturating_add a b = (if unat a + unat b < 2 ^ LENGTH('w) then a + b else - 1)"

definition saturating_mul :: "'w::len word \<Rightarrow> 'w word \<Rightarrow> 'w word" where
  "saturating_mul a b = (if unat a * unat b < 2 ^ LENGTH('w) then a * b else - 1)"

definition saturating_sub :: "'w::len word \<Rightarrow> 'w word \<Rightarrow> 'w word" where
  "saturating_sub a b = (if b \<le> a then a - b else 0)"

definition checked_add :: "'w::len word \<Rightarrow> 'w word \<Rightarrow> 'w word option" where
  "checked_add a b = (if unat a + unat b < 2 ^ LENGTH('w) then Some (a + b) else None)"

definition abs_diff :: "'w::len word \<Rightarrow> 'w word \<Rightarrow> 'w word" where
  "abs_diff a b = (if a < b then b - a else a - b)"

lemma unat_lt_2p: "unat (a :: 'w::len word) < 2 ^ LENGTH('w)"
  by (rule unsigned_less)

lemma unat_u64_lt [simp]: "unat (a :: u64) < 18446744073709551616"
  using unat_lt_2p [of a] by simp

lemma unat_u64_le [simp]: "unat (a :: u64) \<le> 18446744073709551615"
  using unat_u64_lt [of a] by linarith

lemma le_unat_lt: "n \<le> unat (a :: u64) \<Longrightarrow> n < 2 ^ 64"
  by (rule le_less_trans [OF _ unat_u64_lt [of a, THEN order.strict_trans2]]) simp_all

lemma unat_ucast_fits:
  "unat (x :: 'a::len word) < 2 ^ LENGTH('b) \<Longrightarrow> unat (ucast x :: 'b::len word) = unat x"
  by (simp add: unsigned_ucast_eq take_bit_nat_eq_self)

lemma unat_add_no_overflow:
  "unat a + unat b < 2 ^ LENGTH('w) \<Longrightarrow> unat (a + b :: 'w::len word) = unat a + unat b"
  by (simp add: unat_word_ariths)

lemma unat_sub_le:
  "b \<le> a \<Longrightarrow> unat (a - b :: 'w::len word) = unat a - unat b"
  by (rule unat_sub)

lemma unat_saturating_add:
  "unat (saturating_add a b :: 'w::len word) = min (unat a + unat b) (2 ^ LENGTH('w) - 1)"
proof (cases "unat a + unat b < 2 ^ LENGTH('w)")
  case True
  then show ?thesis
    using unat_add_no_overflow [OF True] by (simp add: saturating_add_def min_def) arith
next
  case False
  then show ?thesis by (simp add: saturating_add_def unsigned_minus_1_eq_mask mask_eq_exp_minus_1)
qed

lemma unat_mult_no_overflow:
  "unat (a :: 'w::len word) * unat b < 2 ^ LENGTH('w) \<Longrightarrow> unat (a * b) = unat a * unat b"
  by (simp add: unat_mult_lem [symmetric])

lemma unat_saturating_mul:
  "unat (saturating_mul a b) = min (unat a * unat b) (2 ^ LENGTH('w) - 1)"
  for a b :: "'w::len word"
proof (cases "unat a * unat b < 2 ^ LENGTH('w)")
  case True
  then show ?thesis by (simp add: saturating_mul_def unat_mult_no_overflow min_def) arith
next
  case False
  then show ?thesis
    by (simp add: saturating_mul_def unsigned_minus_1_eq_mask mask_eq_exp_minus_1)
qed

lemma unat_saturating_sub:
  "unat (saturating_sub a b :: 'w::len word) = unat a - unat b"
  by (auto simp: saturating_sub_def unat_sub_le word_le_nat_alt)

lemma checked_add_Some_iff:
  "checked_add a b = Some (c :: 'w::len word)
     \<longleftrightarrow> unat a + unat b < 2 ^ LENGTH('w) \<and> c = a + b"
  by (auto simp: checked_add_def)

lemma checked_add_None_iff:
  "checked_add (a :: 'w::len word) b = None \<longleftrightarrow> 2 ^ LENGTH('w) \<le> unat a + unat b"
  by (auto simp: checked_add_def)

lemma unat_abs_diff:
  "unat (abs_diff a b :: 'w::len word)
     = (if unat a < unat b then unat b - unat a else unat a - unat b)"
  by (auto simp: abs_diff_def word_less_nat_alt unat_sub_le word_le_nat_alt)

lemma abs_diff_commute: "abs_diff a b = abs_diff b a"
  by (auto simp: abs_diff_def)


section \<open>Results\<close>

text \<open>
  Rust's \<open>Result\<close>, with a third value for an execution that panics. The release profile
  sets \<open>panic = "abort"\<close>, so \<open>Panic\<close> stands for the whole process going down.
\<close>

datatype ('e, 'a) result = Ok 'a | Err 'e | Panic

text \<open>The \<open>?\<close> operator: continue with the value, or hand the error (or the panic) on.\<close>

fun and_then :: "('e, 'a) result \<Rightarrow> ('a \<Rightarrow> ('e, 'b) result) \<Rightarrow> ('e, 'b) result" where
  "and_then (Ok x) f = f x"
| "and_then (Err e) f = Err e"
| "and_then Panic f = Panic"

fun map_ok :: "('a \<Rightarrow> 'b) \<Rightarrow> ('e, 'a) result \<Rightarrow> ('e, 'b) result" where
  "map_ok f (Ok x) = Ok (f x)"
| "map_ok f (Err e) = Err e"
| "map_ok f Panic = Panic"

fun map_err :: "('e \<Rightarrow> 'f) \<Rightarrow> ('e, 'a) result \<Rightarrow> ('f, 'a) result" where
  "map_err f (Ok x) = Ok x"
| "map_err f (Err e) = Err (f e)"
| "map_err f Panic = Panic"

fun is_ok :: "('e, 'a) result \<Rightarrow> bool" where
  "is_ok (Ok x) = True"
| "is_ok (Err e) = False"
| "is_ok Panic = False"

definition ok_or :: "'a option \<Rightarrow> 'e \<Rightarrow> ('e, 'a) result" where
  "ok_or x e = (case x of None \<Rightarrow> Err e | Some y \<Rightarrow> Ok y)"

lemma and_then_eq_Ok_iff:
  "and_then m f = Ok y \<longleftrightarrow> (\<exists>x. m = Ok x \<and> f x = Ok y)"
  by (cases m) auto

lemma and_then_eq_Err_iff:
  "and_then m f = Err e \<longleftrightarrow> m = Err e \<or> (\<exists>x. m = Ok x \<and> f x = Err e)"
  by (cases m) auto

lemma and_then_eq_Panic_iff:
  "and_then m f = Panic \<longleftrightarrow> m = Panic \<or> (\<exists>x. m = Ok x \<and> f x = Panic)"
  by (cases m) auto

lemma and_then_assoc: "and_then (and_then m f) g = and_then m (\<lambda>x. and_then (f x) g)"
  by (cases m) auto

lemma map_ok_eq_Ok_iff: "map_ok f m = Ok y \<longleftrightarrow> (\<exists>x. m = Ok x \<and> y = f x)"
  by (cases m) auto

lemma map_err_eq_Ok_iff: "map_err f m = Ok y \<longleftrightarrow> m = Ok y"
  by (cases m) auto

lemma is_ok_iff: "is_ok m \<longleftrightarrow> (\<exists>x. m = Ok x)"
  by (cases m) auto

lemma ok_or_simps [simp]:
  "ok_or (Some x) e = Ok x"
  "ok_or None e = Err e"
  by (simp_all add: ok_or_def)

lemmas result_iffs = and_then_eq_Ok_iff and_then_eq_Err_iff and_then_eq_Panic_iff
  map_ok_eq_Ok_iff


section \<open>Searching a slice\<close>

text \<open>\<open>Iterator::position\<close> and \<open>Iterator::rposition\<close>: the first and the last match.\<close>

fun position :: "('a \<Rightarrow> bool) \<Rightarrow> 'a list \<Rightarrow> nat option" where
  "position P [] = None"
| "position P (x # xs) = (if P x then Some 0 else map_option Suc (position P xs))"

definition rposition :: "('a \<Rightarrow> bool) \<Rightarrow> 'a list \<Rightarrow> nat option" where
  "rposition P xs = map_option (\<lambda>i. length xs - 1 - i) (position P (rev xs))"

lemma position_None_iff [simp]: "position P xs = None \<longleftrightarrow> (\<forall>x\<in>set xs. \<not> P x)"
  by (induction xs) auto

lemma position_SomeD:
  "position P xs = Some i \<Longrightarrow> i < length xs \<and> P (xs ! i) \<and> (\<forall>j<i. \<not> P (xs ! j))"
proof (induction xs arbitrary: i)
  case Nil
  then show ?case by simp
next
  case (Cons x xs)
  show ?case
  proof (cases "P x")
    case True
    with Cons.prems show ?thesis by simp
  next
    case False
    with Cons.prems obtain k where k: "position P xs = Some k" "i = Suc k" by auto
    with Cons.IH [OF k(1)] False show ?thesis
      by (auto simp: nth_Cons split: nat.splits)
  qed
qed

lemma position_Some_lt: "position P xs = Some i \<Longrightarrow> i < length xs"
  and position_Some_holds: "position P xs = Some i \<Longrightarrow> P (xs ! i)"
  by (simp_all add: position_SomeD)

lemma position_Some_take:
  assumes "position P xs = Some i"
  shows "\<forall>x\<in>set (take i xs). \<not> P x"
  using position_SomeD [OF assms] by (auto simp: set_conv_nth)

lemma position_appendI:
  "\<forall>x\<in>set xs. \<not> P x \<Longrightarrow> P y \<Longrightarrow> position P (xs @ y # ys) = Some (length xs)"
  by (induction xs) auto

lemma position_cong: "(\<And>x. x \<in> set xs \<Longrightarrow> P x = Q x) \<Longrightarrow> position P xs = position Q xs"
  by (induction xs) auto

lemma position_append:
  "position P (xs @ ys) =
     (case position P xs of Some i \<Rightarrow> Some i | None \<Rightarrow> map_option (\<lambda>i. length xs + i) (position P ys))"
  by (induction xs; cases "position P ys") (auto simp del: position_None_iff split: option.split)

lemma position_Some_split:
  assumes "position P xs = Some i"
  obtains ys x zs where "xs = ys @ x # zs" "length ys = i" "P x" "\<forall>y\<in>set ys. \<not> P y"
proof
  from assms have i: "i < length xs" by (rule position_Some_lt)
  then show "xs = take i xs @ (xs ! i) # drop (Suc i) xs" by (rule id_take_nth_drop)
  show "length (take i xs) = i" using i by simp
  show "P (xs ! i)" using assms by (rule position_Some_holds)
  show "\<forall>y\<in>set (take i xs). \<not> P y" using assms by (rule position_Some_take)
qed

lemma rposition_None_iff [simp]: "rposition P xs = None \<longleftrightarrow> (\<forall>x\<in>set xs. \<not> P x)"
  by (simp add: rposition_def)

lemma rposition_Some_split:
  assumes "rposition P xs = Some i"
  obtains ys x zs where "xs = ys @ x # zs" "length ys = i" "P x" "\<forall>z\<in>set zs. \<not> P z"
proof -
  from assms obtain k where k: "position P (rev xs) = Some k" "i = length xs - 1 - k"
    by (auto simp: rposition_def)
  from k(1) obtain us x vs where r: "rev xs = us @ x # vs" "length us = k" "P x"
      "\<forall>u\<in>set us. \<not> P u"
    by (rule position_Some_split)
  from r(1) have xs: "xs = rev vs @ x # rev us"
    by (metis append_assoc append_Cons append_Nil rev.simps(2) rev_append rev_rev_ident)
  from xs r(2) k(2) have "length (rev vs) = i" by simp
  with xs r(3,4) show thesis by (intro that [of "rev vs" x "rev us"]) auto
qed

lemma rposition_appendI:
  assumes "P y" "\<forall>z\<in>set zs. \<not> P z"
  shows "rposition P (ys @ y # zs) = Some (length ys)"
proof -
  have "position P (rev zs @ y # rev ys) = Some (length zs)"
    using assms position_appendI [of "rev zs" P y "rev ys"] by simp
  then show ?thesis by (simp add: rposition_def)
qed

text \<open>\<open>Iterator::find\<close>.\<close>

lemma find_None_set_iff: "List.find P xs = None \<longleftrightarrow> (\<forall>x\<in>set xs. \<not> P x)"
  by (auto simp: find_None_iff)

lemma find_SomeD: "List.find P xs = Some x \<Longrightarrow> x \<in> set xs \<and> P x"
  by (auto simp: find_Some_iff)


section \<open>Comparison and division\<close>

text \<open>\<open>Ord::cmp\<close>, and the division of unsigned integers, which panics on a zero divisor.\<close>

datatype ordering = Less | Equal | Greater

definition cmp :: "'a::linorder \<Rightarrow> 'a \<Rightarrow> ordering" where
  "cmp a b = (if a < b then Less else if a = b then Equal else Greater)"

lemma cmp_iffs [simp]:
  "cmp a b = Less \<longleftrightarrow> a < b" "cmp a b = Equal \<longleftrightarrow> a = b" "cmp a b = Greater \<longleftrightarrow> b < a"
  by (auto simp: cmp_def)

definition udiv :: "'w::len word \<Rightarrow> 'w word \<Rightarrow> ('e, 'w word) result" where
  "udiv a b = (if b = 0 then Panic else Ok (a div b))"

lemma udiv_nonzero [simp]: "b \<noteq> 0 \<Longrightarrow> udiv a b = Ok (a div b)"
  by (simp add: udiv_def)



section \<open>Stable sorting\<close>

lemma sort_key_snoc:
  "sorted (map f xs) \<Longrightarrow>
     sort_key f (xs @ [x]) = takeWhile (\<lambda>y. f y \<le> f x) xs @ x # dropWhile (\<lambda>y. f y \<le> f x) xs"
proof (induction xs)
  case (Cons y ys)
  then have IH: "sort_key f (ys @ [x]) =
      takeWhile (\<lambda>y. f y \<le> f x) ys @ x # dropWhile (\<lambda>y. f y \<le> f x) ys" by simp
  have le: "\<forall>z\<in>set ys. f y \<le> f z" using Cons.prems by simp
  show ?case
  proof (cases "f y \<le> f x")
    case True
    have "\<forall>z\<in>set (ys @ [x]). f y \<le> f z" using le True by auto
    then have "insort_key f y (sort_key f (ys @ [x])) = y # sort_key f (ys @ [x])"
      by (intro insort_is_Cons) (simp only: set_sort)
    with IH True show ?thesis by simp
  next
    case False
    then have "takeWhile (\<lambda>y. f y \<le> f x) ys = []" "dropWhile (\<lambda>y. f y \<le> f x) ys = ys"
      using le by (cases ys; auto)+
    with IH False le show ?thesis by (simp add: insort_is_Cons)
  qed
qed simp

lemma sorted_wrt_dropWhile_all:
  assumes "sorted_wrt R xs" "\<And>a b. R a b \<Longrightarrow> P b \<Longrightarrow> P a" "y \<in> set (dropWhile P xs)"
  shows "\<not> P y"
  using assms(1,3)
proof (induction xs)
  case (Cons a xs)
  then show ?case using assms(2) [of a y] by (auto split: if_splits)
qed simp

lemma sorted_wrt_remove: "sorted_wrt R (ys @ x # zs) \<Longrightarrow> sorted_wrt R (ys @ zs)"
  by (auto simp: sorted_wrt_append)

end
