(* ===== verification/Types.thy ===== *)
theory Types
  imports Prelude
begin

text \<open>
  The protocol-level types that ledger, storage, consensus and network share
  (\<open>src/crates/ledger/src/types.rs\<close>, \<open>tx.rs\<close>, \<open>eras/mod.rs\<close>) and the error enums of the
  crates. The newtypes \<open>SlotNo\<close>, \<open>BlockNo\<close> and \<open>EpochNo\<close> wrap a \<open>u64\<close>; the fixed-size
  byte arrays \<open>[u8; 32]\<close> and \<open>[u8; 28]\<close> are byte lists, and \<open>is_hash32\<close>, \<open>is_hash28\<close>
  state their length where a lemma needs it.
\<close>

section \<open>Numbers and identifiers\<close>

type_synonym slot_no = u64
type_synonym block_no = u64
type_synonym epoch_no = u64
type_synonym header_hash = bytes
type_synonym tx_id = bytes
type_synonym pool_key_hash = bytes

definition is_hash32 :: "bytes \<Rightarrow> bool" where
  "is_hash32 h \<longleftrightarrow> length h = 32"

definition is_hash28 :: "bytes \<Rightarrow> bool" where
  "is_hash28 h \<longleftrightarrow> length h = 28"

datatype point = Origin | BlockPoint slot_no header_hash

fun point_slot :: "point \<Rightarrow> slot_no option" where
  "point_slot Origin = None"
| "point_slot (BlockPoint s h) = Some s"

fun point_hash :: "point \<Rightarrow> header_hash option" where
  "point_hash Origin = None"
| "point_hash (BlockPoint s h) = Some h"

datatype tip = TipGenesis | Tip point block_no

fun tip_point :: "tip \<Rightarrow> point" where
  "tip_point TipGenesis = Origin"
| "tip_point (Tip p bn) = p"

fun tip_block_no :: "tip \<Rightarrow> block_no option" where
  "tip_block_no TipGenesis = None"
| "tip_block_no (Tip p bn) = Some bn"

datatype era = Byron | Shelley | Allegra | Mary | Alonzo | Babbage | Conway

fun era_ordinal :: "era \<Rightarrow> u8" where
  "era_ordinal Byron = 0"
| "era_ordinal Shelley = 1"
| "era_ordinal Allegra = 2"
| "era_ordinal Mary = 3"
| "era_ordinal Alonzo = 4"
| "era_ordinal Babbage = 5"
| "era_ordinal Conway = 6"

datatype stake_credential = AddrKeyHash bytes | ScriptHash bytes


section \<open>Nonces\<close>

text \<open>
  \<open>Nonce::combine\<close> hashes with Blake2b-256, which the crypto crate takes from a third-party
  package: the hash is the argument \<open>blake2b256\<close>.
\<close>

datatype nonce = Neutral | Hash bytes

fun nonce_combine :: "(bytes \<Rightarrow> bytes) \<Rightarrow> nonce \<Rightarrow> nonce \<Rightarrow> nonce" where
  "nonce_combine blake2b256 Neutral n = n"
| "nonce_combine blake2b256 n Neutral = n"
| "nonce_combine blake2b256 (Hash a) (Hash b) = Hash (blake2b256 (a @ b))"

definition nonce_from_header_hash :: "header_hash \<Rightarrow> nonce" where
  "nonce_from_header_hash h = Hash h"

lemma nonce_combine_neutral [simp]:
  "nonce_combine f Neutral n = n" "nonce_combine f n Neutral = n"
  by (cases n; simp)+


section \<open>Blocks\<close>

text \<open>
  The transactions of a block are a type parameter: the storage layer copies them and never
  looks inside.
\<close>

record unit_interval =
  ui_numerator :: u64
  ui_denominator :: u64

record block_header =
  bh_hash :: header_hash
  bh_prev_hash :: header_hash
  bh_slot_no :: slot_no
  bh_block_no :: block_no
  bh_issuer_vkey :: bytes
  bh_protocol_version :: "(u64 \<times> u64) option"

record 'tx block =
  blk_era :: era
  blk_header :: block_header
  blk_transactions :: "'tx list"
  blk_raw_cbor :: "bytes option"
  blk_header_cbor_size :: "nat option"

definition blk_hash :: "'tx block \<Rightarrow> header_hash" where
  "blk_hash b = bh_hash (blk_header b)"

definition blk_slot :: "'tx block \<Rightarrow> slot_no" where
  "blk_slot b = bh_slot_no (blk_header b)"

definition point_for_block :: "'tx block \<Rightarrow> point" where
  "point_for_block b = BlockPoint (blk_slot b) (blk_hash b)"


section \<open>Errors\<close>

text \<open>The variants of \<open>LedgerError\<close> that the CBOR layer and the fee rules raise.\<close>

datatype ledger_error =
    CborUnexpectedEof
  | CborTypeMismatch u8 u8
  | CborInvalidAdditionalInfo u8
  | CborInvalidLength nat nat
  | CborTrailingBytes nat
  | CborDecodeError string
  | CborNestingTooDeep nat
  | DecodedCountTooLarge u64 nat
  | FeeTooSmall u64 u64
  | ExUnitsExceedTxLimit u64 u64 u64 u64
  | TxTooLarge u64 u64

datatype consensus_error =
    InvalidActiveSlotCoeff
  | InvalidVrfProof
  | InvalidOpCertSignature
  | InvalidKesSignature
  | KesPeriodTooEarly u64 u64
  | KesPeriodExpired u64 u64
  | KesPeriodOverflow
  | InvalidSlotsPerKesPeriod
  | RollbackTooDeep u64 u64
  | RollbackPointNotFound u64 header_hash
  | NonContiguousBlock u64 u64
  | SlotNotIncreasing u64 u64
  | PrevHashMismatch header_hash header_hash
  | VrfLeaderCheckFailed
  | TpraosOverlaySlotNotActive u64
  | WrongGenesisColdKey bytes bytes
  | NoCounterForKeyHash bytes
  | OcertCounterTooOld u64 u64
  | OcertCounterTooFar u64 u64
  | VrfKeyMismatch bytes bytes
  | VrfKeyUnknownPool bytes
  | ObsoleteNode u64 u64

datatype storage_error =
    DuplicateBlock header_hash
  | PointNotFound
  | Io
  | Serialization string
  | Recovery string

end
