(* ===== verification/ChainState.thy ===== *)
theory ChainState
  imports Types
begin

text \<open>
  The volatile chain state of \<open>src/crates/consensus/src/chain_state.rs\<close>: the window of
  recent chain points with its security parameter \<open>k\<close>, rolled forward block by block, rolled
  back by at most \<open>k\<close> blocks, and drained of the entries that have become stable.
\<close>

section \<open>Model\<close>

record chain_entry =
  ce_hash :: header_hash
  ce_slot :: slot_no
  ce_block_no :: block_no
  ce_prev_hash :: "header_hash option"

record chain_state =
  cs_k :: u64
  cs_entries :: "chain_entry list"


definition seed_from_entries :: "chain_state \<Rightarrow> chain_entry list \<Rightarrow> chain_state" where
  "seed_from_entries cs es =
     (if length es > unat (cs_k cs)
      then cs\<lparr>cs_entries := drop (length es - unat (cs_k cs)) es\<rparr>
      else cs\<lparr>cs_entries := es\<rparr>)"

definition entry_point :: "chain_entry \<Rightarrow> point" where
  "entry_point e = BlockPoint (ce_slot e) (ce_hash e)"

definition chain_state_tip :: "chain_state \<Rightarrow> point" where
  "chain_state_tip cs =
     (if cs_entries cs = [] then Origin else entry_point (last (cs_entries cs)))"

definition chain_state_tip_block_no :: "chain_state \<Rightarrow> block_no option" where
  "chain_state_tip_block_no cs =
     (if cs_entries cs = [] then None else Some (ce_block_no (last (cs_entries cs))))"

definition volatile_len :: "chain_state \<Rightarrow> nat" where
  "volatile_len cs = length (cs_entries cs)"

text \<open>The checks of \<open>roll_forward\<close> against the current tip, in the order the code makes them.\<close>

definition roll_forward_check ::
    "chain_entry \<Rightarrow> chain_entry \<Rightarrow> (consensus_error, unit) result" where
  "roll_forward_check t e =
     (if ce_block_no e \<noteq> ce_block_no t + 1
      then Err (NonContiguousBlock (ce_block_no t + 1) (ce_block_no e))
      else if ce_slot e < ce_slot t
      then Err (SlotNotIncreasing (ce_slot t) (ce_slot e))
      else case ce_prev_hash e of
        None \<Rightarrow> Ok ()
      | Some prev \<Rightarrow>
          if prev \<noteq> ce_hash t then Err (PrevHashMismatch (ce_hash t) prev) else Ok ())"

definition roll_forward ::
    "chain_state \<Rightarrow> chain_entry \<Rightarrow> (consensus_error, chain_state) result" where
  "roll_forward cs e =
     and_then
       (if cs_entries cs = [] then Ok () else roll_forward_check (last (cs_entries cs)) e)
       (\<lambda>_. Ok (cs\<lparr>cs_entries := cs_entries cs @ [e]\<rparr>))"

fun roll_backward ::
    "chain_state \<Rightarrow> point \<Rightarrow> (consensus_error, chain_state) result" where
  "roll_backward cs Origin =
     (if length (cs_entries cs) > unat (cs_k cs)
      then Err (RollbackTooDeep (of_nat (length (cs_entries cs))) (cs_k cs))
      else Ok (cs\<lparr>cs_entries := []\<rparr>))"
| "roll_backward cs (BlockPoint s h) =
     (case rposition (\<lambda>e. ce_slot e = s \<and> ce_hash e = h) (cs_entries cs) of
        Some idx \<Rightarrow>
          (let depth = length (cs_entries cs) - 1 - idx
           in if depth > unat (cs_k cs)
              then Err (RollbackTooDeep (of_nat depth) (cs_k cs))
              else Ok (cs\<lparr>cs_entries := take (idx + 1) (cs_entries cs)\<rparr>))
      | None \<Rightarrow> Err (RollbackPointNotFound s h))"

definition stable_count :: "chain_state \<Rightarrow> nat" where
  "stable_count cs = length (cs_entries cs) - unat (cs_k cs)"

definition drain_stable :: "chain_state \<Rightarrow> chain_entry list \<times> chain_state" where
  "drain_stable cs =
     (let n = stable_count cs
      in if n = 0 then ([], cs)
         else (take n (cs_entries cs), cs\<lparr>cs_entries := drop n (cs_entries cs)\<rparr>))"


section \<open>The link invariant\<close>

text \<open>
  \<open>follows t e\<close> is what the three checks of \<open>roll_forward\<close> establish of a block \<open>e\<close> put on
  top of \<open>t\<close>; a chain is linked when every entry follows the one before.
\<close>

definition follows :: "chain_entry \<Rightarrow> chain_entry \<Rightarrow> bool" where
  "follows t e \<longleftrightarrow>
     ce_block_no e = ce_block_no t + 1 \<and> ce_slot t \<le> ce_slot e \<and>
     (case ce_prev_hash e of None \<Rightarrow> True | Some p \<Rightarrow> p = ce_hash t)"

abbreviation linked :: "chain_entry list \<Rightarrow> bool" where
  "linked \<equiv> successively follows"

lemma roll_forward_check_Ok_iff: "roll_forward_check t e = Ok () \<longleftrightarrow> follows t e"
  by (auto simp: roll_forward_check_def follows_def not_less split: option.splits)

lemma roll_forward_check_no_Panic [simp]: "roll_forward_check t e \<noteq> Panic"
  by (auto simp: roll_forward_check_def split: option.splits)

lemma roll_forward_Ok_iff:
  "roll_forward cs e = Ok cs' \<longleftrightarrow>
     (cs_entries cs \<noteq> [] \<longrightarrow> follows (last (cs_entries cs)) e) \<and>
     cs' = cs\<lparr>cs_entries := cs_entries cs @ [e]\<rparr>"
  by (auto simp: roll_forward_def result_iffs roll_forward_check_Ok_iff)


lemma linked_take: "linked xs \<Longrightarrow> linked (take n xs)"
  using successively_append_iff [of follows "take n xs" "drop n xs"] by simp

lemma linked_drop: "linked xs \<Longrightarrow> linked (drop n xs)"
  using successively_append_iff [of follows "take n xs" "drop n xs"] by simp


lemma roll_backward_prefix:
  assumes "roll_backward cs p = Ok cs'"
  shows "\<exists>n. cs_entries cs' = take n (cs_entries cs)" and "cs_k cs' = cs_k cs"
  by (cases p; use assms in \<open>auto simp: Let_def intro: exI [of _ 0] split: option.splits if_splits\<close>)+


lemma drain_stable_k: "drain_stable cs = (ds, cs') \<Longrightarrow> cs_k cs' = cs_k cs"
  by (auto simp: drain_stable_def Let_def split: if_splits)

lemma drain_stable_bound:
  "drain_stable cs = (ds, cs') \<Longrightarrow>
     volatile_len cs' = min (volatile_len cs) (unat (cs_k cs))"
  by (auto simp: drain_stable_def stable_count_def volatile_len_def Let_def split: if_splits)

lemma linked_seed: "linked es \<Longrightarrow> linked (cs_entries (seed_from_entries cs es))"
  by (simp add: seed_from_entries_def linked_drop)


section \<open>Runs of the chain state\<close>

text \<open>
  The chain state together with the entries drained from it so far. A step is a successful
  roll-forward, a successful rollback to a block of the window, a rollback to the origin while
  nothing has been drained yet, or a drain.
\<close>

inductive chain_step ::
    "chain_entry list \<times> chain_state \<Rightarrow> chain_entry list \<times> chain_state \<Rightarrow> bool" where
  forward: "roll_forward cs e = Ok cs' \<Longrightarrow> chain_step (imm, cs) (imm, cs')"
| backward: "roll_backward cs (BlockPoint s h) = Ok cs' \<Longrightarrow> chain_step (imm, cs) (imm, cs')"
| to_origin: "roll_backward cs Origin = Ok cs' \<Longrightarrow> chain_step ([], cs) ([], cs')"
| drain: "drain_stable cs = (ds, cs') \<Longrightarrow> chain_step (imm, cs) (imm @ ds, cs')"

inductive_cases chain_stepE: "chain_step (imm, cs) t"












definition demo_entry :: "u64 \<Rightarrow> chain_entry" where
  "demo_entry n = \<lparr>ce_hash = replicate 32 (ucast n), ce_slot = 20 * n, ce_block_no = n,
     ce_prev_hash = Some (replicate 32 (ucast (n - 1)))\<rparr>"




section \<open>Rolling back what was rolled forward\<close>

text \<open>Adopting a list of blocks one after the other, stopping at the first error.\<close>

primrec roll_forward_all ::
    "chain_state \<Rightarrow> chain_entry list \<Rightarrow> (consensus_error, chain_state) result" where
  "roll_forward_all cs [] = Ok cs"
| "roll_forward_all cs (e # es) = and_then (roll_forward cs e) (\<lambda>cs'. roll_forward_all cs' es)"

lemma roll_forward_all_Ok_iff:
  "roll_forward_all cs es = Ok cs' \<longleftrightarrow>
     cs' = cs\<lparr>cs_entries := cs_entries cs @ es\<rparr> \<and>
     (if cs_entries cs = [] then linked es else linked (last (cs_entries cs) # es))"
proof (induction es arbitrary: cs)
  case Nil
  show ?case by auto
next
  case (Cons e es)
  show ?case
    by (auto simp: result_iffs roll_forward_Ok_iff Cons.IH)
qed

lemma roll_backward_append:
  assumes "cs_entries cs = xs @ es" "xs \<noteq> []" "length es \<le> unat (cs_k cs)"
    and "\<forall>e\<in>set es. entry_point e \<noteq> entry_point (last xs)"
  shows "roll_backward cs (entry_point (last xs)) = Ok (cs\<lparr>cs_entries := xs\<rparr>)"
proof -
  let ?l = "last xs"
  let ?P = "\<lambda>e. ce_slot e = ce_slot ?l \<and> ce_hash e = ce_hash ?l"
  have xs: "xs = butlast xs @ [?l]" using assms(2) by simp
  have "rposition ?P (butlast xs @ ?l # es) = Some (length (butlast xs))"
    by (rule rposition_appendI) (use assms(4) in \<open>auto simp: entry_point_def\<close>)
  moreover have "butlast xs @ ?l # es = xs @ es" using xs by (metis append.assoc append_Cons append_Nil)
  ultimately have "rposition ?P (xs @ es) = Some (length xs - 1)" by simp
  then show ?thesis
    using assms by (simp add: entry_point_def [of ?l] Let_def Suc_diff_1)
qed

text \<open>
  C2. Forks of at most \<open>k\<close> blocks are undone exactly. If the blocks \<open>es\<close> were adopted on top of a
  non-empty chain state, there are at most \<open>k\<close> of them and none of them is at the point of the old
  tip, then rolling back to the old tip succeeds and gives back the old chain state.
\<close>
theorem roll_back_undoes_roll_forward:
  assumes "roll_forward_all cs es = Ok cs'" "cs_entries cs \<noteq> []"
    and "length es \<le> unat (cs_k cs)"
    and "\<forall>e\<in>set es. entry_point e \<noteq> chain_state_tip cs"
  shows "roll_backward cs' (chain_state_tip cs) = Ok cs"
proof -
  have cs': "cs' = cs\<lparr>cs_entries := cs_entries cs @ es\<rparr>"
    using assms(1) by (simp add: roll_forward_all_Ok_iff)
  have "roll_backward cs' (entry_point (last (cs_entries cs))) =
      Ok (cs'\<lparr>cs_entries := cs_entries cs\<rparr>)"
    by (rule roll_backward_append) (use assms cs' in \<open>simp_all add: chain_state_tip_def\<close>)
  then show ?thesis using assms(2) cs' by (simp add: chain_state_tip_def)
qed

theorem roll_back_undoes_roll_forward_witness:
  "roll_backward \<lparr>cs_k = 2, cs_entries = [demo_entry 1, demo_entry 2, demo_entry 3]\<rparr>
     (BlockPoint 20 (replicate 32 1)) = Ok \<lparr>cs_k = 2, cs_entries = [demo_entry 1]\<rparr>"
proof -
  let ?cs = "\<lparr>cs_k = 2, cs_entries = [demo_entry 1]\<rparr>"
  let ?cs' = "\<lparr>cs_k = 2, cs_entries = [demo_entry 1, demo_entry 2, demo_entry 3]\<rparr>"
  have "roll_forward_all ?cs [demo_entry 2, demo_entry 3] = Ok ?cs'"
    by (simp add: roll_forward_all_Ok_iff follows_def demo_entry_def del: roll_forward_all.simps)
  from roll_back_undoes_roll_forward [OF this] show ?thesis
    by (simp add: chain_state_tip_def entry_point_def demo_entry_def)
qed

text \<open>
  C19. What a rollback to a block point does, on every branch. It fails with
  \<open>RollbackPointNotFound\<close> exactly when no entry of the window has that slot and hash; otherwise
  let \<open>e\<close> be the last entry at the point: with more than \<open>k\<close> entries above it the rollback fails
  with \<open>RollbackTooDeep\<close> (the depth and \<open>k\<close>), and with at most \<open>k\<close> it keeps exactly the entries up
  to \<open>e\<close>, so that the point is the new tip.
\<close>
theorem roll_backward_cases:
  "roll_backward cs (BlockPoint s h) = Err (RollbackPointNotFound s h) \<and>
     (\<nexists>e. e \<in> set (cs_entries cs) \<and> entry_point e = BlockPoint s h) \<or>
   (\<exists>ys e zs. cs_entries cs = ys @ e # zs \<and> entry_point e = BlockPoint s h \<and>
     (\<nexists>z. z \<in> set zs \<and> entry_point z = BlockPoint s h) \<and>
     roll_backward cs (BlockPoint s h) =
       (if length zs > unat (cs_k cs)
        then Err (RollbackTooDeep (of_nat (length zs)) (cs_k cs))
        else Ok (cs\<lparr>cs_entries := ys @ [e]\<rparr>)))"
proof (cases "rposition (\<lambda>e. ce_slot e = s \<and> ce_hash e = h) (cs_entries cs)")
  case None
  then have "roll_backward cs (BlockPoint s h) = Err (RollbackPointNotFound s h)" by (simp del: rposition_None_iff)
  with None show ?thesis unfolding rposition_None_iff entry_point_def by blast
next
  case (Some idx)
  then obtain ys e zs where sp: "cs_entries cs = ys @ e # zs" "length ys = idx"
      "ce_slot e = s \<and> ce_hash e = h" "\<forall>z\<in>set zs. \<not> (ce_slot z = s \<and> ce_hash z = h)"
    by (rule rposition_Some_split)
  have "roll_backward cs (BlockPoint s h) =
      (if length zs > unat (cs_k cs)
       then Err (RollbackTooDeep (of_nat (length zs)) (cs_k cs))
       else Ok (cs\<lparr>cs_entries := ys @ [e]\<rparr>))"
    using Some sp(1,2) by (simp add: Let_def)
  with sp show ?thesis unfolding entry_point_def by blast
qed

text \<open>
  A rollback to the origin measures only the window: after a drain it succeeds although the chain
  is longer than \<open>k\<close>, and then the next block is accepted whatever it claims to follow.
\<close>
lemma rollback_to_origin_after_drain:
  assumes "drain_stable cs = (ds, cs')"
  shows "roll_backward cs' Origin = Ok (cs'\<lparr>cs_entries := []\<rparr>)"
    and "roll_forward (cs'\<lparr>cs_entries := []\<rparr>) e = Ok (cs'\<lparr>cs_entries := [e]\<rparr>)"
proof -
  show "roll_backward cs' Origin = Ok (cs'\<lparr>cs_entries := []\<rparr>)"
    using drain_stable_bound [OF assms] drain_stable_k [OF assms] by (simp add: volatile_len_def)
  show "roll_forward (cs'\<lparr>cs_entries := []\<rparr>) e = Ok (cs'\<lparr>cs_entries := [e]\<rparr>)"
    by (simp add: roll_forward_Ok_iff)
qed

end
