(* ===== verification/ChainSelection.thy ===== *)
theory ChainSelection
  imports Types "HOL-Library.List_Lexorder"
begin

text \<open>
  Praos fork choice, \<open>src/crates/consensus/src/chain_selection.rs\<close>: the comparison of two chain
  candidates by length, operational-certificate number and VRF output, and what folding it over
  a list of candidates selects. VRF outputs are compared as byte strings, lexicographically.
\<close>

section \<open>Model\<close>

datatype vrf_tiebreaker_flavor =
    UnrestrictedVrfTiebreaker
  | RestrictedVrfTiebreaker u64

record chain_candidate =
  cc_block_no :: block_no
  cc_slot_no :: slot_no
  cc_issuer_vkey_hash :: "bytes option"
  cc_ocert_issue_no :: "u64 option"
  cc_vrf_tiebreaker :: "bytes option"

text \<open>
  \<open>ocert_verdict\<close> is step 2a, whose early return is \<open>Some\<close>; \<open>vrf_armed\<close> and
  \<open>vrf_verdict\<close> are step 2b.
\<close>

definition ocert_verdict :: "chain_candidate \<Rightarrow> chain_candidate \<Rightarrow> chain_candidate option" where
  "ocert_verdict left right =
     (case (cc_issuer_vkey_hash left, cc_issuer_vkey_hash right) of
        (Some l_issuer, Some r_issuer) \<Rightarrow>
          if l_issuer = r_issuer \<and> cc_slot_no left = cc_slot_no right
          then (case (cc_ocert_issue_no left, cc_ocert_issue_no right) of
                  (Some l_no, Some r_no) \<Rightarrow>
                    (case cmp r_no l_no of
                       Greater \<Rightarrow> Some right
                     | Less \<Rightarrow> Some left
                     | Equal \<Rightarrow> Some left)
                | _ \<Rightarrow> None)
          else None
      | _ \<Rightarrow> None)"

fun vrf_armed :: "vrf_tiebreaker_flavor \<Rightarrow> slot_no \<Rightarrow> slot_no \<Rightarrow> bool" where
  "vrf_armed UnrestrictedVrfTiebreaker l r \<longleftrightarrow> True"
| "vrf_armed (RestrictedVrfTiebreaker max_dist) l r \<longleftrightarrow> abs_diff l r \<le> max_dist"

definition vrf_verdict :: "chain_candidate \<Rightarrow> chain_candidate \<Rightarrow> chain_candidate" where
  "vrf_verdict left right =
     (case (cc_vrf_tiebreaker left, cc_vrf_tiebreaker right) of
        (Some l_vrf, Some r_vrf) \<Rightarrow>
          (case cmp r_vrf l_vrf of
             Less \<Rightarrow> right
           | Greater \<Rightarrow> left
           | Equal \<Rightarrow> left)
      | _ \<Rightarrow> left)"

definition select_preferred ::
    "chain_candidate \<Rightarrow> chain_candidate \<Rightarrow> vrf_tiebreaker_flavor \<Rightarrow> chain_candidate" where
  "select_preferred left right flavor =
     (case cmp (cc_block_no right) (cc_block_no left) of
        Greater \<Rightarrow> right
      | Less \<Rightarrow> left
      | Equal \<Rightarrow>
          (case ocert_verdict left right of
             Some c \<Rightarrow> c
           | None \<Rightarrow>
               if vrf_armed flavor (cc_slot_no left) (cc_slot_no right)
               then vrf_verdict left right
               else left))"

text \<open>The winner among an incumbent and challengers that arrive one after the other.\<close>

definition select_best ::
    "vrf_tiebreaker_flavor \<Rightarrow> chain_candidate \<Rightarrow> chain_candidate list \<Rightarrow> chain_candidate" where
  "select_best flavor = foldl (\<lambda>l r. select_preferred l r flavor)"


section \<open>The preference relation\<close>

text \<open>\<open>same_slot_leader\<close>: both issuers are known and equal, and so are the slots.\<close>

definition same_slot_leader :: "chain_candidate \<Rightarrow> chain_candidate \<Rightarrow> bool" where
  "same_slot_leader a b \<longleftrightarrow>
     cc_issuer_vkey_hash a \<noteq> None \<and> cc_issuer_vkey_hash a = cc_issuer_vkey_hash b \<and>
     cc_slot_no a = cc_slot_no b"

text \<open>\<open>beats f r l\<close> states declaratively when the challenger \<open>r\<close> replaces the incumbent \<open>l\<close>.\<close>

definition beats ::
    "vrf_tiebreaker_flavor \<Rightarrow> chain_candidate \<Rightarrow> chain_candidate \<Rightarrow> bool" where
  "beats f r l \<longleftrightarrow>
     cc_block_no l < cc_block_no r \<or>
     cc_block_no l = cc_block_no r \<and>
       (if same_slot_leader l r \<and> cc_ocert_issue_no l \<noteq> None \<and> cc_ocert_issue_no r \<noteq> None
        then the (cc_ocert_issue_no l) < the (cc_ocert_issue_no r)
        else vrf_armed f (cc_slot_no l) (cc_slot_no r) \<and>
             cc_vrf_tiebreaker l \<noteq> None \<and> cc_vrf_tiebreaker r \<noteq> None \<and>
             the (cc_vrf_tiebreaker r) < the (cc_vrf_tiebreaker l))"

lemma ocert_verdict_eq:
  "ocert_verdict l r =
     (if same_slot_leader l r \<and> cc_ocert_issue_no l \<noteq> None \<and> cc_ocert_issue_no r \<noteq> None
      then Some (if the (cc_ocert_issue_no l) < the (cc_ocert_issue_no r) then r else l)
      else None)"
  by (auto simp: ocert_verdict_def same_slot_leader_def cmp_def split: option.splits)

lemma vrf_verdict_eq:
  "vrf_verdict l r =
     (if cc_vrf_tiebreaker l \<noteq> None \<and> cc_vrf_tiebreaker r \<noteq> None \<and>
         the (cc_vrf_tiebreaker r) < the (cc_vrf_tiebreaker l) then r else l)"
  by (auto simp: vrf_verdict_def cmp_def split: option.splits)

lemma select_preferred_beats: "select_preferred l r f = (if beats f r l then r else l)"
  by (auto simp: select_preferred_def beats_def ocert_verdict_eq vrf_verdict_eq cmp_def)

lemma vrf_armed_commute: "vrf_armed f a b = vrf_armed f b a"
  by (cases f) (simp_all add: abs_diff_commute)

lemma same_slot_leader_commute: "same_slot_leader a b = same_slot_leader b a"
  by (auto simp: same_slot_leader_def)

lemma beats_asym: "beats f a b \<Longrightarrow> \<not> beats f b a"
  by (auto simp: beats_def vrf_armed_commute same_slot_leader_commute split: if_splits)

lemma select_best_Nil [simp]: "select_best f c [] = c"
  by (simp add: select_best_def)

lemma select_best_Cons [simp]:
  "select_best f c (d # ds) = select_best f (if beats f d c then d else c) ds"
  by (simp add: select_best_def select_preferred_beats)

lemma select_best_mem: "select_best f c ds \<in> insert c (set ds)"
proof (induction ds arbitrary: c)
  case (Cons d ds)
  show ?case using Cons.IH [of "if beats f d c then d else c"] by auto
qed simp

lemma select_best_block_no:
  "x \<in> insert c (set ds) \<Longrightarrow> cc_block_no x \<le> cc_block_no (select_best f c ds)"
proof (induction ds arbitrary: c x)
  case (Cons d ds)
  let ?w = "if beats f d c then d else c"
  have "cc_block_no c \<le> cc_block_no ?w" "cc_block_no d \<le> cc_block_no ?w"
    by (auto simp: beats_def)
  with Cons.IH [of ?w ?w] Cons.IH [of x ?w] Cons.prems show ?case
    by (auto intro: order.trans)
qed simp

text \<open>
  C16. The longest chain wins. Whatever the tie-breaker flavour, and whichever of the optional
  fields the candidates carry, the candidate selected from an incumbent and a list of challengers
  is one of them, and none of them has a higher block number.
\<close>
theorem select_best_longest:
  "select_best f c ds \<in> insert c (set ds) \<and>
   cc_block_no (select_best f c ds) = Max (cc_block_no ` insert c (set ds))"
  using select_best_mem select_best_block_no
  by (intro conjI Max_eqI [symmetric] imageI finite_imageI) auto


section \<open>Candidates with verifiable tie-breakers\<close>

text \<open>
  A Praos header carries all three tie-breaker fields, and the VRF output is a function of the
  issuer's key and the slot: \<open>vrf_of\<close> stands for that function of the cryptographic library.
\<close>

definition praos_candidate :: "(bytes \<Rightarrow> slot_no \<Rightarrow> bytes) \<Rightarrow> chain_candidate \<Rightarrow> bool" where
  "praos_candidate vrf_of c \<longleftrightarrow>
     (case (cc_issuer_vkey_hash c, cc_ocert_issue_no c, cc_vrf_tiebreaker c) of
        (Some i, Some n, Some v) \<Rightarrow> v = vrf_of i (cc_slot_no c)
      | _ \<Rightarrow> False)"

lemma praos_candidateE:
  assumes "praos_candidate vrf_of c"
  obtains i n where "cc_issuer_vkey_hash c = Some i" "cc_ocert_issue_no c = Some n"
    "cc_vrf_tiebreaker c = Some (vrf_of i (cc_slot_no c))"
  using assms by (auto simp: praos_candidate_def split: option.splits)

lemma beats_trans:
  assumes "praos_candidate vrf_of a" "praos_candidate vrf_of b" "praos_candidate vrf_of c"
    and "beats UnrestrictedVrfTiebreaker a b" "beats UnrestrictedVrfTiebreaker b c"
  shows "beats UnrestrictedVrfTiebreaker a c"
proof -
  from assms(1) obtain ia na where a: "cc_issuer_vkey_hash a = Some ia"
    "cc_ocert_issue_no a = Some na" "cc_vrf_tiebreaker a = Some (vrf_of ia (cc_slot_no a))"
    by (rule praos_candidateE)
  from assms(2) obtain ib nb where b: "cc_issuer_vkey_hash b = Some ib"
    "cc_ocert_issue_no b = Some nb" "cc_vrf_tiebreaker b = Some (vrf_of ib (cc_slot_no b))"
    by (rule praos_candidateE)
  from assms(3) obtain ic nc where c: "cc_issuer_vkey_hash c = Some ic"
    "cc_ocert_issue_no c = Some nc" "cc_vrf_tiebreaker c = Some (vrf_of ic (cc_slot_no c))"
    by (rule praos_candidateE)
  show ?thesis
    using assms(4,5) unfolding beats_def same_slot_leader_def
    by (auto simp: a b c split: if_splits)
qed

text \<open>
  Wherever the preference is transitive the fold only ever improves on the incumbent, and no
  candidate beats its result.
\<close>

definition beats_trans_on :: "vrf_tiebreaker_flavor \<Rightarrow> chain_candidate set \<Rightarrow> bool" where
  "beats_trans_on f C \<longleftrightarrow>
     (\<forall>a\<in>C. \<forall>b\<in>C. \<forall>d\<in>C. beats f a b \<longrightarrow> beats f b d \<longrightarrow> beats f a d)"

lemma beats_trans_onD:
  "beats_trans_on f C \<Longrightarrow> a \<in> C \<Longrightarrow> b \<in> C \<Longrightarrow> d \<in> C \<Longrightarrow> beats f a b \<Longrightarrow> beats f b d \<Longrightarrow> beats f a d"
  unfolding beats_trans_on_def by blast

lemma select_best_closed: "c \<in> C \<Longrightarrow> set ds \<subseteq> C \<Longrightarrow> select_best f c ds \<in> C"
  using select_best_mem [of f c ds] by auto

lemma select_best_improves:
  assumes "beats_trans_on f C" "c \<in> C" "set ds \<subseteq> C"
  shows "select_best f c ds = c \<or> beats f (select_best f c ds) c"
  using assms(2,3)
proof (induction ds arbitrary: c)
  case (Cons d ds)
  let ?w = "if beats f d c then d else c"
  have w: "?w \<in> C" "set ds \<subseteq> C" using Cons.prems by auto
  from Cons.IH [OF w] beats_trans_onD [OF assms(1) select_best_closed [OF w], of d c] Cons.prems
  show ?case by (auto split: if_splits)
qed simp

lemma select_best_unbeaten:
  assumes "beats_trans_on f C" "c \<in> C" "set ds \<subseteq> C" "x \<in> insert c (set ds)"
  shows "\<not> beats f x (select_best f c ds)"
  using assms(2-4)
proof (induction ds arbitrary: c x)
  case Nil
  then show ?case using beats_asym by auto
next
  case (Cons d ds)
  let ?w = "if beats f d c then d else c"
  let ?s = "select_best f ?w ds"
  have w: "?w \<in> C" "set ds \<subseteq> C" using Cons.prems by auto
  note imp = select_best_improves [OF assms(1) w] and cl = select_best_closed [OF w, of f]
  show ?case
  proof
    assume "beats f x (select_best f c (d # ds))"
    then have x: "beats f x ?s" by simp
    with Cons.IH [OF w, of x] Cons.prems have "x = c \<and> beats f d c \<or> x = d \<and> \<not> beats f d c"
      by (auto split: if_splits)
    moreover have "beats f x ?w"
      using imp x beats_trans_onD [OF assms(1) _ cl w(1) x] Cons.prems by auto
    ultimately show False using beats_asym by auto
  qed
qed

text \<open>
  C15. The winner is undominated. Before Conway (unrestricted tie-breaker), for candidates that
  carry an issuer, a certificate number and the VRF output of that issuer for that slot, none of
  the candidates, incumbent included, is preferred over the one selected; so the outcome does
  not depend on a challenger having been compared early or late.
\<close>
theorem select_best_undominated:
  assumes "\<forall>x\<in>insert c (set ds). praos_candidate vrf_of x" and "x \<in> insert c (set ds)"
  shows "select_preferred (select_best UnrestrictedVrfTiebreaker c ds) x UnrestrictedVrfTiebreaker
    = select_best UnrestrictedVrfTiebreaker c ds"
proof -
  have "beats_trans_on UnrestrictedVrfTiebreaker (insert c (set ds))"
    unfolding beats_trans_on_def using beats_trans assms(1) by blast
  from select_best_unbeaten [OF this _ _ assms(2)] show ?thesis
    by (auto simp: select_preferred_beats)
qed

lemma replicate_less [simp]:
  "replicate n (a :: 'a::linorder) < replicate n b \<longleftrightarrow> 0 < n \<and> a < b"
  by (induction n) auto

definition demo_candidate :: "u64 \<Rightarrow> u8 \<Rightarrow> u64 \<Rightarrow> u8 \<Rightarrow> chain_candidate" where
  "demo_candidate slot issuer ocert vrf =
     \<lparr>cc_block_no = 10, cc_slot_no = slot, cc_issuer_vkey_hash = Some (replicate 28 issuer),
      cc_ocert_issue_no = Some ocert, cc_vrf_tiebreaker = Some (replicate 32 vrf)\<rparr>"

theorem select_best_undominated_witness:
  "select_preferred
     (select_best UnrestrictedVrfTiebreaker (demo_candidate 50 1 3 7)
        [demo_candidate 60 2 1 6, demo_candidate 50 1 4 7])
     (demo_candidate 50 1 4 7) UnrestrictedVrfTiebreaker = demo_candidate 60 2 1 6"
proof -
  let ?vrf = "\<lambda>i s. if s = 50 then replicate 32 7 else replicate 32 6"
  have "\<forall>x\<in>insert (demo_candidate 50 1 3 7)
      (set [demo_candidate 60 2 1 6, demo_candidate 50 1 4 7]). praos_candidate ?vrf x"
    by (simp add: praos_candidate_def demo_candidate_def)
  from select_best_undominated [OF this, of "demo_candidate 50 1 4 7"] show ?thesis
    by (simp add: beats_def same_slot_leader_def demo_candidate_def)
qed

text \<open>
  With the restricted tie-breaker the preference is not transitive: three tips of equal length
  at slots 0, 10 and 20, the VRF armed up to a distance of 10.
\<close>
lemma restricted_not_transitive:
  "\<exists>a b c. praos_candidate (\<lambda>i s. replicate 32 (ucast s)) a \<and>
     praos_candidate (\<lambda>i s. replicate 32 (ucast s)) b \<and>
     praos_candidate (\<lambda>i s. replicate 32 (ucast s)) c \<and>
     beats (RestrictedVrfTiebreaker 10) a b \<and> beats (RestrictedVrfTiebreaker 10) b c \<and>
     \<not> beats (RestrictedVrfTiebreaker 10) a c"
  by (rule exI [of _ "demo_candidate 0 1 0 0"], rule exI [of _ "demo_candidate 10 2 0 10"],
      rule exI [of _ "demo_candidate 20 3 0 20"])
    (simp add: praos_candidate_def demo_candidate_def beats_def same_slot_leader_def
      abs_diff_def)

end
