(* ===== verification/Epoch.thy ===== *)
theory Epoch
  imports Types
begin

text \<open>
  Slots and epochs, \<open>src/crates/consensus/src/epoch.rs\<close>; the judgement of headers from the
  future, \<open>in_future.rs\<close>; and the header-density window of Genesis, \<open>genesis_density.rs\<close>.
  Division panics on a zero epoch size; additions and products wrap at 64 bits.
\<close>

section \<open>Epoch schedules\<close>

definition slot_to_epoch :: "slot_no \<Rightarrow> u64 \<Rightarrow> ('e, epoch_no) result" where
  "slot_to_epoch slot epoch_size = udiv slot epoch_size"

definition epoch_first_slot :: "epoch_no \<Rightarrow> u64 \<Rightarrow> slot_no" where
  "epoch_first_slot epoch epoch_size = epoch * epoch_size"

definition is_new_epoch :: "slot_no option \<Rightarrow> slot_no \<Rightarrow> u64 \<Rightarrow> ('e, bool) result" where
  "is_new_epoch prev_slot slot epoch_size =
     and_then (case prev_slot of None \<Rightarrow> Ok 0 | Some ps \<Rightarrow> slot_to_epoch ps epoch_size)
       (\<lambda>prev_epoch. and_then (slot_to_epoch slot epoch_size)
         (\<lambda>epoch. Ok (prev_epoch \<noteq> epoch)))"

record epoch_schedule =
  es_slots_per_epoch :: u64
  es_byron_slots_per_epoch :: u64
  es_byron_shelley_transition :: "(u64 \<times> u64) option"

definition fixed_schedule :: "u64 \<Rightarrow> epoch_schedule" where
  "fixed_schedule n = \<lparr>es_slots_per_epoch = n, es_byron_slots_per_epoch = 21600,
     es_byron_shelley_transition = None\<rparr>"

definition with_byron_prefix :: "u64 \<Rightarrow> u64 \<Rightarrow> u64 \<Rightarrow> u64 \<Rightarrow> epoch_schedule" where
  "with_byron_prefix n byron boundary_slot first_shelley_epoch =
     \<lparr>es_slots_per_epoch = n, es_byron_slots_per_epoch = byron,
      es_byron_shelley_transition = Some (boundary_slot, first_shelley_epoch)\<rparr>"

definition schedule_slot_to_epoch :: "epoch_schedule \<Rightarrow> slot_no \<Rightarrow> ('e, epoch_no) result" where
  "schedule_slot_to_epoch es slot =
     (case es_byron_shelley_transition es of
        Some (boundary_slot, first_shelley_epoch) \<Rightarrow>
          if slot \<ge> boundary_slot
          then map_ok (\<lambda>q. first_shelley_epoch + q)
                 (udiv (slot - boundary_slot) (es_slots_per_epoch es))
          else udiv slot (es_byron_slots_per_epoch es)
      | None \<Rightarrow> slot_to_epoch slot (es_slots_per_epoch es))"

definition schedule_epoch_first_slot :: "epoch_schedule \<Rightarrow> epoch_no \<Rightarrow> slot_no" where
  "schedule_epoch_first_slot es epoch =
     (case es_byron_shelley_transition es of
        Some (boundary_slot, first_shelley_epoch) \<Rightarrow>
          if epoch \<ge> first_shelley_epoch
          then boundary_slot + (epoch - first_shelley_epoch) * es_slots_per_epoch es
          else epoch * es_byron_slots_per_epoch es
      | None \<Rightarrow> epoch_first_slot epoch (es_slots_per_epoch es))"

definition schedule_is_new_epoch ::
    "epoch_schedule \<Rightarrow> slot_no option \<Rightarrow> slot_no \<Rightarrow> ('e, bool) result" where
  "schedule_is_new_epoch es prev_slot slot =
     and_then (case prev_slot of None \<Rightarrow> Ok 0 | Some ps \<Rightarrow> schedule_slot_to_epoch es ps)
       (\<lambda>prev_epoch. and_then (schedule_slot_to_epoch es slot)
         (\<lambda>epoch. Ok (prev_epoch \<noteq> epoch)))"

lemma fixed_schedule_eqs:
  "schedule_slot_to_epoch (fixed_schedule n) s = slot_to_epoch s n"
  "schedule_epoch_first_slot (fixed_schedule n) e = epoch_first_slot e n"
  "schedule_is_new_epoch (fixed_schedule n) p s = is_new_epoch p s n"
  by (simp_all add: schedule_slot_to_epoch_def schedule_epoch_first_slot_def fixed_schedule_def
      schedule_is_new_epoch_def is_new_epoch_def cong: option.case_cong)


section \<open>The timeline of a schedule\<close>

text \<open>
  A schedule is valid when no epoch is empty and the Byron-Shelley boundary is the slot at which
  the first Shelley epoch would start if all epochs before it were Byron epochs, as the
  documentation of the field requires. \<open>epoch_start\<close> and \<open>epoch_len\<close> describe the timeline over
  the natural numbers, without wrap-around.
\<close>

definition valid_schedule :: "epoch_schedule \<Rightarrow> bool" where
  "valid_schedule es \<longleftrightarrow>
     es_slots_per_epoch es \<noteq> 0 \<and> es_byron_slots_per_epoch es \<noteq> 0 \<and>
     (case es_byron_shelley_transition es of
        None \<Rightarrow> True
      | Some (b, f) \<Rightarrow> unat b = unat f * unat (es_byron_slots_per_epoch es))"

definition epoch_len :: "epoch_schedule \<Rightarrow> epoch_no \<Rightarrow> nat" where
  "epoch_len es e =
     (case es_byron_shelley_transition es of
        Some (b, f) \<Rightarrow> if e < f then unat (es_byron_slots_per_epoch es)
                       else unat (es_slots_per_epoch es)
      | None \<Rightarrow> unat (es_slots_per_epoch es))"

definition epoch_start :: "epoch_schedule \<Rightarrow> epoch_no \<Rightarrow> nat" where
  "epoch_start es e =
     (case es_byron_shelley_transition es of
        Some (b, f) \<Rightarrow>
          if e < f then unat e * unat (es_byron_slots_per_epoch es)
          else unat b + (unat e - unat f) * unat (es_slots_per_epoch es)
      | None \<Rightarrow> unat e * unat (es_slots_per_epoch es))"

definition in_epoch :: "epoch_schedule \<Rightarrow> slot_no \<Rightarrow> epoch_no \<Rightarrow> bool" where
  "in_epoch es s e \<longleftrightarrow> epoch_start es e \<le> unat s \<and> unat s < epoch_start es e + epoch_len es e"

lemma unat_schedule_epoch_first_slot:
  assumes "epoch_start es e < 2 ^ 64"
  shows "unat (schedule_epoch_first_slot es e) = epoch_start es e"
proof (cases "es_byron_shelley_transition es")
  case None
  then show ?thesis using assms
    by (simp add: schedule_epoch_first_slot_def epoch_start_def epoch_first_slot_def
        unat_mult_no_overflow)
next
  case (Some t)
  obtain b f where t: "t = (b, f)" by (cases t)
  show ?thesis
  proof (cases "e < f")
    case True
    then show ?thesis using assms Some t
      by (auto simp: schedule_epoch_first_slot_def epoch_start_def unat_mult_no_overflow)
  next
    case False
    then have fe: "f \<le> e" by simp
    have m: "unat ((e - f) * es_slots_per_epoch es) = (unat e - unat f) * unat (es_slots_per_epoch es)"
      using assms Some t False
      by (subst unat_mult_no_overflow) (simp_all add: epoch_start_def unat_sub_le [OF fe])
    have "unat (b + (e - f) * es_slots_per_epoch es) = epoch_start es e"
      using assms Some t False m
      by (subst unat_add_no_overflow) (simp_all add: epoch_start_def)
    then show ?thesis using Some t fe by (simp add: schedule_epoch_first_slot_def)
  qed
qed

lemma epoch_start_mono:
  assumes "valid_schedule es" "e < e'"
  shows "epoch_start es e + epoch_len es e \<le> epoch_start es e'"
proof (cases "es_byron_shelley_transition es")
  case None
  have "Suc (unat e) * unat (es_slots_per_epoch es) \<le> unat e' * unat (es_slots_per_epoch es)"
    using assms(2) by (intro mult_le_mono1) (simp add: word_less_nat_alt)
  with None show ?thesis by (simp add: epoch_start_def epoch_len_def)
next
  case (Some t)
  obtain b f where t: "t = (b, f)" by (cases t)
  let ?B = "unat (es_byron_slots_per_epoch es)" and ?S = "unat (es_slots_per_epoch es)"
  have b: "unat b = unat f * ?B" using assms(1) Some t by (simp add: valid_schedule_def)
  have ee: "unat e < unat e'" using assms(2) by (simp add: word_less_nat_alt)
  consider "e' < f" | "e < f" "f \<le> e'" | "f \<le> e" by fastforce
  then show ?thesis
  proof cases
    case 1
    have "Suc (unat e) * ?B \<le> unat e' * ?B" using ee by (intro mult_le_mono1) simp
    moreover have "e < f" using 1 assms(2) by simp
    ultimately show ?thesis using 1 Some t by (simp add: epoch_start_def epoch_len_def)
  next
    case 2
    have "Suc (unat e) * ?B \<le> unat f * ?B"
      using 2 by (intro mult_le_mono1) (simp add: word_less_nat_alt)
    moreover have "\<not> e' < f" using 2 by simp
    ultimately show ?thesis using 2(1) b Some t by (simp add: epoch_start_def epoch_len_def)
  next
    case 3
    then have "unat f \<le> unat e" by (simp add: word_le_nat_alt)
    with ee have "Suc (unat e - unat f) * ?S \<le> (unat e' - unat f) * ?S"
      by (intro mult_le_mono1) simp
    moreover have "\<not> e' < f" "\<not> e < f" using 3 assms(2) by simp_all
    ultimately show ?thesis using Some t by (simp add: epoch_start_def epoch_len_def)
  qed
qed

lemma in_epoch_unique:
  assumes "valid_schedule es" "in_epoch es s e" "in_epoch es s e'"
  shows "e = e'"
proof (rule ccontr)
  assume "e \<noteq> e'"
  then consider "e < e'" | "e' < e" by fastforce
  then show False
    using epoch_start_mono [OF assms(1), of e e'] epoch_start_mono [OF assms(1), of e' e] assms(2,3)
    by cases (simp_all add: in_epoch_def)
qed

lemma nat_div_interval: "0 < n \<Longrightarrow> (m :: nat) div n * n \<le> m \<and> m < m div n * n + n"
  using div_mult_mod_eq [of m n] mod_less_divisor [of n m] by linarith

lemma nat_div_interval_shift:
  assumes "0 < n" "b \<le> (s :: nat)"
  shows "b + (s - b) div n * n \<le> s \<and> s < b + (s - b) div n * n + n"
  using nat_div_interval [OF assms(1), of "s - b"] assms(2) by linarith

lemma schedule_slot_to_epoch_in_epoch:
  assumes "valid_schedule es"
  shows "\<exists>e. schedule_slot_to_epoch es s = (Ok e :: ('e, epoch_no) result) \<and> in_epoch es s e"
proof (cases "es_byron_shelley_transition es")
  case None
  have "0 < unat (es_slots_per_epoch es)" using assms by (simp add: valid_schedule_def unat_gt_0)
  from nat_div_interval [OF this, of "unat s"] None assms show ?thesis
    by (simp add: schedule_slot_to_epoch_def slot_to_epoch_def valid_schedule_def in_epoch_def
        epoch_start_def epoch_len_def unat_div)
next
  case (Some t)
  obtain b f where t: "t = (b, f)" by (cases t)
  let ?B = "unat (es_byron_slots_per_epoch es)" and ?S = "unat (es_slots_per_epoch es)"
  have v: "0 < ?B" "0 < ?S" "unat b = unat f * ?B"
    using assms Some t by (simp_all add: valid_schedule_def unat_gt_0)
  show ?thesis
  proof (cases "b \<le> s")
    case False
    then have "unat s < unat f * ?B" using v(3) by (simp add: word_less_nat_alt not_le)
    then have "unat s div ?B < unat f" using v(1) by (simp add: less_mult_imp_div_less)
    then have "s div es_byron_slots_per_epoch es < f" by (simp add: word_less_nat_alt unat_div)
    with False nat_div_interval [OF v(1), of "unat s"] Some t assms show ?thesis
      by (simp add: schedule_slot_to_epoch_def valid_schedule_def in_epoch_def epoch_start_def
          epoch_len_def unat_div)
  next
    case True
    define q where "q = (s - b) div es_slots_per_epoch es"
    have q: "unat q = (unat s - unat b) div ?S" by (simp add: q_def unat_div unat_sub_le [OF True])
    have "unat f \<le> unat b" using v by simp
    moreover have "unat q \<le> unat s - unat b" by (simp add: q)
    ultimately have "unat f + unat q < 2 ^ 64"
      by (intro le_unat_lt [of _ s]) (use True in \<open>simp add: word_le_nat_alt\<close>)
    then have fq: "unat (f + q) = unat f + unat q" by (intro unat_add_no_overflow) simp
    then have "\<not> f + q < f" by (simp add: word_less_nat_alt)
    moreover have "unat b \<le> unat s" using True by (simp add: word_le_nat_alt)
    ultimately have "in_epoch es s (f + q)"
      using nat_div_interval_shift [OF v(2), of "unat b" "unat s"] Some t fq q
      by (simp add: in_epoch_def epoch_start_def epoch_len_def)
    moreover have "schedule_slot_to_epoch es s = (Ok (f + q) :: ('e, epoch_no) result)"
      using True Some t assms
      by (simp add: schedule_slot_to_epoch_def valid_schedule_def q_def)
    ultimately show ?thesis by blast
  qed
qed

lemma schedule_slot_to_epoch_iff:
  assumes "valid_schedule es"
  shows "schedule_slot_to_epoch es s = (Ok e :: ('e, epoch_no) result) \<longleftrightarrow> in_epoch es s e"
proof -
  obtain e' where "schedule_slot_to_epoch es s = (Ok e' :: ('e, epoch_no) result)" "in_epoch es s e'"
    using schedule_slot_to_epoch_in_epoch [OF assms] by blast
  then show ?thesis using in_epoch_unique [OF assms, of s e e'] by auto
qed

text \<open>
  C17. Epoch arithmetic of a valid schedule, Byron prefix included. Every 64-bit slot is mapped,
  without panic and without wrap-around, to an epoch that contains it: the first slot the schedule
  computes for that epoch is at or before the slot, which lies less than one epoch length after
  it; and no other epoch does.
\<close>
theorem slot_to_epoch_correct:
  assumes "valid_schedule es"
  shows "\<exists>e. schedule_slot_to_epoch es s = (Ok e :: ('e, epoch_no) result) \<and>
     unat (schedule_epoch_first_slot es e) \<le> unat s \<and>
     unat s < unat (schedule_epoch_first_slot es e) + epoch_len es e \<and>
     (\<nexists>e'. e' \<noteq> e \<and> in_epoch es s e')"
proof -
  obtain e where e: "schedule_slot_to_epoch es s = (Ok e :: ('e, epoch_no) result)" "in_epoch es s e"
    using schedule_slot_to_epoch_in_epoch [OF assms, of s] by auto
  have "epoch_start es e < 2 ^ 64"
    by (rule le_unat_lt [of _ s]) (use e(2) in \<open>simp add: in_epoch_def\<close>)
  note fs = unat_schedule_epoch_first_slot [OF this]
  have "\<nexists>e'. e' \<noteq> e \<and> in_epoch es s e'" using in_epoch_unique [OF assms e(2)] by blast
  with fs e show ?thesis unfolding in_epoch_def by auto
qed

text \<open>The public mainnet schedule: 208 Byron epochs of 21600 slots, then 432000 slots each.\<close>

definition mainnet_schedule :: epoch_schedule where
  "mainnet_schedule = with_byron_prefix 432000 21600 4492800 208"

lemma valid_mainnet_schedule [simp]: "valid_schedule mainnet_schedule"
  by (simp add: valid_schedule_def mainnet_schedule_def with_byron_prefix_def)

theorem slot_to_epoch_correct_witness:
  "\<exists>e. schedule_slot_to_epoch mainnet_schedule 100000000 = (Ok e :: (unit, epoch_no) result) \<and>
     unat (schedule_epoch_first_slot mainnet_schedule e) \<le> 100000000"
  using slot_to_epoch_correct [OF valid_mainnet_schedule, of 100000000, where ?'e = unit] by auto

text \<open>
  C18. Epoch boundaries are detected exactly. For a valid schedule and a slot not before the
  previous one, \<open>is_new_epoch\<close> answers yes exactly when the first slot of the epoch of the new
  slot lies after the previous slot, that is when a boundary has been crossed.
\<close>
theorem is_new_epoch_iff_boundary:
  assumes "valid_schedule es" "ps \<le> s"
    and "schedule_slot_to_epoch es s = (Ok e :: ('e, epoch_no) result)"
  shows "schedule_is_new_epoch es (Some ps) s =
    (Ok (ps < schedule_epoch_first_slot es e) :: ('e, bool) result)"
proof -
  have e: "in_epoch es s e" using assms(3) by (simp add: schedule_slot_to_epoch_iff [OF assms(1)])
  obtain e' where e': "schedule_slot_to_epoch es ps = (Ok e' :: ('e, epoch_no) result)"
      "in_epoch es ps e'"
    using schedule_slot_to_epoch_in_epoch [OF assms(1), of ps] by auto
  have "epoch_start es e < 2 ^ 64"
    by (rule le_unat_lt [of _ s]) (use e in \<open>simp add: in_epoch_def\<close>)
  note fs = unat_schedule_epoch_first_slot [OF this]
  have "e' \<noteq> e \<longleftrightarrow> ps < schedule_epoch_first_slot es e"
  proof (cases "ps < schedule_epoch_first_slot es e")
    case True
    then show ?thesis using e'(2) by (auto simp: in_epoch_def word_less_nat_alt fs)
  next
    case False
    then have "in_epoch es ps e"
      using e assms(2) by (simp add: in_epoch_def word_less_nat_alt word_le_nat_alt fs)
    with in_epoch_unique [OF assms(1) e'(2), of e] False show ?thesis by simp
  qed
  with e' assms(3) show ?thesis by (simp add: schedule_is_new_epoch_def)
qed

theorem is_new_epoch_iff_boundary_witness:
  "schedule_is_new_epoch mainnet_schedule (Some 4924799) 4924800 = (Ok True :: (unit, bool) result)"
proof -
  have "schedule_slot_to_epoch mainnet_schedule 4924800 = (Ok 209 :: (unit, epoch_no) result)"
    by (simp add: schedule_slot_to_epoch_def mainnet_schedule_def with_byron_prefix_def)
  from is_new_epoch_iff_boundary [OF valid_mainnet_schedule _ this, of 4924799] show ?thesis
    by (simp add: schedule_epoch_first_slot_def mainnet_schedule_def with_byron_prefix_def)
qed

end
