(* ===== verification/Density.thy ===== *)
theory Density
  imports Types
begin

text \<open>
  Two judgements ChainSync makes about the slots of received headers: whether a header comes from
  the future (\<open>src/crates/consensus/src/in_future.rs\<close>), and how dense the headers of a peer are
  (\<open>genesis_density.rs\<close>, the sliding window that feeds the peer governor). The quotient
  \<open>density\<close> itself is a floating-point number and is not modelled; the count it divides is.
\<close>

section \<open>Headers from the future\<close>

datatype future_slot_judgement = NotFuture | NearFuture u64 | FarFuture u64

definition judge_header_slot :: "slot_no \<Rightarrow> slot_no \<Rightarrow> u64 \<Rightarrow> future_slot_judgement" where
  "judge_header_slot header_slot current_wall_slot max_slots =
     (if header_slot \<le> current_wall_slot then NotFuture
      else let excess = header_slot - current_wall_slot
           in if excess \<le> max_slots then NearFuture excess else FarFuture excess)"

lemma judge_header_slot_excess:
  assumes "judge_header_slot h w m = NearFuture x \<or> judge_header_slot h w m = FarFuture x"
  shows "unat h = unat w + unat x" "0 < x"
proof -
  have "w < h" "x = h - w"
    using assms by (auto simp: judge_header_slot_def Let_def split: if_splits)
  moreover have "unat (h - w) = unat h - unat w" using \<open>w < h\<close> by (intro unat_sub_le) simp
  ultimately show "unat h = unat w + unat x" "0 < x"
    by (simp_all add: word_less_nat_alt)
qed


section \<open>The density window\<close>

record density_window =
  dw_slot_window :: u64
  dw_headers_seen :: u32
  dw_last_slot :: "slot_no option"
  dw_window_start :: u64

text \<open>\<open>with_window\<close> asserts that the window is not empty.\<close>

definition with_window :: "u64 \<Rightarrow> ('e, density_window) result" where
  "with_window w =
     (if w > 0
      then Ok \<lparr>dw_slot_window = w, dw_headers_seen = 0, dw_last_slot = None, dw_window_start = 0\<rparr>
      else Panic)"

definition density_window_new :: "('e, density_window) result" where
  "density_window_new = with_window 6480"

definition slide_window :: "density_window \<Rightarrow> slot_no \<Rightarrow> density_window" where
  "slide_window dw slot =
     (let new_window_start = saturating_sub slot (dw_slot_window dw)
      in if new_window_start > dw_window_start dw
         then let dropped = min (new_window_start - dw_window_start dw)
                              (ucast (dw_headers_seen dw))
              in dw\<lparr>dw_headers_seen := saturating_sub (dw_headers_seen dw) (ucast dropped),
                    dw_window_start := new_window_start\<rparr>
         else dw)"

definition observe_header :: "density_window \<Rightarrow> slot_no \<Rightarrow> bool \<times> density_window" where
  "observe_header dw slot =
     (if (case dw_last_slot dw of None \<Rightarrow> False | Some last_slot \<Rightarrow> slot < last_slot)
      then (False, dw)
      else let dw' = slide_window dw slot
           in (True, dw'\<lparr>dw_headers_seen := saturating_add (dw_headers_seen dw') 1,
                         dw_last_slot := Some slot\<rparr>))"

definition density_reset :: "density_window \<Rightarrow> density_window" where
  "density_reset dw = dw\<lparr>dw_headers_seen := 0, dw_last_slot := None, dw_window_start := 0\<rparr>"

text \<open>The window after the headers of a peer, in the order they arrive.\<close>

definition observe_all :: "density_window \<Rightarrow> slot_no list \<Rightarrow> density_window" where
  "observe_all = foldl (\<lambda>dw slot. snd (observe_header dw slot))"

lemma density_reset_new:
  "with_window w = (Ok dw :: ('e, density_window) result) \<Longrightarrow>
     density_reset (observe_all dw ss) = dw"
proof -
  assume "with_window w = (Ok dw :: ('e, density_window) result)"
  then have dw: "dw = \<lparr>dw_slot_window = w, dw_headers_seen = 0, dw_last_slot = None,
      dw_window_start = 0\<rparr>"
    by (simp add: with_window_def split: if_splits)
  have "dw_slot_window (observe_all d ss) = dw_slot_window d" for d
    by (induction ss arbitrary: d)
      (simp_all add: observe_all_def observe_header_def slide_window_def Let_def)
  from this [of dw] show ?thesis by (simp add: density_reset_def dw)
qed

lemma unat_dropped:
  "unat (ucast (min a (ucast (n :: u32)) :: u64) :: u32) = min (unat a) (unat n)"
proof -
  have n: "unat (ucast n :: u64) = unat n"
    using unat_lt_2p [of n] by (intro unat_ucast_fits) simp
  have m: "unat (min a (ucast n) :: u64) = min (unat a) (unat n)"
    by (simp add: min_def word_le_nat_alt n)
  have "min (unat a) (unat n) < 2 ^ 32" using unat_lt_2p [of n] by simp
  then show ?thesis by (subst unat_ucast_fits) (simp_all add: m)
qed

text \<open>The effect of one observation, over the natural numbers.\<close>

lemma slide_window_nat:
  defines "d dw slot \<equiv> (unat slot - unat (dw_slot_window dw)) - unat (dw_window_start dw)"
  shows "unat (dw_headers_seen (slide_window dw slot)) = unat (dw_headers_seen dw) - d dw slot"
    and "unat (dw_window_start (slide_window dw slot)) =
           max (unat (dw_window_start dw)) (unat slot - unat (dw_slot_window dw))"
proof -
  let ?n = "saturating_sub slot (dw_slot_window dw)"
  have n: "unat ?n = unat slot - unat (dw_slot_window dw)" by (rule unat_saturating_sub)
  have gt: "dw_window_start dw < ?n \<longleftrightarrow> unat (dw_window_start dw) < unat ?n"
    by (simp add: word_less_nat_alt)
  have diff: "unat (?n - dw_window_start dw) = unat ?n - unat (dw_window_start dw)"
    if "dw_window_start dw < ?n"
    using that by (intro unat_sub_le) simp
  show "unat (dw_headers_seen (slide_window dw slot)) = unat (dw_headers_seen dw) - d dw slot"
    using gt diff by (auto simp: slide_window_def Let_def unat_saturating_sub unat_dropped d_def n)
  show "unat (dw_window_start (slide_window dw slot)) =
      max (unat (dw_window_start dw)) (unat slot - unat (dw_slot_window dw))"
    using gt by (auto simp: slide_window_def Let_def n)
qed

lemma slide_window_keeps [simp]:
  "dw_slot_window (slide_window dw slot) = dw_slot_window dw"
  "dw_last_slot (slide_window dw slot) = dw_last_slot dw"
  by (simp_all add: slide_window_def Let_def)


lemma observe_all_Nil [simp]: "observe_all dw [] = dw"
  by (simp add: observe_all_def)

lemma observe_all_snoc: "observe_all dw (ss @ [s]) = snd (observe_header (observe_all dw ss) s)"
  by (simp add: observe_all_def)

text \<open>What the window holds after a non-decreasing sequence of slots.\<close>

lemma observe_all_shape:
  assumes "with_window w = (Ok dw :: ('e, density_window) result)" "sorted ss"
  shows "dw_slot_window (observe_all dw ss) = w"
    and "dw_last_slot (observe_all dw ss) = (if ss = [] then None else Some (last ss))"
    and "unat (dw_window_start (observe_all dw ss)) =
           (if ss = [] then 0 else unat (last ss) - unat w)"
  using assms(2)
proof (induction ss rule: rev_induct)
  case Nil
  { case 1 then show ?case using assms(1) by (auto simp: with_window_def split: if_splits) }
  { case 2 then show ?case using assms(1) by (auto simp: with_window_def split: if_splits) }
  { case 3 then show ?case using assms(1) by (auto simp: with_window_def split: if_splits) }
next
  case (snoc s ss)
  let ?d = "observe_all dw ss"
  have prem: "sorted ss" "ss \<noteq> [] \<longrightarrow> last ss \<le> s" if "sorted (ss @ [s])"
    using that by (auto simp: sorted_append)
  have adm: "\<not> (case dw_last_slot ?d of None \<Rightarrow> False | Some l \<Rightarrow> s < l)"
    if "sorted (ss @ [s])"
    using snoc(2) prem [OF that] by (auto split: if_splits)
  { case 1 then show ?case using snoc(1) prem
      by (auto simp: observe_all_snoc observe_header_def Let_def) }
  { case 2 then show ?case using adm
      by (auto simp: observe_all_snoc observe_header_def Let_def) }
  { case 3
    note so = prem [OF 3]
    have "unat (dw_window_start ?d) \<le> unat s - unat w"
      using snoc(3) [OF so(1)] so(2) by (simp add: word_le_nat_alt diff_le_mono)
    with adm [OF 3] snoc(1) [OF so(1)] show ?case
      by (simp add: observe_all_snoc observe_header_def Let_def slide_window_nat(2)) }
qed

lemma observe_all_count_step:
  assumes "with_window w = (Ok dw :: ('e, density_window) result)" "sorted (ss @ [s])"
  shows "unat (dw_headers_seen (observe_all dw (ss @ [s]))) =
    min (unat (dw_headers_seen (observe_all dw ss)) -
        ((unat s - unat w) - (if ss = [] then 0 else unat (last ss) - unat w)) + 1) (2 ^ 32 - 1)"
proof -
  let ?d = "observe_all dw ss"
  have so: "sorted ss" "ss \<noteq> [] \<longrightarrow> last ss \<le> s" using assms(2) by (auto simp: sorted_append)
  note sh = observe_all_shape [OF assms(1) so(1)]
  have "\<not> (case dw_last_slot ?d of None \<Rightarrow> False | Some l \<Rightarrow> s < l)"
    using sh(2) so(2) by (auto split: if_splits)
  then show ?thesis
    by (simp add: observe_all_snoc observe_header_def Let_def unat_saturating_add
        slide_window_nat(1) sh(1,3) del: One_nat_def)
qed

lemma distinct_words_in_interval:
  fixes ss :: "u64 list"
  assumes "distinct ss" "\<forall>x\<in>set ss. a \<le> unat x \<and> unat x < b"
  shows "length ss \<le> b - a"
proof -
  have "inj_on unat (set ss)" by (rule inj_onI) (simp add: word_unat_eq_iff)
  then have "length ss = card (unat ` set ss)"
    using assms(1) by (simp add: distinct_card card_image)
  also have "\<dots> \<le> card {a..<b}" using assms(2) by (intro card_mono) auto
  finally show ?thesis by simp
qed

lemma length_filter_split:
  fixes f :: "'a \<Rightarrow> nat"
  shows "length (filter (\<lambda>x. a \<le> f x) xs) \<le>
    length (filter (\<lambda>x. b \<le> f x) xs) + length (filter (\<lambda>x. a \<le> f x \<and> f x < b) xs)"
  by (induction xs) auto

text \<open>
  C23. The density counter never over-counts a peer whose header slots strictly increase: it is at
  most the number of headers that really lie in the window.
\<close>
theorem density_undercounts:
  assumes "with_window w = (Ok dw :: ('e, density_window) result)" "sorted ss" "distinct ss"
  shows "unat (dw_headers_seen (observe_all dw ss)) \<le>
    length (filter (\<lambda>s. dw_window_start (observe_all dw ss) \<le> s) ss)"
  using assms(2,3)
proof (induction ss rule: rev_induct)
  case Nil
  then show ?case using assms(1) by (auto simp: with_window_def split: if_splits)
next
  case (snoc s ss)
  define W where "W = (if ss = [] then 0 else unat (last ss) - unat w)"
  define W' where "W' = unat s - unat w"
  define cnt where "cnt a = length (filter (\<lambda>s. a \<le> unat s) ss)" for a
  have so: "sorted ss" "distinct ss" using snoc.prems by (simp_all add: sorted_append)
  have W: "unat (dw_window_start (observe_all dw ss)) = W"
    unfolding W_def by (rule observe_all_shape(3) [OF assms(1) so(1)])
  have W': "unat (dw_window_start (observe_all dw (ss @ [s]))) = W'"
    unfolding W'_def using observe_all_shape(3) [OF assms(1) snoc.prems(1)] by simp
  have "cnt W \<le> cnt W' + length (filter (\<lambda>s. W \<le> unat s \<and> unat s < W') ss)"
    unfolding cnt_def by (rule length_filter_split)
  also have "\<dots> \<le> cnt W' + (W' - W)"
    by (intro add_left_mono distinct_words_in_interval) (use so in auto)
  finally have "cnt W - (W' - W) \<le> cnt W'" by simp
  moreover have "unat (dw_headers_seen (observe_all dw ss)) \<le> cnt W"
    using snoc.IH [OF so] by (simp add: word_le_nat_alt W cnt_def)
  ultimately have "unat (dw_headers_seen (observe_all dw ss)) - (W' - W) + 1 \<le> cnt W' + 1"
    by simp
  moreover have "length (filter (\<lambda>x. dw_window_start (observe_all dw (ss @ [s])) \<le> x) (ss @ [s]))
      = cnt W' + 1"
    by (simp add: word_le_nat_alt W' cnt_def) (simp add: W'_def)
  ultimately show ?case
    using observe_all_count_step [OF assms(1) snoc.prems(1), folded W_def W'_def] by simp
qed

theorem density_undercounts_witness:
  "\<exists>dw. with_window 2 = (Ok dw :: (unit, density_window) result) \<and>
     unat (dw_headers_seen (observe_all dw [1, 2, 4, 7])) \<le>
     length (filter (\<lambda>s. dw_window_start (observe_all dw [1, 2, 4, 7]) \<le> s) [1, 2, 4, 7])"
proof -
  obtain dw where dw: "with_window 2 = (Ok dw :: (unit, density_window) result)"
    by (simp add: with_window_def)
  from density_undercounts [OF this, of "[1, 2, 4, 7]"] dw show ?thesis by auto
qed


section \<open>A peer with a steady block rate\<close>

text \<open>The first \<open>n + 1\<close> headers of a peer that produces one header every \<open>g\<close> slots.\<close>

definition steady_slots :: "nat \<Rightarrow> nat \<Rightarrow> slot_no list" where
  "steady_slots g n = map (\<lambda>i. of_nat (i * g)) [0..<Suc n]"

lemma unat_of_nat_u64: "m < 2 ^ 64 \<Longrightarrow> unat (of_nat m :: u64) = m"
  by (simp add: unsigned_of_nat take_bit_nat_eq_self)

lemma steady_slots_Suc: "steady_slots g (Suc n) = steady_slots g n @ [of_nat (Suc n * g)]"
  by (simp add: steady_slots_def algebra_simps)

lemma steady_slots_last: "steady_slots g n \<noteq> []" "last (steady_slots g n) = of_nat (n * g)"
  by (simp_all add: steady_slots_def)

lemma steady_slots_unat:
  assumes "n * g < 2 ^ 64" "i \<le> n"
  shows "unat (of_nat (i * g) :: u64) = i * g"
proof -
  have "i * g \<le> n * g" using assms(2) by (rule mult_le_mono1)
  then have "i * g < 2 ^ 64" using assms(1) by (rule le_less_trans)
  then show ?thesis by (rule unat_of_nat_u64)
qed

lemma steady_slots_sorted:
  assumes "n * g < 2 ^ 64"
  shows "sorted (steady_slots g n)"
proof -
  have "of_nat (i * g) \<le> (of_nat (j * g) :: u64)" if "i \<le> j" "j \<le> n" for i j
    using that assms by (simp add: word_le_nat_alt steady_slots_unat del: of_nat_mult)
  then show ?thesis
    by (auto simp: steady_slots_def sorted_iff_nth_mono simp del: of_nat_mult upt_Suc)
qed

lemma steady_count:
  assumes "with_window w = (Ok dw :: ('e, density_window) result)"
    and "n * g < 2 ^ 64" "n + 1 < 2 ^ 32" "0 < g"
  shows "unat (dw_headers_seen (observe_all dw (steady_slots g n))) =
    max 1 (n + 1 - (n * g - unat w))"
  using assms(2,3)
proof (induction n)
  case 0
  have "unat (dw_headers_seen dw) = 0"
    using assms(1) by (auto simp: with_window_def split: if_splits)
  then show ?case using observe_all_count_step [OF assms(1), of "[]" 0]
    by (simp add: steady_slots_def)
next
  case (Suc n)
  have n: "n * g < 2 ^ 64" "n + 1 < 2 ^ 32" using Suc.prems by simp_all
  let ?x = "max 1 (n + 1 - (n * g - unat w))"
  have so: "sorted (steady_slots g n @ [of_nat (Suc n * g)])"
    using steady_slots_sorted [OF Suc.prems(1)] by (simp only: steady_slots_Suc)
  have "unat (dw_headers_seen (observe_all dw (steady_slots g (Suc n)))) =
      min (?x - ((Suc n * g - unat w) - (n * g - unat w)) + 1) (2 ^ 32 - 1)"
    unfolding steady_slots_Suc observe_all_count_step [OF assms(1) so]
    using Suc.IH [OF n] steady_slots_unat [OF Suc.prems(1), of "Suc n"] steady_slots_unat [OF n(1), of n]
    by (simp add: steady_slots_last del: of_nat_mult mult_Suc)
  also have "\<dots> = ?x - ((Suc n * g - unat w) - (n * g - unat w)) + 1"
    using Suc.prems(2) by (intro min_absorb1) simp
  also have "\<dots> = max 1 (Suc n + 1 - (Suc n * g - unat w))"
  proof (cases "n * g < unat w")
    case True
    then show ?thesis by simp
  next
    case False
    then have "(Suc n * g - unat w) - (n * g - unat w) = g" by simp
    with False \<open>0 < g\<close> show ?thesis by simp
  qed
  finally show ?case .
qed

lemma steady_in_window:
  assumes "0 < g"
  shows "length (filter (\<lambda>i. n * g - w \<le> i * g) [0..<Suc n]) = min n (w div g) + 1"
proof -
  have "n * g - w \<le> i * g \<longleftrightarrow> n - w div g \<le> i" if "i \<le> n" for i
  proof -
    have "n * g - w \<le> i * g \<longleftrightarrow> (n - i) * g \<le> w"
      using that by (simp add: diff_mult_distrib) linarith
    also have "\<dots> \<longleftrightarrow> n - i \<le> w div g"
      using assms by (simp add: less_eq_div_iff_mult_less_eq)
    finally show ?thesis by linarith
  qed
  then have "filter (\<lambda>i. n * g - w \<le> i * g) [0..<Suc n] = filter (\<lambda>i. n - w div g \<le> i) [0..<Suc n]"
    by (intro filter_cong) auto
  also have "\<dots> = [n - w div g..<Suc n]"
  proof -
    have "[0..<Suc n] = [0..<n - w div g] @ [n - w div g..<Suc n]"
      using upt_add_eq_append [of 0 "n - w div g" "Suc n - (n - w div g)"] by simp
    then show ?thesis by (simp add: filter_empty_conv del: upt_Suc)
  qed
  finally show ?thesis by (simp del: upt_Suc)
qed

text \<open>
  C22. The counter at a steady block rate, in closed form. For a peer that produces one header
  every \<open>g\<close> slots, starting with slot 0, the window really contains \<open>min n (w div g) + 1\<close> of its
  first \<open>n + 1\<close> headers, but the counter holds \<open>n + 1\<close> minus the number of slots by which the
  window has moved, never less than 1. The two agree while the window has not started to move and
  for \<open>g = 1\<close>; for any lower block rate the counter falls back to 1 and stays there.
\<close>
theorem density_steady_rate:
  assumes "with_window w = (Ok dw :: ('e, density_window) result)"
    and "n * g < 2 ^ 64" "n + 1 < 2 ^ 32" "0 < g"
  shows "unat (dw_headers_seen (observe_all dw (steady_slots g n))) =
      max 1 (n + 1 - (n * g - unat w)) \<and>
    length (filter (\<lambda>s. dw_window_start (observe_all dw (steady_slots g n)) \<le> s) (steady_slots g n))
      = min n (unat w div g) + 1"
proof -
  have "unat (dw_window_start (observe_all dw (steady_slots g n))) = n * g - unat w"
    using observe_all_shape(3) [OF assms(1) steady_slots_sorted [OF assms(2)]]
      steady_slots_unat [OF assms(2), of n]
    by (simp add: steady_slots_last)
  moreover have "filter (\<lambda>i. n * g - unat w \<le> unat (of_nat (i * g) :: u64)) [0..<Suc n] =
      filter (\<lambda>i. n * g - unat w \<le> i * g) [0..<Suc n]"
    by (intro filter_cong refl) (use steady_slots_unat [OF assms(2)] in auto)
  ultimately show ?thesis
    using steady_count [OF assms] steady_in_window [OF assms(4), of n "unat w"]
    by (simp add: word_le_nat_alt filter_map o_def steady_slots_def [of g n] del: upt_Suc of_nat_mult)
qed

text \<open>
  Mainnet figures: window 6480 and one block every 20 slots. After 1001 headers 325 of them are in
  the window, and the counter says 1.
\<close>
theorem density_steady_rate_witness:
  "\<exists>dw. density_window_new = (Ok dw :: (unit, density_window) result) \<and>
     unat (dw_headers_seen (observe_all dw (steady_slots 20 1000))) = 1 \<and>
     length (filter (\<lambda>s. dw_window_start (observe_all dw (steady_slots 20 1000)) \<le> s)
       (steady_slots 20 1000)) = 325"
proof -
  obtain dw where dw: "with_window 6480 = (Ok dw :: (unit, density_window) result)"
    by (simp add: with_window_def)
  from density_steady_rate [OF this, of 1000 20] dw show ?thesis
    by (auto simp: density_window_new_def)
qed

end
