(* ===== verification/BinaryGcd.thy ===== *)
theory BinaryGcd
  imports Prelude
begin

text \<open>
  The binary greatest common divisor of \<open>src/crates/ledger/src/fees.rs\<close> (\<open>gcd_u128\<close>), with
  which the fee formulas keep their fractions reduced. The loop is a partial function: its value
  is \<open>None\<close> when it does not return. It is proved to return, and to return the greatest common
  divisor.
\<close>

section \<open>Model\<close>

text \<open>\<open>ctz k n\<close> counts the low zero bits of \<open>n\<close>, at most \<open>k\<close> of them.\<close>

primrec ctz :: "nat \<Rightarrow> nat \<Rightarrow> nat" where
  "ctz 0 n = 0"
| "ctz (Suc k) n = (if odd n then 0 else Suc (ctz k (n div 2)))"

definition trailing_zeros :: "'w::len word \<Rightarrow> nat" where
  "trailing_zeros w = ctz LENGTH('w) (unat w)"

partial_function (option) gcd_loop :: "u128 \<Rightarrow> u128 \<Rightarrow> nat \<Rightarrow> u128 option" where
  "gcd_loop a b shift =
     (let b1 = drop_bit (trailing_zeros b) b;
          (a2, b2) = (if a > b1 then (b1, a) else (a, b1));
          b3 = b2 - a2
      in if b3 = 0 then Some (push_bit shift a2) else gcd_loop a2 b3 shift)"

definition gcd_u128 :: "u128 \<Rightarrow> u128 \<Rightarrow> u128 option" where
  "gcd_u128 a b =
     (if a = 0 then Some b
      else if b = 0 then Some a
      else let shift = trailing_zeros (or a b)
           in gcd_loop (drop_bit (trailing_zeros a) a) b shift)"


section \<open>Trailing zeros\<close>

lemma ctz_decomp:
  "0 < n \<Longrightarrow> n < 2 ^ k \<Longrightarrow> odd (n div 2 ^ ctz k n) \<and> n = 2 ^ ctz k n * (n div 2 ^ ctz k n)"
proof (induction k arbitrary: n)
  case (Suc k)
  show ?case
  proof (cases "odd n")
    case False
    then obtain m where m: "n = 2 * m" by (auto elim: evenE)
    with Suc.prems have "0 < m" "m < 2 ^ k" by auto
    from Suc.IH [OF this] m show ?thesis by (simp add: div_mult2_eq)
  qed simp
qed simp

text \<open>The unique decomposition of a positive word into a power of two and an odd factor.\<close>

lemma trailing_zeros_split:
  assumes "(w :: 'w::len word) \<noteq> 0"
  obtains m where "odd m" "unat w = 2 ^ trailing_zeros w * m"
    "unat (drop_bit (trailing_zeros w) w) = m"
proof -
  have "0 < unat w" "unat w < 2 ^ LENGTH('w)"
    using assms by (simp_all add: unat_gt_0)
  from ctz_decomp [OF this] that show thesis
    by (metis drop_bit_eq_div trailing_zeros_def unat_drop_bit_eq)
qed

lemma two_power_odd_unique:
  "(2::nat) ^ i * m = 2 ^ j * n \<Longrightarrow> odd m \<Longrightarrow> odd n \<Longrightarrow> i = j \<and> m = n"
proof (induction i arbitrary: j)
  case 0
  then show ?case by (cases j) auto
next
  case (Suc i)
  then show ?case by (cases j) auto
qed

lemma trailing_zeros_unique:
  assumes "unat (w :: 'w::len word) = 2 ^ i * m" "odd m"
  shows "trailing_zeros w = i"
proof -
  have "w \<noteq> 0" using assms by (auto simp: unat_eq_0 [symmetric] dest: odd_pos)
  then obtain m' where "odd m'" "unat w = 2 ^ trailing_zeros w * m'"
    by (rule trailing_zeros_split)
  with assms show ?thesis using two_power_odd_unique by metis
qed

lemma or_two_powers:
  fixes m n :: nat
  assumes "odd m" "odd n"
  shows "\<exists>r. odd r \<and> or (2 ^ i * m) (2 ^ j * n) = 2 ^ min i j * r"
proof -
  let ?k = "min i j"
  let ?r = "or (2 ^ (i - ?k) * m) (2 ^ (j - ?k) * n)"
  have sh: "2 ^ l * x = push_bit l x" for l and x :: nat by (simp add: push_bit_eq_mult)
  have "or (2 ^ i * m) (2 ^ j * n) = 2 ^ ?k * ?r"
    unfolding sh push_bit_or push_bit_push_bit by simp
  moreover have "odd ?r" using assms by (auto simp: even_or_iff min_def)
  ultimately show ?thesis by blast
qed

lemma trailing_zeros_or:
  assumes "(a :: 'w::len word) \<noteq> 0" "b \<noteq> 0"
  shows "trailing_zeros (or a b) = min (trailing_zeros a) (trailing_zeros b)"
proof -
  obtain m where m: "odd m" "unat a = 2 ^ trailing_zeros a * m"
    using assms(1) by (rule trailing_zeros_split)
  obtain n where n: "odd n" "unat b = 2 ^ trailing_zeros b * n"
    using assms(2) by (rule trailing_zeros_split)
  have "unat (or a b) = or (unat a) (unat b)" by (rule unsigned_or_eq)
  with or_two_powers [OF m(1) n(1), of "trailing_zeros a" "trailing_zeros b"] m(2) n(2)
  show ?thesis by (metis trailing_zeros_unique)
qed


section \<open>The loop computes the greatest common divisor\<close>

lemma gcd_odd_drop_two_powers: "odd (a :: nat) \<Longrightarrow> gcd a (2 ^ t * m) = gcd a m"
  by (rule gcd_mult_right_left_cancel) simp

lemma gcd_loop_correct:
  assumes "odd (unat a)" "b \<noteq> 0"
  shows "gcd_loop a b s = Some (push_bit s (of_nat (gcd (unat a) (unat b))))"
  using assms
proof (induction "unat a + unat b" arbitrary: a b rule: less_induct)
  case less
  define b1 where "b1 = drop_bit (trailing_zeros b) b"
  obtain m where m: "odd m" "unat b = 2 ^ trailing_zeros b * m" "unat b1 = m"
    unfolding b1_def using less.prems(2) by (rule trailing_zeros_split)
  have g: "gcd (unat a) (unat b) = gcd (unat a) (unat b1)"
    using gcd_odd_drop_two_powers [OF less.prems(1)] m by metis
  have le: "unat b1 \<le> unat b" using m by simp
  define lo hi where "lo = min a b1" and "hi = max a b1"
  have unf: "gcd_loop a b s =
      (if hi - lo = 0 then Some (push_bit s lo) else gcd_loop lo (hi - lo) s)"
    by (subst gcd_loop.simps) (auto simp: Let_def lo_def hi_def min_def max_def simp flip: b1_def)
  have lohi: "lo \<le> hi" by (auto simp: lo_def hi_def min_def max_def)
  have sub: "unat (hi - lo) = unat hi - unat lo" using lohi by (rule unat_sub_le)
  have g2: "gcd (unat a) (unat b1) = gcd (unat lo) (unat (hi - lo))"
  proof -
    have "gcd (unat a) (unat b1) = gcd (unat lo) (unat hi)"
      by (auto simp: lo_def hi_def min_def max_def gcd.commute)
    also have "\<dots> = gcd (unat lo) (unat hi - unat lo)"
      using gcd_diff1_nat [of "unat lo" "unat hi"] lohi
      by (simp add: word_le_nat_alt gcd.commute [of "unat lo"])
    finally show ?thesis by (simp add: sub)
  qed
  have odd_lo: "odd (unat lo)" using less.prems(1) m by (simp add: lo_def min_def)
  show ?case
  proof (cases "hi - lo = 0")
    case True
    then have "Some (push_bit s lo) = gcd_loop a b s" "gcd (unat a) (unat b) = unat lo"
      using unf g g2 by simp_all
    then show ?thesis by simp
  next
    case False
    have "0 < unat lo" using odd_lo by (rule odd_pos)
    moreover have "unat lo + unat hi = unat a + unat b1"
      by (auto simp: lo_def hi_def min_def max_def)
    ultimately have "unat lo + unat (hi - lo) < unat a + unat b"
      using le sub lohi by (simp add: word_le_nat_alt)
    from less.hyps [OF this odd_lo False]
    show ?thesis by (simp only: unf False g g2 if_False)
  qed
qed

lemma gcd_two_powers_le:
  assumes "odd m" "i \<le> j"
  shows "gcd (2 ^ i * m) (2 ^ j * n) = (2::nat) ^ i * gcd m n"
proof -
  have j: "2 ^ j * n = 2 ^ i * (2 ^ (j - i) * n)"
    using assms(2) by (simp flip: mult.assoc power_add)
  show ?thesis
    unfolding j gcd_mult_distrib_nat [symmetric] gcd_odd_drop_two_powers [OF assms(1)] ..
qed

lemma gcd_two_powers:
  assumes "odd m" "odd n"
  shows "gcd (2 ^ i * m) (2 ^ j * n) = (2::nat) ^ min i j * gcd m n"
proof (cases "i \<le> j")
  case True
  with gcd_two_powers_le [OF assms(1) True] show ?thesis by (simp add: min_def)
next
  case False
  with gcd_two_powers_le [OF assms(2), of j i m] show ?thesis
    by (simp add: min_def gcd.commute [of "2 ^ i * m"] gcd.commute [of m])
qed

lemma gcd_u128_eq: "gcd_u128 a b = Some (of_nat (gcd (unat a) (unat b)))"
proof (cases "a = 0 \<or> b = 0")
  case True
  then show ?thesis by (auto simp: gcd_u128_def)
next
  case False
  obtain m where m: "odd m" "unat a = 2 ^ trailing_zeros a * m"
      "unat (drop_bit (trailing_zeros a) a) = m"
    using False trailing_zeros_split by blast
  obtain n where n: "odd n" "unat b = 2 ^ trailing_zeros b * n"
    using False trailing_zeros_split by blast
  let ?k = "min (trailing_zeros a) (trailing_zeros b)"
  have "gcd_u128 a b = Some (push_bit ?k (of_nat (gcd m (unat b))))"
    using False m gcd_loop_correct [of "drop_bit (trailing_zeros a) a" b ?k]
    by (simp add: gcd_u128_def Let_def trailing_zeros_or)
  also have "gcd m (unat b) = gcd m n"
    by (simp only: n(2) gcd_odd_drop_two_powers [OF m(1)])
  also have "push_bit ?k (of_nat (gcd m n)) = (of_nat (2 ^ ?k * gcd m n) :: u128)"
    by (simp add: push_bit_eq_mult)
  also have "2 ^ ?k * gcd m n = gcd (unat a) (unat b)"
    unfolding m(2) n(2) using gcd_two_powers [OF m(1) n(1)] by metis
  finally show ?thesis .
qed

text \<open>
  C14. The binary GCD of the fee code always returns, on every pair of 128-bit words including
  zeros, and its result is the greatest common divisor.
\<close>
theorem gcd_u128_correct: "\<exists>g. gcd_u128 a b = Some g \<and> unat g = gcd (unat a) (unat b)"
proof -
  have "gcd (unat a) (unat b) < 2 ^ 128"
  proof (cases "a = 0")
    case True
    then show ?thesis using unat_lt_2p [of b] by simp
  next
    case False
    then have "gcd (unat a) (unat b) \<le> unat a" by (simp add: unat_gt_0 gcd_le1_nat unat_eq_zero)
    then show ?thesis using unat_lt_2p [of a] by simp
  qed
  then show ?thesis by (simp add: gcd_u128_eq unsigned_of_nat take_bit_nat_eq_self)
qed

end
