(* ===== verification/Fees.thy ===== *)
theory Fees
  imports BinaryGcd Types Complex_Main
begin

text \<open>
  Minimum fees, \<open>src/crates/ledger/src/fees.rs\<close>: the linear fee, the script-execution fee and the
  tiered fee for reference scripts, computed on 128-bit fractions that are kept reduced. An
  operation that does not return (a division by zero panics) has the value \<open>None\<close>.
\<close>

section \<open>Model\<close>

record ex_units =
  eu_mem :: u64
  eu_steps :: u64

text \<open>The protocol parameters the fee rules read.\<close>

record protocol_parameters =
  pp_min_fee_a :: u64
  pp_min_fee_b :: u64
  pp_max_tx_size :: u32
  pp_price_mem :: "unit_interval option"
  pp_price_step :: "unit_interval option"
  pp_max_tx_ex_units :: "ex_units option"
  pp_min_fee_ref_script_cost_per_byte :: "unit_interval option"

definition min_fee_linear :: "protocol_parameters \<Rightarrow> u64 \<Rightarrow> u64" where
  "min_fee_linear params tx_size_bytes =
     saturating_add (saturating_mul (pp_min_fee_a params) tx_size_bytes) (pp_min_fee_b params)"

text \<open>The two divisions by the greatest common divisor after every addition of fractions.\<close>

definition reduce_frac :: "u128 \<Rightarrow> u128 \<Rightarrow> (u128 \<times> u128) option" where
  "reduce_frac n d =
     Option.bind (gcd_u128 n d) (\<lambda>g. if g = 0 then None else Some (n div g, d div g))"

text \<open>One round of the loop of \<open>script_fee\<close>.\<close>

definition add_price_term ::
    "u128 \<times> u128 \<Rightarrow> u64 \<Rightarrow> unit_interval option \<Rightarrow> (u128 \<times> u128) option" where
  "add_price_term acc v price =
     (case price of
        None \<Rightarrow> Some acc
      | Some ratio \<Rightarrow>
          if ui_denominator ratio = 0 \<or> ui_numerator ratio = 0 \<or> v = 0 then Some acc
          else let term_num = ucast v * ucast (ui_numerator ratio);
                   term_den = ucast (ui_denominator ratio);
                   acc_num = fst acc * term_den + term_num * snd acc;
                   acc_den = snd acc * term_den
               in reduce_frac acc_num acc_den)"

definition div_ceil :: "u128 \<Rightarrow> u128 \<Rightarrow> u128 option" where
  "div_ceil n d =
     (if d = 0 then None else Some (if n mod d > 0 then n div d + 1 else n div d))"

definition script_fee :: "protocol_parameters \<Rightarrow> ex_units \<Rightarrow> u64 option" where
  "script_fee params total_ex_units =
     Option.bind (add_price_term (0, 1) (eu_mem total_ex_units) (pp_price_mem params)) (\<lambda>acc.
     Option.bind (add_price_term acc (eu_steps total_ex_units) (pp_price_step params)) (\<lambda>acc'.
     map_option ucast (div_ceil (fst acc') (snd acc'))))"

definition total_min_fee ::
    "protocol_parameters \<Rightarrow> u64 \<Rightarrow> ex_units option \<Rightarrow> u64 option" where
  "total_min_fee params tx_size_bytes total_ex_units =
     (let base = min_fee_linear params tx_size_bytes
      in case total_ex_units of
           Some units \<Rightarrow> map_option (saturating_add base) (script_fee params units)
         | None \<Rightarrow> Some base)"

text \<open>The tiers of the reference-script fee: the price per byte grows by 6/5 every 25600 bytes.\<close>

abbreviation ref_script_stride :: u128 where
  "ref_script_stride \<equiv> 25600"

function tier_loop ::
    "u128 \<Rightarrow> u128 \<times> u128 \<Rightarrow> u128 \<times> u128 \<Rightarrow> (u128 \<times> (u128 \<times> u128) \<times> (u128 \<times> u128)) option" where
  "tier_loop remaining tp acc =
     (if remaining \<ge> ref_script_stride
      then Option.bind
             (reduce_frac (fst acc * snd tp + (ref_script_stride * fst tp) * snd acc)
                (snd acc * snd tp)) (\<lambda>acc'.
           Option.bind (reduce_frac (fst tp * 6) (snd tp * 5)) (\<lambda>tp'.
           tier_loop (remaining - ref_script_stride) tp' acc'))
      else Some (remaining, tp, acc))"
  by pat_completeness auto

termination
  by (relation "measure (\<lambda>(remaining, _). unat remaining)")
    (auto simp: unat_sub_le word_le_nat_alt)

declare tier_loop.simps [simp del]

definition tier_ref_script_fee :: "unit_interval \<Rightarrow> u64 \<Rightarrow> u64 option" where
  "tier_ref_script_fee base_fee total_ref_script_size =
     (if total_ref_script_size = 0 \<or> ui_numerator base_fee = 0 then Some 0
      else if (ucast (ui_denominator base_fee) :: u128) = 0 then Some 0
      else Option.bind
             (tier_loop (ucast total_ref_script_size)
                (ucast (ui_numerator base_fee), ucast (ui_denominator base_fee)) (0, 1))
             (\<lambda>(remaining, tp, acc).
                Option.bind
                  (if remaining > 0
                   then reduce_frac (fst acc * snd tp + (remaining * fst tp) * snd acc)
                          (snd acc * snd tp)
                   else Some acc)
                  (\<lambda>acc'. if snd acc' = 0 then None else Some (ucast (fst acc' div snd acc')))))"

definition conway_total_min_fee ::
    "protocol_parameters \<Rightarrow> u64 \<Rightarrow> ex_units option \<Rightarrow> u64 \<Rightarrow> u64 option" where
  "conway_total_min_fee params tx_size_bytes total_ex_units ref_scripts_size =
     Option.bind (total_min_fee params tx_size_bytes total_ex_units) (\<lambda>base.
     Option.bind (case pp_min_fee_ref_script_cost_per_byte params of
                    Some cost \<Rightarrow> tier_ref_script_fee cost ref_scripts_size
                  | None \<Rightarrow> Some 0) (\<lambda>ref_fee.
     Some (saturating_add base ref_fee)))"

text \<open>The validations, in \<open>result\<close>: not returning is \<open>Panic\<close>.\<close>

definition require_fee :: "u64 option \<Rightarrow> u64 \<Rightarrow> (ledger_error, unit) result" where
  "require_fee minimum declared =
     (case minimum of
        None \<Rightarrow> Panic
      | Some m \<Rightarrow> if declared < m then Err (FeeTooSmall m declared) else Ok ())"

definition validate_fee ::
    "protocol_parameters \<Rightarrow> u64 \<Rightarrow> ex_units option \<Rightarrow> u64 \<Rightarrow> (ledger_error, unit) result" where
  "validate_fee params tx_size_bytes total_ex_units declared_fee =
     require_fee (total_min_fee params tx_size_bytes total_ex_units) declared_fee"

definition validate_conway_fee ::
    "protocol_parameters \<Rightarrow> u64 \<Rightarrow> ex_units option \<Rightarrow> u64 \<Rightarrow> u64 \<Rightarrow> (ledger_error, unit) result" where
  "validate_conway_fee params tx_size_bytes total_ex_units ref_scripts_size declared_fee =
     require_fee (conway_total_min_fee params tx_size_bytes total_ex_units ref_scripts_size)
       declared_fee"

definition validate_tx_ex_units ::
    "protocol_parameters \<Rightarrow> ex_units \<Rightarrow> (ledger_error, unit) result" where
  "validate_tx_ex_units params total_ex_units =
     (case pp_max_tx_ex_units params of
        None \<Rightarrow> Ok ()
      | Some mx \<Rightarrow>
          if eu_mem total_ex_units > eu_mem mx \<or> eu_steps total_ex_units > eu_steps mx
          then Err (ExUnitsExceedTxLimit (eu_mem total_ex_units) (eu_steps total_ex_units)
                 (eu_mem mx) (eu_steps mx))
          else Ok ())"

fun validate_per_redeemer_ex_units ::
    "protocol_parameters \<Rightarrow> ex_units list \<Rightarrow> (ledger_error, unit) result" where
  "validate_per_redeemer_ex_units params [] = Ok ()"
| "validate_per_redeemer_ex_units params (r # rs) =
     (case pp_max_tx_ex_units params of
        None \<Rightarrow> Ok ()
      | Some mx \<Rightarrow>
          if eu_mem r > eu_mem mx \<or> eu_steps r > eu_steps mx
          then Err (ExUnitsExceedTxLimit (eu_mem r) (eu_steps r) (eu_mem mx) (eu_steps mx))
          else validate_per_redeemer_ex_units params rs)"

definition validate_tx_size :: "protocol_parameters \<Rightarrow> u64 \<Rightarrow> (ledger_error, unit) result" where
  "validate_tx_size params tx_size_bytes =
     (if tx_size_bytes > ucast (pp_max_tx_size params)
      then Err (TxTooLarge tx_size_bytes (ucast (pp_max_tx_size params)))
      else Ok ())"


section \<open>Reduced fractions\<close>

text \<open>The rational number a pair of words stands for.\<close>

definition nfrac :: "nat \<Rightarrow> nat \<Rightarrow> rat" where
  "nfrac n d = of_nat n / of_nat d"

definition wfrac :: "u128 \<times> u128 \<Rightarrow> rat" where
  "wfrac p = nfrac (unat (fst p)) (unat (snd p))"

definition reduced :: "u128 \<times> u128 \<Rightarrow> bool" where
  "reduced p \<longleftrightarrow> snd p \<noteq> 0 \<and> coprime (unat (fst p)) (unat (snd p))"

lemma nfrac_cancel: "0 < c \<Longrightarrow> nfrac (c * n) (c * d) = nfrac n d"
  by (simp add: nfrac_def)

lemma nfrac_eq_iff: "0 < d \<Longrightarrow> 0 < y \<Longrightarrow> nfrac n d = nfrac x y \<longleftrightarrow> n * y = x * d"
proof -
  assume "0 < d" "0 < y"
  then have "nfrac n d = nfrac x y \<longleftrightarrow> (of_nat (n * y) :: rat) = of_nat (x * d)"
    by (simp add: nfrac_def frac_eq_eq)
  then show ?thesis by (simp only: of_nat_eq_iff)
qed

lemma nfrac_add: "0 < d \<Longrightarrow> 0 < e \<Longrightarrow> nfrac (n * e + m * d) (d * e) = nfrac n d + nfrac m e"
  by (simp add: nfrac_def add_frac_eq)

lemma nfrac_mult: "nfrac n d * nfrac m e = nfrac (n * m) (d * e)"
  by (simp add: nfrac_def)

lemma reduce_frac_correct:
  assumes "d \<noteq> 0"
  obtains p where "reduce_frac n d = Some p" "reduced p" "wfrac p = wfrac (n, d)"
proof -
  let ?g = "gcd (unat n) (unat d)"
  have d: "0 < unat d" using assms by (simp add: unat_gt_0)
  then have g: "0 < ?g" "?g \<le> unat d" by (simp_all add: gcd_le2_nat)
  then have ug: "unat (of_nat ?g :: u128) = ?g"
    using unat_lt_2p [of d] by (simp add: unsigned_of_nat take_bit_nat_eq_self)
  define n' d' where "n' = unat n div ?g" and "d' = unat d div ?g"
  have nd: "unat n = ?g * n'" "unat d = ?g * d'" by (simp_all add: n'_def d'_def)
  let ?p = "(n div of_nat ?g, d div of_nat ?g)"
  have up: "unat (n div of_nat ?g) = n'" "unat (d div of_nat ?g) = d'"
    by (simp_all add: unat_div ug n'_def d'_def)
  have "(of_nat ?g :: u128) \<noteq> 0" using ug g(1) by force
  then have "reduce_frac n d = Some ?p" by (simp add: reduce_frac_def gcd_u128_eq)
  moreover have "reduced ?p"
  proof -
    have "0 < d'" using nd(2) d by (cases d') auto
    then have "d div of_nat ?g \<noteq> 0" using up(2) by force
    moreover have "coprime n' d'"
      unfolding n'_def d'_def by (rule div_gcd_coprime) (use d in simp)
    ultimately show ?thesis by (simp add: reduced_def up)
  qed
  moreover have "wfrac ?p = wfrac (n, d)"
  proof -
    have "wfrac (n, d) = nfrac (?g * n') (?g * d')"
      by (simp only: wfrac_def fst_conv snd_conv flip: nd)
    also have "\<dots> = nfrac n' d'" using g(1) by (rule nfrac_cancel)
    finally show ?thesis by (simp add: wfrac_def up)
  qed
  ultimately show thesis by (rule that)
qed


text \<open>A reduced fraction is the smallest representation of its value.\<close>

lemma reduced_le:
  assumes "reduced p" "wfrac p = nfrac x y" "0 < y"
  shows "unat (fst p) \<le> x" "unat (snd p) \<le> y"
proof -
  let ?n = "unat (fst p)" and ?d = "unat (snd p)"
  have d: "0 < ?d" "coprime ?n ?d" using assms(1) by (simp_all add: reduced_def unat_gt_0)
  have eq: "?n * y = x * ?d"
    using assms(2) nfrac_eq_iff [OF d(1) assms(3)] by (simp add: wfrac_def)
  have "?n dvd x * ?d" using eq by (metis dvd_triv_left)
  then have "?n dvd x" using d(2) by (simp add: coprime_dvd_mult_left_iff)
  have "?d dvd ?n * y" using eq by simp
  then have "?d dvd y"
    using d(2) by (simp add: coprime_dvd_mult_right_iff coprime_commute)
  then show "?d \<le> y" using assms(3) by (rule dvd_imp_le)
  show "?n \<le> x"
  proof (cases "x = 0")
    case True
    then show ?thesis using eq assms(3) by simp
  next
    case False
    then show ?thesis using \<open>?n dvd x\<close> by (intro dvd_imp_le) simp_all
  qed
qed

text \<open>Adding two fractions without overflow, as both loops do, and reducing the sum.\<close>

lemma add_frac_correct:
  assumes "snd p \<noteq> 0" "snd q \<noteq> 0"
    and "unat (fst p) * unat (snd q) + unat (fst q) * unat (snd p) < 2 ^ 128"
    and "unat (snd p) * unat (snd q) < 2 ^ 128"
  obtains r where
    "reduce_frac (fst p * snd q + fst q * snd p) (snd p * snd q) = Some r"
    "reduced r" "wfrac r = wfrac p + wfrac q"
proof -
  have pos: "0 < unat (snd p)" "0 < unat (snd q)" using assms(1,2) by (simp_all add: unat_gt_0)
  have den: "unat (snd p * snd q) = unat (snd p) * unat (snd q)"
    using assms(4) by (intro unat_mult_no_overflow) simp
  have m1: "unat (fst p * snd q) = unat (fst p) * unat (snd q)"
    using assms(3) by (intro unat_mult_no_overflow) simp
  have m2: "unat (fst q * snd p) = unat (fst q) * unat (snd p)"
    using assms(3) by (intro unat_mult_no_overflow) simp
  have num: "unat (fst p * snd q + fst q * snd p) =
      unat (fst p) * unat (snd q) + unat (fst q) * unat (snd p)"
    using assms(3) m1 m2 by (subst unat_add_no_overflow) simp_all
  have "snd p * snd q \<noteq> 0" using den pos by (metis nat_0_less_mult_iff less_irrefl unat_0)
  then obtain r where "reduce_frac (fst p * snd q + fst q * snd p) (snd p * snd q) = Some r"
      "reduced r" "wfrac r = wfrac (fst p * snd q + fst q * snd p, snd p * snd q)"
    by (rule reduce_frac_correct)
  moreover have "wfrac (fst p * snd q + fst q * snd p, snd p * snd q) = wfrac p + wfrac q"
    using nfrac_add [OF pos] by (simp add: wfrac_def num den)
  ultimately show thesis using that by simp
qed


section \<open>The script-execution fee\<close>

text \<open>The price per unit: an absent price, or one with a zero denominator, counts as zero.\<close>

definition price_frac :: "unit_interval option \<Rightarrow> nat \<times> nat" where
  "price_frac price =
     (case price of
        None \<Rightarrow> (0, 1)
      | Some r \<Rightarrow>
          if ui_denominator r = 0 then (0, 1)
          else (unat (ui_numerator r), unat (ui_denominator r)))"

lemma price_frac_pos: "0 < snd (price_frac pr)"
  by (auto simp: price_frac_def unat_gt_0 split: option.splits)

lemma price_frac_lt: "fst (price_frac pr) < 2 ^ 64" "snd (price_frac pr) < 2 ^ 64"
  using unat_lt_2p [where ?'w = 64] by (auto simp: price_frac_def split: option.splits)

lemma unat_u64_lt_2p: "unat (x :: u64) < 2 ^ 64"
  by (rule le_unat_lt [of _ x]) simp

lemma mult_lt_2p128: "a < 2 ^ 64 \<Longrightarrow> b < 2 ^ 64 \<Longrightarrow> a * b < (2 :: nat) ^ 128"
  using mult_strict_mono [of a "2 ^ 64" b "2 ^ 64"] by simp

lemma unat_ucast_64_128: "unat (ucast (x :: u64) :: u128) = unat x"
proof -
  have "unat x < 2 ^ 128" by (rule order.strict_trans [OF unat_lt_2p]) simp
  then show ?thesis by (intro unat_ucast_fits) simp
qed

lemma add_price_term_correct:
  assumes "snd acc \<noteq> 0" "price_frac pr = (pn, pd)"
    and "unat (fst acc) * pd + unat v * pn * unat (snd acc) < 2 ^ 128"
    and "unat (snd acc) * pd < 2 ^ 128"
  obtains r where "add_price_term acc v pr = Some r" "snd r \<noteq> 0"
    "wfrac r = wfrac acc + nfrac (unat v * pn) pd"
    "unat (fst r) \<le> unat (fst acc) * pd + unat v * pn * unat (snd acc)"
    "unat (snd r) \<le> unat (snd acc) * pd"
proof (cases "unat v * pn = 0")
  case True
  then have skip: "add_price_term acc v pr = Some acc"
    using assms(2)
    by (auto simp: add_price_term_def price_frac_def unat_eq_0 split: option.splits if_splits)
  have pd: "0 < pd" using price_frac_pos [of pr] assms(2) by simp
  show thesis
    by (rule that [OF skip assms(1)]) (unfold True, use pd in \<open>simp_all add: nfrac_def\<close>)
next
  case False
  then obtain ratio where pr: "pr = Some ratio" "ui_denominator ratio \<noteq> 0"
      "ui_numerator ratio \<noteq> 0" "v \<noteq> 0"
    using assms(2)
    by (auto simp: price_frac_def unat_gt_0 split: option.splits if_splits)
  have pnd: "pn = unat (ui_numerator ratio)" "pd = unat (ui_denominator ratio)"
    using assms(2) pr by (simp_all add: price_frac_def)
  let ?q = "(ucast v * ucast (ui_numerator ratio), ucast (ui_denominator ratio)) :: u128 \<times> u128"
  have q: "unat (fst ?q) = unat v * pn" "unat (snd ?q) = pd"
    using unat_mult_no_overflow [of "ucast v :: u128" "ucast (ui_numerator ratio)"]
      mult_lt_2p128 [OF unat_u64_lt_2p unat_u64_lt_2p, of v "ui_numerator ratio"]
    by (simp_all add: unat_ucast_64_128 pnd)
  have "0 < pd" using price_frac_pos [of pr] assms(2) by simp
  then have q0: "snd ?q \<noteq> 0" using q(2) by force
  have c: "unat (fst acc) * unat (snd ?q) + unat (fst ?q) * unat (snd acc) < 2 ^ 128"
      "unat (snd acc) * unat (snd ?q) < 2 ^ 128"
    unfolding q by (rule assms(3), rule assms(4))
  obtain r where r:
    "reduce_frac (fst acc * snd ?q + fst ?q * snd acc) (snd acc * snd ?q) = Some r"
    "reduced r" "wfrac r = wfrac acc + wfrac ?q"
    by (rule add_frac_correct [OF assms(1) q0 c])
  have acc: "0 < unat (snd acc)" using assms(1) by (simp add: unat_gt_0)
  have fq: "wfrac ?q = nfrac (unat v * pn) pd" unfolding wfrac_def q ..
  have fr: "wfrac r = nfrac (unat (fst acc) * pd + unat v * pn * unat (snd acc)) (unat (snd acc) * pd)"
    using nfrac_add [OF acc \<open>0 < pd\<close>] r(3) fq by (simp add: wfrac_def)
  show thesis
  proof (rule that)
    show "add_price_term acc v pr = Some r"
      using pr r(1) by (simp add: add_price_term_def Let_def)
    show "snd r \<noteq> 0" using r(2) by (simp add: reduced_def)
    show "wfrac r = wfrac acc + nfrac (unat v * pn) pd" using r(3) fq by simp
  qed (use reduced_le [OF r(2) fr] acc \<open>0 < pd\<close> in simp_all)
qed

lemma ceiling_nfrac:
  assumes "0 < d"
  shows "\<lceil>nfrac n d\<rceil> = int (n div d + (if n mod d > 0 then 1 else 0))"
proof (rule ceiling_unique)
  let ?q = "n div d" and ?r = "n mod d"
  have n: "nfrac n d = of_nat ?q + of_nat ?r / of_nat d"
    using assms by (simp add: nfrac_def add_divide_eq_iff div_mult_mod_eq flip: of_nat_mult of_nat_add)
  have r: "of_nat ?r / of_nat d < (1 :: rat)" "0 \<le> of_nat ?r / (of_nat d :: rat)"
    using assms by simp_all
  have r0: "0 < ?r \<Longrightarrow> 0 < of_nat ?r / (of_nat d :: rat)" using assms by simp
  show "of_int (int (?q + (if ?r > 0 then 1 else 0))) - 1 < nfrac n d" unfolding n using r r0 by simp
  show "nfrac n d \<le> of_int (int (?q + (if ?r > 0 then 1 else 0)))" unfolding n using r r0 by simp
qed

lemma div_ceil_correct:
  assumes "d \<noteq> 0"
  shows "\<exists>c. div_ceil n d = Some c \<and> unat c = nat \<lceil>wfrac (n, d)\<rceil>"
proof -
  have d: "0 < unat d" using assms by (simp add: unat_gt_0)
  have "unat (n div d + 1) = unat n div unat d + 1" if "0 < unat n mod unat d"
  proof -
    have "unat n div unat d * unat d + unat n mod unat d = unat n" by simp
    moreover have "unat n div unat d \<le> unat n div unat d * unat d" using d by simp
    ultimately have "unat n div unat d + 1 \<le> unat n" using that by linarith
    then have "unat n div unat d + 1 < 2 ^ 128" using unat_lt_2p [of n] by simp
    then show ?thesis by (subst unat_add_no_overflow) (simp_all add: unat_div)
  qed
  then show ?thesis
    using assms
    by (auto simp: div_ceil_def wfrac_def ceiling_nfrac [OF d] unat_div word_less_nat_alt unat_mod
        simp del: of_nat_add of_nat_unat)
qed


text \<open>
  The exact cost of the execution units, and the intermediate product the computation needs to
  fit into 128 bits.
\<close>

definition ex_units_cost :: "protocol_parameters \<Rightarrow> ex_units \<Rightarrow> rat" where
  "ex_units_cost params eu =
     of_nat (unat (eu_mem eu)) * case_prod nfrac (price_frac (pp_price_mem params)) +
     of_nat (unat (eu_steps eu)) * case_prod nfrac (price_frac (pp_price_step params))"

definition script_fee_width :: "protocol_parameters \<Rightarrow> ex_units \<Rightarrow> nat" where
  "script_fee_width params eu =
     (let (pn, pd) = price_frac (pp_price_mem params);
          (sn, sd) = price_frac (pp_price_step params)
      in unat (eu_mem eu) * pn * sd + unat (eu_steps eu) * sn * pd)"

lemma wfrac_zero: "wfrac (0, 1) = 0"
  by (simp add: wfrac_def nfrac_def)

lemma script_fee_exact:
  assumes "script_fee_width params eu < 2 ^ 128"
  shows "\<exists>c. script_fee params eu = Some (ucast (c :: u128)) \<and>
    unat c = nat \<lceil>ex_units_cost params eu\<rceil>"
proof -
  obtain pn pd where p: "price_frac (pp_price_mem params) = (pn, pd)" by (rule prod.exhaust)
  obtain sn sd where s: "price_frac (pp_price_step params) = (sn, sd)" by (rule prod.exhaust)
  let ?m = "unat (eu_mem eu)" and ?t = "unat (eu_steps eu)"
  have pos: "0 < pd" "0 < sd" and lt: "pn < 2 ^ 64" "pd < 2 ^ 64" "sd < 2 ^ 64"
    using price_frac_pos [of "pp_price_mem params"] price_frac_pos [of "pp_price_step params"]
      price_frac_lt [of "pp_price_mem params"] price_frac_lt [of "pp_price_step params"] p s
    by simp_all
  have w: "?m * pn * sd + ?t * sn * pd < 2 ^ 128"
    using assms by (simp add: script_fee_width_def p s)
  have "?m * pn < 2 ^ 128" using unat_lt_2p [of "eu_mem eu"] lt(1) by (intro mult_lt_2p128) simp_all
  then obtain r1 where r1: "add_price_term (0, 1) (eu_mem eu) (pp_price_mem params) = Some r1"
      "snd r1 \<noteq> 0" "wfrac r1 = wfrac (0, 1) + nfrac (?m * pn) pd"
      "unat (fst r1) \<le> ?m * pn" "unat (snd r1) \<le> pd"
    using add_price_term_correct [OF _ p, of "(0, 1)" "eu_mem eu"] lt(2) by auto
  have b1: "unat (fst r1) * sd + ?t * sn * unat (snd r1) < 2 ^ 128"
    by (rule le_less_trans [OF add_mono w]) (use r1(4,5) in \<open>auto intro: mult_le_mono\<close>)
  have b2: "unat (snd r1) * sd < 2 ^ 128"
    by (rule mult_lt_2p128) (use r1(5) lt in simp_all)
  obtain r2 where r2: "add_price_term r1 (eu_steps eu) (pp_price_step params) = Some r2"
      "snd r2 \<noteq> 0" "wfrac r2 = wfrac r1 + nfrac (?t * sn) sd"
    using add_price_term_correct [OF r1(2) s b1 b2] by blast
  have cost: "wfrac r2 = ex_units_cost params eu"
    by (simp add: r1(3) r2(3) wfrac_zero ex_units_cost_def p s nfrac_def)
  obtain c where "div_ceil (fst r2) (snd r2) = Some c" "unat c = nat \<lceil>wfrac r2\<rceil>"
    using div_ceil_correct [OF r2(2), of "fst r2"] by auto
  then show ?thesis
    using r1(1) r2(1) cost by (intro exI [of _ c]) (simp add: script_fee_def)
qed

text \<open>
  C13. The script fee is exact. Whenever the numerator of the sum of the two price terms fits into
  128 bits and the exact cost into 64, the fee computed with reduced fractions and the binary GCD
  is the ceiling of memory times memory price plus steps times step price: one rounding, after the
  summation, and no panic.
\<close>
theorem script_fee_correct:
  assumes "script_fee_width params eu < 2 ^ 128" "ex_units_cost params eu \<le> 2 ^ 64 - 1"
  shows "\<exists>fee. script_fee params eu = Some fee \<and> unat fee = nat \<lceil>ex_units_cost params eu\<rceil>"
proof -
  obtain c where c: "script_fee params eu = Some (ucast (c :: u128))"
      "unat c = nat \<lceil>ex_units_cost params eu\<rceil>"
    using script_fee_exact [OF assms(1)] by blast
  have "\<lceil>ex_units_cost params eu\<rceil> \<le> 2 ^ 64 - 1" using assms(2) by (simp add: ceiling_le_iff)
  from nat_mono [OF this] have "unat c < 2 ^ 64" unfolding c(2) by simp
  then have "unat (ucast c :: u64) = unat c" by (intro unat_ucast_fits) simp
  with c show ?thesis by simp
qed

text \<open>Alonzo prices: 577/10000 per memory unit and 721/10000000 per step.\<close>

definition demo_params :: protocol_parameters where
  "demo_params = \<lparr>pp_min_fee_a = 44, pp_min_fee_b = 155381, pp_max_tx_size = 16384,
     pp_price_mem = Some \<lparr>ui_numerator = 577, ui_denominator = 10000\<rparr>,
     pp_price_step = Some \<lparr>ui_numerator = 721, ui_denominator = 10000000\<rparr>,
     pp_max_tx_ex_units = Some \<lparr>eu_mem = 14000000, eu_steps = 10000000000\<rparr>,
     pp_min_fee_ref_script_cost_per_byte = Some \<lparr>ui_numerator = 15, ui_denominator = 1\<rparr>\<rparr>"

theorem script_fee_correct_witness:
  "\<exists>fee. script_fee demo_params \<lparr>eu_mem = 1000001, eu_steps = 1000000000\<rparr> = Some fee \<and>
     unat fee = 129801"
proof -
  let ?eu = "\<lparr>eu_mem = 1000001, eu_steps = 1000000000\<rparr>"
  have w: "script_fee_width demo_params ?eu < 2 ^ 128"
    by (simp add: script_fee_width_def demo_params_def price_frac_def)
  have cost: "ex_units_cost demo_params ?eu = 1298000577 / 10000"
    by (simp add: ex_units_cost_def demo_params_def price_frac_def nfrac_def)
  have "\<lceil>1298000577 / 10000 :: rat\<rceil> = 129801" by (rule ceiling_unique) simp_all
  with script_fee_correct [OF w] show ?thesis by (simp add: cost)
qed


section \<open>The tiered reference-script fee\<close>

text \<open>
  The specification: every full tier of 25600 bytes costs 6/5 of the one before per byte, and the
  bytes of the last, partial tier are charged at the price reached.
\<close>

definition tiered_cost :: "rat \<Rightarrow> nat \<Rightarrow> rat" where
  "tiered_cost b sz =
     (\<Sum>i<(sz div 25600). 25600 * b * (6 / 5) ^ i) +
     of_nat (sz mod 25600) * b * (6 / 5) ^ (sz div 25600)"

text \<open>The same sum over the common denominator \<open>d * 5 ^ i\<close> after \<open>i\<close> full tiers.\<close>

primrec tier_num :: "nat \<Rightarrow> nat \<Rightarrow> nat" where
  "tier_num n 0 = 0"
| "tier_num n (Suc i) = 5 * (tier_num n i + 25600 * (n * 6 ^ i))"

lemma nfrac_add_same: "nfrac n d + nfrac m d = nfrac (n + m) d"
  by (simp add: nfrac_def add_divide_distrib)

lemma tier_num_step:
  "nfrac (tier_num n i) (d * 5 ^ i) + nfrac (25600 * (n * 6 ^ i)) (d * 5 ^ i) =
   nfrac (tier_num n (Suc i)) (d * 5 ^ Suc i)"
  using nfrac_cancel [of 5 "tier_num n i + 25600 * (n * 6 ^ i)" "d * 5 ^ i"]
  by (simp add: nfrac_add_same mult.left_commute [of 5] del: distrib_left_numeral)

lemma nfrac_tier_price: "nfrac (n * 6 ^ i) (d * 5 ^ i) = nfrac n d * (6 / 5) ^ i"
  by (simp add: nfrac_def power_divide)

lemma nfrac_scale: "nfrac (c * n) d = of_nat c * nfrac n d"
  by (simp add: nfrac_def)

lemma nfrac_tier_num:
  "nfrac (tier_num n i) (d * 5 ^ i) = (\<Sum>j<i. 25600 * nfrac n d * (6 / 5) ^ j)"
proof (induction i)
  case (Suc i)
  then show ?case
    unfolding tier_num_step [symmetric] nfrac_scale [of 25600] nfrac_tier_price by simp
qed (simp add: nfrac_def)

lemma tier_num_le: "tier_num n i \<le> i * 25600 * (n * 6 ^ i)"
  by (induction i) (simp_all add: algebra_simps)

lemma six_power_le: "i \<le> 8 \<Longrightarrow> 6 ^ i \<le> 5 * (5::nat) ^ i"
proof -
  assume "i \<le> 8"
  moreover have "\<forall>i\<in>set [0..<9]. 6 ^ i \<le> 5 * (5::nat) ^ i" by (simp add: upt_rec)
  ultimately show ?thesis by (simp del: upt_Suc)
qed

lemma tier_num_le_5: "i \<le> 8 \<Longrightarrow> tier_num n i \<le> 128000 * (i * n) * 5 ^ i"
proof (induction i)
  case (Suc i)
  have "n * 6 ^ i \<le> n * (5 * 5 ^ i)" using Suc.prems by (intro mult_le_mono2 six_power_le) simp
  moreover have "tier_num n i \<le> 128000 * (i * n) * 5 ^ i" using Suc by simp
  ultimately have "tier_num n (Suc i) \<le> 5 * (128000 * (i * n) * 5 ^ i + 25600 * (n * (5 * 5 ^ i)))"
    unfolding tier_num.simps
    by (intro mult_le_mono2 [of _ _ 5] add_mono mult_le_mono2 [of _ _ 25600])
  also have "\<dots> = 128000 * (Suc i * n) * 5 ^ Suc i" by (simp add: algebra_simps)
  finally show ?case .
qed simp

text \<open>The bounds that keep eight tiers within 128 bits.\<close>

lemma tier_bounds:
  assumes "n < 2 ^ 32" "d < (2::nat) ^ 32" "i \<le> 8"
  shows "n * 6 ^ i < 2 ^ 53" "d * 5 ^ i < 2 ^ 51" "tier_num n i < 2 ^ 71"
proof -
  have "(6::nat) ^ i \<le> 6 ^ 8" by (rule power_increasing [OF assms(3)]) simp
  moreover have "(5::nat) ^ i \<le> 5 ^ 8" by (rule power_increasing [OF assms(3)]) simp
  ultimately have p: "(6::nat) ^ i \<le> 1679616" "(5::nat) ^ i \<le> 390625" by simp_all
  show n: "n * 6 ^ i < 2 ^ 53" using mult_le_mono [OF less_imp_le [OF assms(1)] p(1)] by simp
  show "d * 5 ^ i < 2 ^ 51" using mult_le_mono [OF less_imp_le [OF assms(2)] p(2)] by simp
  have "tier_num n i \<le> i * 25600 * (n * 6 ^ i)" by (rule tier_num_le)
  also have "\<dots> \<le> 8 * 25600 * (n * 6 ^ i)" using assms(3) by (intro mult_le_mono1) simp
  also have "\<dots> < 2 ^ 71" using n by simp
  finally show "tier_num n i < 2 ^ 71" .
qed

text \<open>What the loop has computed after \<open>i\<close> full tiers.\<close>

definition tier_inv :: "nat \<Rightarrow> nat \<Rightarrow> nat \<Rightarrow> u128 \<times> u128 \<Rightarrow> u128 \<times> u128 \<Rightarrow> bool" where
  "tier_inv n d i tp acc \<longleftrightarrow>
     snd tp \<noteq> 0 \<and> wfrac tp = nfrac (n * 6 ^ i) (d * 5 ^ i) \<and>
     unat (fst tp) \<le> n * 6 ^ i \<and> unat (snd tp) \<le> d * 5 ^ i \<and>
     snd acc \<noteq> 0 \<and> wfrac acc = nfrac (tier_num n i) (d * 5 ^ i) \<and>
     unat (fst acc) \<le> tier_num n i \<and> unat (snd acc) \<le> d * 5 ^ i"


lemma mult_lt_powers:
  "(a::nat) \<le> x \<Longrightarrow> x < 2 ^ k \<Longrightarrow> b \<le> y \<Longrightarrow> y < 2 ^ l \<Longrightarrow> a * b < 2 ^ (k + l)"
  using mult_strict_mono [of a "2 ^ k" b "2 ^ l"] by (simp add: power_add)

text \<open>
  Adding the cost of \<open>c\<close> bytes (at most one full tier) at the current price to the accumulator.
\<close>

lemma tier_charge:
  assumes inv: "tier_inv n d i tp acc" and nd: "n < 2 ^ 32" "d < 2 ^ 32" "0 < d" "i \<le> 8"
    and c: "unat c \<le> 25600"
  obtains r where
    "reduce_frac (fst acc * snd tp + (c * fst tp) * snd acc) (snd acc * snd tp) = Some r"
    "reduced r"
    "wfrac r = nfrac (tier_num n i + unat c * (n * 6 ^ i)) (d * 5 ^ i)"
proof -
  note b = tier_bounds [OF nd(1,2,4)]
  have tp: "unat (fst tp) \<le> n * 6 ^ i" "unat (snd tp) \<le> d * 5 ^ i" "snd tp \<noteq> 0"
    and acc: "unat (fst acc) \<le> tier_num n i" "unat (snd acc) \<le> d * 5 ^ i" "snd acc \<noteq> 0"
    and w: "wfrac tp = nfrac (n * 6 ^ i) (d * 5 ^ i)" "wfrac acc = nfrac (tier_num n i) (d * 5 ^ i)"
    using inv by (simp_all add: tier_inv_def)
  let ?q = "(c * fst tp, snd tp)"
  have ctp: "unat c * unat (fst tp) < 2 ^ (15 + 53)"
    by (rule mult_lt_powers [OF c _ tp(1) b(1)]) simp
  have q: "unat (fst ?q) = unat c * unat (fst tp)" "unat (snd ?q) = unat (snd tp)"
    using ctp by (simp_all add: unat_mult_no_overflow)
  have "unat (fst acc) * unat (snd tp) < 2 ^ (71 + 51)"
    by (rule mult_lt_powers [OF acc(1) b(3) tp(2) b(2)])
  moreover have "unat (fst ?q) * unat (snd acc) < 2 ^ (68 + 51)"
    unfolding q by (rule mult_lt_powers [OF order.refl _ acc(2) b(2)]) (use ctp in simp)
  ultimately have s1: "unat (fst acc) * unat (snd ?q) + unat (fst ?q) * unat (snd acc) < 2 ^ 128"
    unfolding q by simp
  have "unat (snd acc) * unat (snd tp) < 2 ^ (51 + 51)"
    by (rule mult_lt_powers [OF acc(2) b(2) tp(2) b(2)])
  then have s2: "unat (snd acc) * unat (snd ?q) < 2 ^ 128" by simp
  have q0: "snd ?q \<noteq> 0" using tp(3) by simp
  obtain r where r: "reduce_frac (fst acc * snd ?q + fst ?q * snd acc) (snd acc * snd ?q) = Some r"
      "reduced r" "wfrac r = wfrac acc + wfrac ?q"
    by (rule add_frac_correct [OF acc(3) q0 s1 s2])
  have "wfrac ?q = nfrac (unat c * (n * 6 ^ i)) (d * 5 ^ i)"
    using w(1) unfolding wfrac_def q nfrac_scale by simp
  with r w(2) show thesis by (intro that) (simp_all add: nfrac_add_same)
qed

lemma tier_raise_price:
  assumes inv: "tier_inv n d i tp acc" and nd: "n < 2 ^ 32" "d < 2 ^ 32" "0 < d" "i \<le> 8"
  obtains r where "reduce_frac (fst tp * 6) (snd tp * 5) = Some r" "reduced r"
    "wfrac r = nfrac (n * 6 ^ Suc i) (d * 5 ^ Suc i)"
proof -
  note b = tier_bounds [OF nd(1,2,4)]
  have tp: "unat (fst tp) \<le> n * 6 ^ i" "unat (snd tp) \<le> d * 5 ^ i" "snd tp \<noteq> 0"
      "wfrac tp = nfrac (n * 6 ^ i) (d * 5 ^ i)"
    using inv by (simp_all add: tier_inv_def)
  have u: "unat (fst tp * 6) = unat (fst tp) * 6" "unat (snd tp * 5) = unat (snd tp) * 5"
    using tp(1,2) b(1,2) by (subst unat_mult_no_overflow; simp)+
  have "snd tp * 5 \<noteq> 0" using u(2) tp(3) by (metis mult_eq_0_iff unat_0 unat_eq_0 zero_neq_numeral)
  then obtain r where r: "reduce_frac (fst tp * 6) (snd tp * 5) = Some r" "reduced r"
      "wfrac r = wfrac (fst tp * 6, snd tp * 5)"
    by (rule reduce_frac_correct)
  have "wfrac (fst tp * 6, snd tp * 5) = wfrac tp * nfrac 6 5"
    by (simp add: wfrac_def u nfrac_mult)
  also have "\<dots> = nfrac (n * 6 ^ Suc i) (d * 5 ^ Suc i)"
    unfolding tp(4) nfrac_mult by (simp add: ac_simps)
  finally show thesis using r that by simp
qed

lemma tier_inv_step:
  assumes "tier_inv n d i tp acc" "n < 2 ^ 32" "d < 2 ^ 32" "0 < d" "i \<le> 8"
  obtains acc' tp' where
    "reduce_frac (fst acc * snd tp + (25600 * fst tp) * snd acc) (snd acc * snd tp) = Some acc'"
    "reduce_frac (fst tp * 6) (snd tp * 5) = Some tp'"
    "tier_inv n d (Suc i) tp' acc'"
proof -
  have pos: "0 < d * 5 ^ Suc i" using assms(4) by simp
  obtain acc' where acc':
    "reduce_frac (fst acc * snd tp + (25600 * fst tp) * snd acc) (snd acc * snd tp) = Some acc'"
    "reduced acc'" "wfrac acc' = nfrac (tier_num n i + 25600 * (n * 6 ^ i)) (d * 5 ^ i)"
    using tier_charge [OF assms, of 25600] by auto
  have wa: "wfrac acc' = nfrac (tier_num n (Suc i)) (d * 5 ^ Suc i)"
    unfolding acc'(3) nfrac_add_same [symmetric] by (rule tier_num_step)
  obtain tp' where tp': "reduce_frac (fst tp * 6) (snd tp * 5) = Some tp'" "reduced tp'"
      "wfrac tp' = nfrac (n * 6 ^ Suc i) (d * 5 ^ Suc i)"
    using tier_raise_price [OF assms] by auto
  have "tier_inv n d (Suc i) tp' acc'"
    using reduced_le [OF acc'(2) wa pos] reduced_le [OF tp'(2,3) pos] acc'(2) tp'(2) wa tp'(3)
    unfolding tier_inv_def reduced_def by blast
  with acc'(1) tp'(1) show thesis by (rule that)
qed


lemma tier_loop_correct:
  assumes "tier_inv n d i tp acc" "n < 2 ^ 32" "d < 2 ^ 32" "0 < d"
    and "unat r = 25600 * m + rest" "rest < 25600" "i + m \<le> 8"
  shows "\<exists>r' tp' acc'. tier_loop r tp acc = Some (r', tp', acc') \<and> unat r' = rest \<and>
    tier_inv n d (i + m) tp' acc'"
  using assms(1,5,7)
proof (induction m arbitrary: r tp acc i)
  case 0
  then have "\<not> ref_script_stride \<le> r" using assms(6) by (simp add: word_le_nat_alt)
  then show ?case using 0 by (subst tier_loop.simps) simp
next
  case (Suc m)
  have ge: "ref_script_stride \<le> r" using Suc.prems(2) by (simp add: word_le_nat_alt)
  have i8: "i \<le> 8" using Suc.prems(3) by simp
  have r': "unat (r - 25600) = 25600 * m + rest"
    using unat_sub_le [OF ge] Suc.prems(2) by simp
  obtain acc' tp' where st:
    "reduce_frac (fst acc * snd tp + (25600 * fst tp) * snd acc) (snd acc * snd tp) = Some acc'"
    "reduce_frac (fst tp * 6) (snd tp * 5) = Some tp'"
    "tier_inv n d (Suc i) tp' acc'"
    by (rule tier_inv_step [OF Suc.prems(1) assms(2-4) i8])
  have "tier_loop r tp acc = tier_loop (r - 25600) tp' acc'"
    using ge st(1,2) by (subst tier_loop.simps) simp
  with Suc.IH [OF st(3) r'] Suc.prems(3) show ?case by simp
qed

lemma floor_wfrac: "unat (fst p div snd p) = nat \<lfloor>wfrac p\<rfloor>"
  by (simp add: wfrac_def nfrac_def unat_div floor_divide_of_nat_eq del: of_nat_unat)

lemma nfrac_tiered_cost:
  "nfrac (tier_num n i + rest * (n * 6 ^ i)) (d * 5 ^ i) =
     (\<Sum>j<i. 25600 * nfrac n d * (6 / 5) ^ j) + of_nat rest * nfrac n d * (6 / 5) ^ i"
  unfolding nfrac_add_same [symmetric] nfrac_scale [of rest] nfrac_tier_price nfrac_tier_num
  by simp

lemma tier_fee_fits:
  assumes "n < 2 ^ 32" "0 < d" "i \<le> 8" "rest < 25600"
  shows "(tier_num n i + rest * (n * 6 ^ i)) div (d * 5 ^ i) < 2 ^ 64"
proof -
  let ?s = "tier_num n i + rest * (n * 6 ^ i)"
  have "rest * (n * 6 ^ i) \<le> 25600 * (n * (5 * 5 ^ i))"
    using assms(3,4) six_power_le by (intro mult_le_mono) simp_all
  then have "?s \<le> 128000 * (i * n) * 5 ^ i + 25600 * (n * (5 * 5 ^ i))"
    using tier_num_le_5 [OF assms(3)] by (rule add_mono [rotated])
  also have "\<dots> = 128000 * (n * Suc i) * 5 ^ i" by (simp add: algebra_simps)
  finally have "?s div 5 ^ i \<le> 128000 * (n * Suc i)"
    by (metis div_le_mono nonzero_mult_div_cancel_right power_not_zero zero_neq_numeral)
  moreover have "?s div (d * 5 ^ i) \<le> ?s div 5 ^ i"
    using assms(2) by (intro div_le_mono2) simp_all
  moreover have "n * Suc i \<le> 2 ^ 32 * 9" using assms by (intro mult_le_mono) simp_all
  ultimately show ?thesis by simp
qed

text \<open>
  C12. The tiered reference-script fee is exact. For every base price whose numerator and
  denominator are below \<open>2 ^ 32\<close> and every total size up to the ledger's limit of 204800 bytes per
  transaction, the loop over the tiers ends, no intermediate value overflows 128 bits, and the
  result is the floor of the tiered cost.
\<close>
theorem tier_ref_script_fee_correct:
  assumes "ui_numerator b < 2 ^ 32" "ui_denominator b < 2 ^ 32" "ui_denominator b \<noteq> 0"
    and "sz \<le> 204800"
  shows "\<exists>fee. tier_ref_script_fee b sz = Some fee \<and>
    unat fee = nat \<lfloor>tiered_cost (nfrac (unat (ui_numerator b)) (unat (ui_denominator b))) (unat sz)\<rfloor>"
proof (cases "sz = 0 \<or> ui_numerator b = 0")
  case True
  then show ?thesis by (auto simp: tier_ref_script_fee_def tiered_cost_def nfrac_def)
next
  case False
  define n d where "n = unat (ui_numerator b)" and "d = unat (ui_denominator b)"
  define i rest where "i = unat sz div 25600" and "rest = unat sz mod 25600"
  define s where "s = tier_num n i + rest * (n * 6 ^ i)"
  have nd: "n < 2 ^ 32" "d < 2 ^ 32" "0 < d"
    using assms(1-3) by (simp_all add: n_def d_def word_less_nat_alt unat_gt_0)
  have "unat sz \<le> 204800" using assms(4) by (simp add: word_le_nat_alt)
  then have sz: "unat (ucast sz :: u128) = 25600 * i + rest" "rest < 25600" "0 + i \<le> 8"
    by (simp_all add: i_def rest_def unat_ucast_64_128 div_le_mono [of _ 204800 25600, simplified])
  let ?tp = "(ucast (ui_numerator b), ucast (ui_denominator b)) :: u128 \<times> u128"
  have d0: "(ucast (ui_denominator b) :: u128) \<noteq> 0"
    using nd(3) unat_ucast_64_128 [of "ui_denominator b"] by (auto simp: d_def)
  have "tier_inv n d 0 ?tp (0, 1)"
    using d0 by (simp add: tier_inv_def wfrac_def unat_ucast_64_128 n_def d_def nfrac_def nd del: of_nat_unat)
       (use nd(3) d_def in simp)
  from tier_loop_correct [OF this nd sz] obtain r' tp acc where lp:
    "tier_loop (ucast sz) ?tp (0, 1) = Some (r', tp, acc)" "unat r' = rest" "tier_inv n d i tp acc"
    by auto
  obtain acc' where fin: "(if r' > 0
      then reduce_frac (fst acc * snd tp + (r' * fst tp) * snd acc) (snd acc * snd tp)
      else Some acc) = Some acc'" "snd acc' \<noteq> 0" "wfrac acc' = nfrac s (d * 5 ^ i)"
  proof (cases "r' > 0")
    case True
    with tier_charge [OF lp(3) nd, of r'] sz lp(2) that show thesis
      by (auto simp: s_def reduced_def)
  next
    case False
    then have "rest = 0" using lp(2) by (auto simp: word_gt_0)
    with False show thesis using that [of acc] lp(3) by (simp add: s_def tier_inv_def)
  qed
  have "tier_ref_script_fee b sz = Some (ucast (fst acc' div snd acc'))"
    using False d0 lp(1) fin(1,2) by (simp add: tier_ref_script_fee_def)
  moreover have fl: "unat (fst acc' div snd acc') = s div (d * 5 ^ i)"
    unfolding floor_wfrac fin(3) by (simp add: nfrac_def floor_divide_of_nat_eq del: of_nat_mult)
  moreover have "unat (ucast (fst acc' div snd acc') :: u64) = unat (fst acc' div snd acc')"
    using tier_fee_fits [OF nd(1,3) _ sz(2), of i] sz(3) fl
    by (intro unat_ucast_fits) (simp add: s_def)
  moreover have "s div (d * 5 ^ i) = nat \<lfloor>tiered_cost (nfrac n d) (unat sz)\<rfloor>"
    unfolding tiered_cost_def i_def [symmetric] rest_def [symmetric] nfrac_tiered_cost [symmetric]
      s_def [symmetric]
    by (simp add: nfrac_def floor_divide_of_nat_eq del: of_nat_mult of_nat_add)
  ultimately show ?thesis by (simp add: n_def d_def del: of_nat_unat)
qed


theorem tier_ref_script_fee_correct_witness:
  "\<exists>fee. tier_ref_script_fee \<lparr>ui_numerator = 15, ui_denominator = 1\<rparr> 30000 = Some fee \<and>
     unat fee = 463200"
proof -
  have "tiered_cost (nfrac (unat (15 :: u64)) (unat (1 :: u64))) (unat (30000 :: u64)) = 463200"
    by (simp add: tiered_cost_def nfrac_def)
  with tier_ref_script_fee_correct [of "\<lparr>ui_numerator = 15, ui_denominator = 1\<rparr>" 30000]
  show ?thesis by simp
qed

end
