(* ===== verification/Mempool.thy ===== *)
theory Mempool
  imports Fees
begin

text \<open>
  The transaction mempool, \<open>src/crates/consensus/src/mempool/queue.rs\<close> and \<open>queue/inner.rs\<close>:
  admission with duplicate, double-spend and capacity checks, fee-ordered entries, eviction of
  low-fee transactions, the purges after a block or at an epoch boundary, and the snapshots from
  which transactions are offered to peers.

  Every \<open>&mut self\<close> operation takes the mempool and returns the new one next to its result, so
  that a failure half way through would be visible. Hash maps and hash sets that are only looked
  up are maps and sets. The typed transaction of the ledger crate is a parameter: a record
  \<open>tx_codec\<close> of the functions the mempool calls on it.
\<close>

section \<open>Entries\<close>

record tx_in =
  ti_transaction_id :: bytes
  ti_index :: u16

record mempool_entry =
  me_era :: era
  me_tx_id :: tx_id
  me_fee :: u64
  me_body :: bytes
  me_raw_tx :: bytes
  me_size_bytes :: u64
  me_ttl :: slot_no
  me_inputs :: "tx_in list"

record 'tx tx_codec =
  txc_decode :: "era \<Rightarrow> bytes \<Rightarrow> (ledger_error, 'tx) result"
  txc_era :: "'tx \<Rightarrow> era"
  txc_tx_id :: "'tx \<Rightarrow> tx_id"
  txc_body_cbor :: "'tx \<Rightarrow> bytes"
  txc_raw_cbor :: "'tx \<Rightarrow> bytes"
  txc_inputs :: "'tx \<Rightarrow> tx_in list"
  txc_total_ex_units :: "'tx \<Rightarrow> ex_units option"

definition from_multi_era_submitted_tx ::
    "'tx tx_codec \<Rightarrow> 'tx \<Rightarrow> u64 \<Rightarrow> slot_no \<Rightarrow> mempool_entry" where
  "from_multi_era_submitted_tx c tx fee ttl =
     \<lparr>me_era = txc_era c tx, me_tx_id = txc_tx_id c tx, me_fee = fee,
      me_body = txc_body_cbor c tx, me_raw_tx = txc_raw_cbor c tx,
      me_size_bytes = of_nat (length (txc_raw_cbor c tx)), me_ttl = ttl,
      me_inputs = txc_inputs c tx\<rparr>"

datatype mempool_relay_error =
    RelayDecode era ledger_error
  | BodyMismatch
  | TxIdMismatch tx_id tx_id

definition to_multi_era_submitted_tx ::
    "'tx tx_codec \<Rightarrow> mempool_entry \<Rightarrow> (mempool_relay_error, 'tx) result" where
  "to_multi_era_submitted_tx c e =
     (case txc_decode c (me_era e) (me_raw_tx e) of
        Panic \<Rightarrow> Panic
      | Err source \<Rightarrow> Err (RelayDecode (me_era e) source)
      | Ok tx \<Rightarrow>
          if txc_body_cbor c tx \<noteq> me_body e then Err BodyMismatch
          else if txc_tx_id c tx \<noteq> me_tx_id e
          then Err (TxIdMismatch (me_tx_id e) (txc_tx_id c tx))
          else Ok tx)"

datatype mempool_error =
    Duplicate tx_id
  | CapacityExceeded u64 u64 u64
  | EvictionInsufficientSpace u64 u64 u64
  | EvictionNotWorthwhile u64 u64
  | TtlExpired slot_no slot_no
  | MempoolFeeTooSmall u64 u64
  | MempoolTxTooLarge u64 u64
  | ProtocolParamValidation ledger_error
  | MempoolExUnitsExceedTxLimit u64 u64 u64 u64
  | ConflictingInputs tx_id


section \<open>The queue\<close>

text \<open>Mempool indexes are \<open>i64\<close>; \<open>wrap_i64\<close> is the wrap-around of their increment.\<close>

definition wrap_i64 :: "int \<Rightarrow> int" where
  "wrap_i64 n = (n + 2 ^ 63) mod 2 ^ 64 - 2 ^ 63"

record indexed_mempool_entry =
  ix_idx :: int
  ix_entry :: mempool_entry

record mempool =
  mp_entries :: "indexed_mempool_entry list"
  mp_max_bytes :: u64
  mp_current_bytes :: u64
  mp_next_idx :: int
  mp_claimed_inputs :: "tx_in \<rightharpoonup> tx_id"
  mp_tx_ids :: "tx_id set"

abbreviation ix_tx_id :: "indexed_mempool_entry \<Rightarrow> tx_id" where
  "ix_tx_id x \<equiv> me_tx_id (ix_entry x)"

abbreviation ix_fee :: "indexed_mempool_entry \<Rightarrow> u64" where
  "ix_fee x \<equiv> me_fee (ix_entry x)"

abbreviation ix_size :: "indexed_mempool_entry \<Rightarrow> u64" where
  "ix_size x \<equiv> me_size_bytes (ix_entry x)"

abbreviation ix_inputs :: "indexed_mempool_entry \<Rightarrow> tx_in list" where
  "ix_inputs x \<equiv> me_inputs (ix_entry x)"

definition with_capacity :: "u64 \<Rightarrow> mempool" where
  "with_capacity max_bytes =
     \<lparr>mp_entries = [], mp_max_bytes = max_bytes, mp_current_bytes = 0, mp_next_idx = 0,
      mp_claimed_inputs = Map.empty, mp_tx_ids = {}\<rparr>"

text \<open>The first of the inputs that is already claimed, with its claimant.\<close>

fun first_conflict :: "(tx_in \<rightharpoonup> tx_id) \<Rightarrow> tx_in list \<Rightarrow> tx_id option" where
  "first_conflict claimed [] = None"
| "first_conflict claimed (i # is) =
     (case claimed i of Some t \<Rightarrow> Some t | None \<Rightarrow> first_conflict claimed is)"

definition claim_inputs :: "tx_in list \<Rightarrow> tx_id \<Rightarrow> (tx_in \<rightharpoonup> tx_id) \<Rightarrow> (tx_in \<rightharpoonup> tx_id)" where
  "claim_inputs is t claimed = foldl (\<lambda>m i. m(i \<mapsto> t)) claimed is"

definition release_inputs :: "tx_in list \<Rightarrow> (tx_in \<rightharpoonup> tx_id) \<Rightarrow> (tx_in \<rightharpoonup> tx_id)" where
  "release_inputs is claimed = foldl (\<lambda>m i. m(i := None)) claimed is"

text \<open>\<open>sort_by_key\<close> on \<open>Reverse(fee)\<close> is a stable sort.\<close>

definition sort_by_fee :: "indexed_mempool_entry list \<Rightarrow> indexed_mempool_entry list" where
  "sort_by_fee = sort_key (\<lambda>x. - uint (ix_fee x))"

text \<open>The admission checks of \<open>insert\<close>: duplicate, conflict, capacity; the new byte total.\<close>

definition insert_check :: "mempool \<Rightarrow> mempool_entry \<Rightarrow> (mempool_error, u64) result" where
  "insert_check m e =
     (if me_tx_id e \<in> mp_tx_ids m then Err (Duplicate (me_tx_id e))
      else case first_conflict (mp_claimed_inputs m) (me_inputs e) of
        Some t \<Rightarrow> Err (ConflictingInputs t)
      | None \<Rightarrow>
          (let full = CapacityExceeded (mp_current_bytes m) (me_size_bytes e) (mp_max_bytes m)
           in case checked_add (mp_current_bytes m) (me_size_bytes e) of
                None \<Rightarrow> Err full
              | Some next_bytes \<Rightarrow>
                  if mp_max_bytes m > 0 \<and> next_bytes > mp_max_bytes m then Err full
                  else Ok next_bytes))"

definition push_entry :: "mempool \<Rightarrow> mempool_entry \<Rightarrow> u64 \<Rightarrow> mempool" where
  "push_entry m e next_bytes =
     m\<lparr>mp_current_bytes := next_bytes,
       mp_claimed_inputs := claim_inputs (me_inputs e) (me_tx_id e) (mp_claimed_inputs m),
       mp_tx_ids := insert (me_tx_id e) (mp_tx_ids m),
       mp_entries := sort_by_fee
         (mp_entries m @ [\<lparr>ix_idx = mp_next_idx m, ix_entry = e\<rparr>]),
       mp_next_idx := wrap_i64 (mp_next_idx m + 1)\<rparr>"

definition mempool_insert ::
    "mempool \<Rightarrow> mempool_entry \<Rightarrow> mempool \<times> (mempool_error, unit) result" where
  "mempool_insert m e =
     (case insert_check m e of
        Ok next_bytes \<Rightarrow> (push_entry m e next_bytes, Ok ())
      | Err err \<Rightarrow> (m, Err err)
      | Panic \<Rightarrow> (m, Panic))"


text \<open>
  Taking an entry out: \<open>Vec::remove\<close> at a valid index, the byte total reduced with \<open>sub\<close> (the
  wrapping \<open>-=\<close>, or the saturating subtraction in the eviction path), the inputs released and
  the identifier forgotten.
\<close>

definition detach_entry ::
    "(u64 \<Rightarrow> u64 \<Rightarrow> u64) \<Rightarrow> nat \<Rightarrow> mempool \<Rightarrow> indexed_mempool_entry \<times> mempool" where
  "detach_entry sub i m =
     (let x = mp_entries m ! i
      in (x, m\<lparr>mp_entries := take i (mp_entries m) @ drop (Suc i) (mp_entries m),
               mp_current_bytes := sub (mp_current_bytes m) (ix_size x),
               mp_claimed_inputs := release_inputs (ix_inputs x) (mp_claimed_inputs m),
               mp_tx_ids := mp_tx_ids m - {ix_tx_id x}\<rparr>))"

fun evict_scan ::
    "u64 \<Rightarrow> u64 \<Rightarrow> (nat \<times> indexed_mempool_entry) list \<Rightarrow> u64 \<times> u64 \<times> nat list \<Rightarrow>
     u64 \<times> u64 \<times> nat list" where
  "evict_scan needed fee [] acc = acc"
| "evict_scan needed fee ((idx, x) # xs) (freeable_bytes, evicted_fee, evict_indexes) =
     (if ix_fee x \<ge> fee then (freeable_bytes, evicted_fee, evict_indexes)
      else let acc = (saturating_add freeable_bytes (ix_size x),
                      saturating_add evicted_fee (ix_fee x), evict_indexes @ [idx])
           in if fst acc \<ge> needed then acc else evict_scan needed fee xs acc)"

primrec evict_all :: "nat list \<Rightarrow> mempool \<times> tx_id list \<Rightarrow> mempool \<times> tx_id list" where
  "evict_all [] acc = acc"
| "evict_all (idx # idxs) acc =
     (let (x, m') = detach_entry saturating_sub idx (fst acc)
      in evict_all idxs (m', snd acc @ [ix_tx_id x]))"

text \<open>The result of an insertion, passed on with the evicted identifiers.\<close>

definition insert_then ::
    "mempool \<Rightarrow> mempool_entry \<Rightarrow> tx_id list \<Rightarrow> mempool \<times> (mempool_error, tx_id list) result" where
  "insert_then m e evicted_ids =
     (let (m', r) = mempool_insert m e in (m', map_ok (\<lambda>_. evicted_ids) r))"

definition insert_with_eviction ::
    "mempool \<Rightarrow> mempool_entry \<Rightarrow> mempool \<times> (mempool_error, tx_id list) result" where
  "insert_with_eviction m e =
     (if me_tx_id e \<in> mp_tx_ids m then (m, Err (Duplicate (me_tx_id e)))
      else case first_conflict (mp_claimed_inputs m) (me_inputs e) of
        Some t \<Rightarrow> (m, Err (ConflictingInputs t))
      | None \<Rightarrow>
          (case checked_add (mp_current_bytes m) (me_size_bytes e) of
             None \<Rightarrow> (m, Err (CapacityExceeded (mp_current_bytes m) (me_size_bytes e)
                             (mp_max_bytes m)))
           | Some projected \<Rightarrow>
               if mp_max_bytes m = 0 \<or> projected \<le> mp_max_bytes m then insert_then m e []
               else if me_size_bytes e > mp_max_bytes m
               then (m, Err (EvictionInsufficientSpace (me_size_bytes e) (mp_max_bytes m) 0))
               else
                 let needed =
                       saturating_sub (mp_current_bytes m + me_size_bytes e) (mp_max_bytes m);
                     (freeable_bytes, evicted_fee, evict_indexes) =
                       evict_scan needed (me_fee e) (rev (enumerate 0 (mp_entries m))) (0, 0, [])
                 in if freeable_bytes < needed
                    then (m, Err (EvictionInsufficientSpace (me_size_bytes e) (mp_max_bytes m)
                                    freeable_bytes))
                    else if me_fee e \<le> evicted_fee
                    then (m, Err (EvictionNotWorthwhile (me_fee e) evicted_fee))
                    else let (m', evicted_ids) = evict_all (rev (sort evict_indexes)) (m, [])
                         in insert_then m' e evicted_ids))"

definition pop_best :: "mempool \<Rightarrow> mempool_entry option \<times> mempool" where
  "pop_best m =
     (if mp_entries m = [] then (None, m)
      else let (x, m') = detach_entry (-) 0 m in (Some (ix_entry x), m'))"

definition remove_by_id :: "mempool \<Rightarrow> tx_id \<Rightarrow> bool \<times> mempool" where
  "remove_by_id m t =
     (if t \<notin> mp_tx_ids m then (False, m)
      else case position (\<lambda>x. ix_tx_id x = t) (mp_entries m) of
        Some pos \<Rightarrow> (True, snd (detach_entry (-) pos m))
      | None \<Rightarrow> (False, m\<lparr>mp_tx_ids := mp_tx_ids m - {t}\<rparr>))"

definition mempool_contains :: "mempool \<Rightarrow> tx_id \<Rightarrow> bool" where
  "mempool_contains m t \<longleftrightarrow> t \<in> mp_tx_ids m"

text \<open>
  The purges share one loop: an index runs over the entries, and an entry that is not kept is
  detached without advancing the index. The predicate may carry a state, as the closure of
  \<open>revalidate_with_ledger\<close> does.
\<close>

function retain_loop ::
    "('s \<Rightarrow> mempool_entry \<Rightarrow> bool \<times> 's) \<Rightarrow> 's \<Rightarrow> nat \<Rightarrow> mempool \<Rightarrow> nat \<Rightarrow>
     mempool \<times> nat \<times> 's" where
  "retain_loop keep st i m removed_count =
     (if i < length (mp_entries m)
      then let (k, st') = keep st (ix_entry (mp_entries m ! i))
           in if k then retain_loop keep st' (i + 1) m removed_count
              else retain_loop keep st' i (snd (detach_entry (-) i m)) (removed_count + 1)
      else (m, removed_count, st))"
  by pat_completeness auto

termination
  by (relation "measure (\<lambda>(_, _, i, m, _). length (mp_entries m) - i)")
    (auto simp: detach_entry_def Let_def)

declare retain_loop.simps [simp del]

definition retain :: "(mempool_entry \<Rightarrow> bool) \<Rightarrow> mempool \<Rightarrow> nat \<times> mempool" where
  "retain keep m =
     (let (m', n, _) = retain_loop (\<lambda>_ e. (keep e, ())) () 0 m 0 in (n, m'))"

definition remove_confirmed :: "mempool \<Rightarrow> tx_id list \<Rightarrow> nat \<times> mempool" where
  "remove_confirmed m confirmed_tx_ids = retain (\<lambda>e. me_tx_id e \<notin> set confirmed_tx_ids) m"

definition remove_conflicting_inputs :: "mempool \<Rightarrow> tx_in list \<Rightarrow> nat \<times> mempool" where
  "remove_conflicting_inputs m consumed_inputs =
     (if consumed_inputs = [] then (0, m)
      else retain (\<lambda>e. \<not> list_ex (\<lambda>i. i \<in> set consumed_inputs) (me_inputs e)) m)"

definition purge_expired :: "mempool \<Rightarrow> slot_no \<Rightarrow> nat \<times> mempool" where
  "purge_expired m current_slot = retain (\<lambda>e. \<not> current_slot > me_ttl e) m"

definition revalidate :: "mempool \<Rightarrow> slot_no \<Rightarrow> tx_in set \<Rightarrow> nat \<times> mempool" where
  "revalidate m current_slot available_inputs =
     retain (\<lambda>e. \<not> (current_slot > me_ttl e \<or>
                     list_ex (\<lambda>i. i \<notin> available_inputs) (me_inputs e))) m"

definition revalidate_with_ledger ::
    "mempool \<Rightarrow> ('s \<Rightarrow> mempool_entry \<Rightarrow> bool \<times> 's) \<Rightarrow> 's \<Rightarrow> mempool \<times> nat \<times> 's" where
  "revalidate_with_ledger m validate st = retain_loop validate st 0 m 0"



section \<open>Checks against slot and protocol parameters\<close>

definition entry_ex_units ::
    "'tx tx_codec \<Rightarrow> mempool_entry \<Rightarrow> ('e, ex_units option) result" where
  "entry_ex_units c e =
     (case to_multi_era_submitted_tx c e of
        Ok tx \<Rightarrow> Ok (txc_total_ex_units c tx)
      | Err _ \<Rightarrow> Ok None
      | Panic \<Rightarrow> Panic)"

text \<open>The \<open>map_err\<close> closures of the precheck: the expected error, or any other one wrapped.\<close>

fun lift_ledger_error :: "ledger_error \<Rightarrow> mempool_error" where
  "lift_ledger_error (TxTooLarge actual mx) = MempoolTxTooLarge actual mx"
| "lift_ledger_error (ExUnitsExceedTxLimit m s mm ms) = MempoolExUnitsExceedTxLimit m s mm ms"
| "lift_ledger_error (FeeTooSmall minimum declared) = MempoolFeeTooSmall minimum declared"
| "lift_ledger_error other = ProtocolParamValidation other"

definition precheck_ttl_and_params ::
    "'tx tx_codec \<Rightarrow> mempool_entry \<Rightarrow> slot_no \<Rightarrow> protocol_parameters option \<Rightarrow>
     (mempool_error, unit) result" where
  "precheck_ttl_and_params c e current_slot protocol_params =
     (if current_slot > me_ttl e then Err (TtlExpired (me_ttl e) current_slot)
      else case protocol_params of
        None \<Rightarrow> Ok ()
      | Some params \<Rightarrow>
          and_then (entry_ex_units c e) (\<lambda>total_ex_units.
          and_then (map_err lift_ledger_error
                      (validate_tx_size params (of_nat (length (me_body e))))) (\<lambda>_.
          and_then (case total_ex_units of
                      None \<Rightarrow> Ok ()
                    | Some eu \<Rightarrow> map_err lift_ledger_error (validate_tx_ex_units params eu)) (\<lambda>_.
          map_err lift_ledger_error
            (validate_fee params (of_nat (length (me_body e))) total_ex_units (me_fee e))))))"

definition insert_checked ::
    "'tx tx_codec \<Rightarrow> mempool \<Rightarrow> mempool_entry \<Rightarrow> slot_no \<Rightarrow> protocol_parameters option \<Rightarrow>
     mempool \<times> (mempool_error, unit) result" where
  "insert_checked c m e current_slot protocol_params =
     (case precheck_ttl_and_params c e current_slot protocol_params of
        Ok _ \<Rightarrow> mempool_insert m e
      | Err err \<Rightarrow> (m, Err err)
      | Panic \<Rightarrow> (m, Panic))"

definition insert_checked_with_eviction ::
    "'tx tx_codec \<Rightarrow> mempool \<Rightarrow> mempool_entry \<Rightarrow> slot_no \<Rightarrow> protocol_parameters option \<Rightarrow>
     mempool \<times> (mempool_error, tx_id list) result" where
  "insert_checked_with_eviction c m e current_slot protocol_params =
     (case precheck_ttl_and_params c e current_slot protocol_params of
        Ok _ \<Rightarrow> insert_with_eviction m e
      | Err err \<Rightarrow> (m, Err err)
      | Panic \<Rightarrow> (m, Panic))"

text \<open>
  \<open>invalid_for_params\<close> is the disjunction of \<open>purge_invalid_for_params\<close>, evaluated from left to
  right; an entry that panics there takes the process down, whatever the loop did before.
\<close>

definition is_err_or :: "('e, 'a) result \<Rightarrow> ('f, bool) result \<Rightarrow> ('f, bool) result" where
  "is_err_or r rest = (case r of Err _ \<Rightarrow> Ok True | Ok _ \<Rightarrow> rest | Panic \<Rightarrow> Panic)"

definition invalid_for_params ::
    "'tx tx_codec \<Rightarrow> protocol_parameters \<Rightarrow> mempool_entry \<Rightarrow> (mempool_error, bool) result" where
  "invalid_for_params c params e =
     and_then (entry_ex_units c e) (\<lambda>total_ex_units.
       is_err_or (validate_tx_size params (of_nat (length (me_body e))))
         (is_err_or (case total_ex_units of
                       None \<Rightarrow> Ok ()
                     | Some eu \<Rightarrow> validate_tx_ex_units params eu)
           (is_err_or (validate_fee params (of_nat (length (me_body e))) total_ex_units (me_fee e))
             (Ok False))))"

definition purge_invalid_for_params ::
    "'tx tx_codec \<Rightarrow> mempool \<Rightarrow> slot_no \<Rightarrow> protocol_parameters \<Rightarrow>
     (mempool_error, nat \<times> mempool) result" where
  "purge_invalid_for_params c m current_slot params =
     (if list_ex (\<lambda>x. \<not> current_slot > me_ttl (ix_entry x) \<and>
                      invalid_for_params c params (ix_entry x) = Panic) (mp_entries m)
      then Panic
      else Ok (retain (\<lambda>e. \<not> current_slot > me_ttl e \<and>
                           invalid_for_params c params e = Ok False) m))"


section \<open>Snapshots\<close>

record mempool_snapshot =
  sn_entries :: "indexed_mempool_entry list"
  sn_tx_id_to_pos :: "tx_id \<rightharpoonup> nat"
  sn_idx_to_pos :: "int \<rightharpoonup> nat"

definition snapshot :: "mempool \<Rightarrow> mempool_snapshot" where
  "snapshot m =
     (let es = mp_entries m
      in \<lparr>sn_entries = es,
          sn_tx_id_to_pos =
            foldl (\<lambda>f (pos, x). f(ix_tx_id x \<mapsto> pos)) Map.empty (enumerate 0 es),
          sn_idx_to_pos =
            foldl (\<lambda>f (pos, x). f(ix_idx x \<mapsto> pos)) Map.empty (enumerate 0 es)\<rparr>)"

definition snapshot_get :: "mempool_snapshot \<Rightarrow> nat \<Rightarrow> mempool_entry option" where
  "snapshot_get s pos =
     (if pos < length (sn_entries s) then Some (ix_entry (sn_entries s ! pos)) else None)"

definition mempool_txids_after :: "mempool_snapshot \<Rightarrow> int \<Rightarrow> (tx_id \<times> int \<times> u64) list" where
  "mempool_txids_after s idx =
     sort_key (\<lambda>(_, next_idx, _). next_idx)
       (map (\<lambda>x. (ix_tx_id x, ix_idx x, ix_size x)) (filter (\<lambda>x. ix_idx x > idx) (sn_entries s)))"

definition mempool_lookup_tx :: "mempool_snapshot \<Rightarrow> int \<Rightarrow> mempool_entry option" where
  "mempool_lookup_tx s idx = Option.bind (sn_idx_to_pos s idx) (snapshot_get s)"

definition mempool_has_tx :: "mempool_snapshot \<Rightarrow> tx_id \<Rightarrow> bool" where
  "mempool_has_tx s t \<longleftrightarrow> sn_tx_id_to_pos s t \<noteq> None"

definition mempool_lookup_tx_by_id :: "mempool_snapshot \<Rightarrow> tx_id \<Rightarrow> mempool_entry option" where
  "mempool_lookup_tx_by_id s t = Option.bind (sn_tx_id_to_pos s t) (snapshot_get s)"

end
