(* ===== verification/MempoolProps.thy ===== *)
theory MempoolProps
  imports Mempool "HOL-Library.Multiset"
begin

text \<open>
  Correctness of the mempool: the invariant that ties the five fields of the queue together, its
  preservation by every operation, and what admission, eviction, the purges and the snapshots do.
\<close>

section \<open>The invariant\<close>

text \<open>Entries are ordered by descending fee, and by arrival among equal fees.\<close>

definition fee_before :: "indexed_mempool_entry \<Rightarrow> indexed_mempool_entry \<Rightarrow> bool" where
  "fee_before a b \<longleftrightarrow>
     ix_fee b < ix_fee a \<or> ix_fee a = ix_fee b \<and> ix_idx a < ix_idx b"

definition total_bytes :: "indexed_mempool_entry list \<Rightarrow> nat" where
  "total_bytes xs = sum_list (map (\<lambda>x. unat (ix_size x)) xs)"

definition total_fees :: "indexed_mempool_entry list \<Rightarrow> nat" where
  "total_fees xs = sum_list (map (\<lambda>x. unat (ix_fee x)) xs)"

text \<open>The claims are exactly the inputs of the entries, each with the transaction that spends it.\<close>

definition claims_exact :: "indexed_mempool_entry list \<Rightarrow> (tx_in \<rightharpoonup> tx_id) \<Rightarrow> bool" where
  "claims_exact xs claimed \<longleftrightarrow>
     (\<forall>i t. claimed i = Some t \<longleftrightarrow> (\<exists>x\<in>set xs. i \<in> set (ix_inputs x) \<and> t = ix_tx_id x))"

definition mempool_inv :: "mempool \<Rightarrow> bool" where
  "mempool_inv m \<longleftrightarrow>
     sorted_wrt fee_before (mp_entries m) \<and>
     distinct (map ix_tx_id (mp_entries m)) \<and>
     mp_tx_ids m = ix_tx_id ` set (mp_entries m) \<and>
     unat (mp_current_bytes m) = total_bytes (mp_entries m) \<and>
     claims_exact (mp_entries m) (mp_claimed_inputs m) \<and>
     (mp_max_bytes m > 0 \<longrightarrow> mp_current_bytes m \<le> mp_max_bytes m) \<and>
     (\<forall>x\<in>set (mp_entries m). 0 \<le> ix_idx x \<and> ix_idx x < mp_next_idx m) \<and>
     distinct (map ix_idx (mp_entries m)) \<and>
     0 \<le> mp_next_idx m \<and> mp_next_idx m < 2 ^ 63"

lemma total_bytes_simps [simp]:
  "total_bytes [] = 0"
  "total_bytes (x # xs) = unat (ix_size x) + total_bytes xs"
  "total_bytes (xs @ ys) = total_bytes xs + total_bytes ys"
  by (simp_all add: total_bytes_def)

lemma total_fees_simps [simp]:
  "total_fees [] = 0"
  "total_fees (x # xs) = unat (ix_fee x) + total_fees xs"
  "total_fees (xs @ ys) = total_fees xs + total_fees ys"
  by (simp_all add: total_fees_def)

lemma mempool_inv_with_capacity: "mempool_inv (with_capacity n)"
  by (simp add: mempool_inv_def with_capacity_def claims_exact_def)

text \<open>Two different resident transactions never spend the same output.\<close>

lemma claims_disjoint:
  assumes "claims_exact xs c" "distinct (map ix_tx_id xs)"
    and "x \<in> set xs" "y \<in> set xs" "i \<in> set (ix_inputs x)" "i \<in> set (ix_inputs y)"
  shows "x = y"
proof -
  have "c i = Some (ix_tx_id x)" "c i = Some (ix_tx_id y)"
    using assms unfolding claims_exact_def by blast+
  then show ?thesis using assms(2-4) by (auto simp: distinct_map inj_on_def)
qed


section \<open>Removing an entry\<close>

lemma release_inputs_apply: "release_inputs is c i = (if i \<in> set is then None else c i)"
  unfolding release_inputs_def by (induction "is" arbitrary: c) auto

lemma claims_exact_remove:
  assumes "claims_exact (ys @ x # zs) c" "distinct (map ix_tx_id (ys @ x # zs))"
  shows "claims_exact (ys @ zs) (release_inputs (ix_inputs x) c)"
  unfolding claims_exact_def
proof (intro allI)
  fix i t
  have other: "i \<notin> set (ix_inputs x)" if "y \<in> set (ys @ zs)" "i \<in> set (ix_inputs y)" for y
  proof
    assume "i \<in> set (ix_inputs x)"
    then have "x = y" using claims_disjoint [OF assms, of x y i] that by auto
    then show False using that(1) assms(2) by auto
  qed
  have "c i = Some t \<longleftrightarrow> (\<exists>y\<in>set (ys @ x # zs). i \<in> set (ix_inputs y) \<and> t = ix_tx_id y)"
    using assms(1) unfolding claims_exact_def by blast
  with other show "release_inputs (ix_inputs x) c i = Some t \<longleftrightarrow>
      (\<exists>y\<in>set (ys @ zs). i \<in> set (ix_inputs y) \<and> t = ix_tx_id y)"
    by (auto simp: release_inputs_apply)
qed

text \<open>Both subtractions the code uses are exact when nothing is borrowed.\<close>

definition exact_sub :: "(u64 \<Rightarrow> u64 \<Rightarrow> u64) \<Rightarrow> bool" where
  "exact_sub sub \<longleftrightarrow> (\<forall>a b. b \<le> a \<longrightarrow> sub a b = a - b)"

lemma exact_sub_intros [simp, intro]: "exact_sub (-)" "exact_sub saturating_sub"
  by (simp_all add: exact_sub_def saturating_sub_def)

lemma detach_entry_split:
  assumes "mp_entries m = ys @ x # zs" "length ys = i"
  shows "detach_entry sub i m =
    (x, m\<lparr>mp_entries := ys @ zs, mp_current_bytes := sub (mp_current_bytes m) (ix_size x),
          mp_claimed_inputs := release_inputs (ix_inputs x) (mp_claimed_inputs m),
          mp_tx_ids := mp_tx_ids m - {ix_tx_id x}\<rparr>)"
  using assms by (auto simp: detach_entry_def Let_def nth_append)

lemma mempool_inv_detach_split:
  assumes inv: "mempool_inv m" and sub: "exact_sub sub"
    and sp: "mp_entries m = ys @ x # zs" "length ys = i"
  shows "mempool_inv (snd (detach_entry sub i m))"
proof -
  have b: "unat (mp_current_bytes m) = unat (ix_size x) + total_bytes (ys @ zs)"
    using inv sp(1) by (simp add: mempool_inv_def)
  then have le: "ix_size x \<le> mp_current_bytes m" by (simp add: word_le_nat_alt)
  have cur: "unat (sub (mp_current_bytes m) (ix_size x)) = total_bytes (ys @ zs)"
    using sub le b by (simp add: exact_sub_def unat_sub_le)
  then have le': "sub (mp_current_bytes m) (ix_size x) \<le> mp_current_bytes m"
    using b by (simp add: word_le_nat_alt)
  have cl: "claims_exact (ys @ zs) (release_inputs (ix_inputs x) (mp_claimed_inputs m))"
    using inv sp(1) claims_exact_remove unfolding mempool_inv_def by metis
  have so: "sorted_wrt fee_before (ys @ zs)"
    using inv sp(1) sorted_wrt_remove unfolding mempool_inv_def by metis
  show ?thesis
    unfolding detach_entry_split [OF sp] mempool_inv_def
    using inv sp(1) cur le' cl so unfolding mempool_inv_def by (auto simp: image_Un)
qed

lemma mempool_inv_detach:
  assumes "mempool_inv m" "exact_sub sub" "i < length (mp_entries m)"
  shows "mempool_inv (snd (detach_entry sub i m))"
  by (rule mempool_inv_detach_split [OF assms(1,2) id_take_nth_drop [OF assms(3)]])
    (use assms(3) in simp)



section \<open>Admission\<close>

lemma first_conflict_None_iff: "first_conflict c is = None \<longleftrightarrow> (\<forall>i\<in>set is. c i = None)"
  by (induction "is") (auto split: option.splits)

lemma first_conflict_SomeD: "first_conflict c is = Some t \<Longrightarrow> \<exists>i\<in>set is. c i = Some t"
  by (induction "is") (auto split: option.splits)

lemma claim_inputs_apply: "claim_inputs is t c i = (if i \<in> set is then Some t else c i)"
  unfolding claim_inputs_def by (induction "is" arbitrary: c) auto

lemma insert_check_Ok_iff:
  "insert_check m e = Ok nb \<longleftrightarrow>
     me_tx_id e \<notin> mp_tx_ids m \<and> (\<forall>i\<in>set (me_inputs e). mp_claimed_inputs m i = None) \<and>
     checked_add (mp_current_bytes m) (me_size_bytes e) = Some nb \<and>
     (mp_max_bytes m > 0 \<longrightarrow> nb \<le> mp_max_bytes m)"
  by (auto simp: insert_check_def Let_def first_conflict_None_iff [symmetric]
      split: option.splits if_splits)

lemma insert_check_no_Panic [simp]: "insert_check m e \<noteq> Panic"
  by (auto simp: insert_check_def Let_def split: option.splits)

lemma fee_before_sorted_key:
  "sorted_wrt fee_before xs \<Longrightarrow> sorted (map (\<lambda>x. - uint (ix_fee x)) xs)"
  unfolding sorted_map
  by (erule sorted_wrt_mono_rel [rotated]) (auto simp: fee_before_def word_less_def)

lemma sort_by_fee_snoc:
  assumes "sorted_wrt fee_before xs"
  shows "sort_by_fee (xs @ [x]) =
    takeWhile (\<lambda>y. ix_fee x \<le> ix_fee y) xs @ x # dropWhile (\<lambda>y. ix_fee x \<le> ix_fee y) xs"
  using sort_key_snoc [OF fee_before_sorted_key [OF assms], of x]
  by (simp add: sort_by_fee_def word_le_def)

lemma sort_by_fee_sorted:
  assumes "sorted_wrt fee_before xs" "\<forall>y\<in>set xs. ix_idx y < ix_idx x"
  shows "sorted_wrt fee_before (sort_by_fee (xs @ [x]))"
proof -
  let ?P = "\<lambda>y. ix_fee x \<le> ix_fee y"
  have "sorted_wrt fee_before (takeWhile ?P xs @ dropWhile ?P xs)" using assms(1) by simp
  moreover have "fee_before y x" if "y \<in> set (takeWhile ?P xs)" for y
    using that assms(2) set_takeWhileD [OF that] by (auto simp: fee_before_def)
  moreover have "fee_before x y" if "y \<in> set (dropWhile ?P xs)" for y
  proof -
    have "\<not> ?P y"
      by (rule sorted_wrt_dropWhile_all [OF assms(1) _ that]) (auto simp: fee_before_def)
    then show ?thesis by (simp add: fee_before_def not_le)
  qed
  ultimately show ?thesis
    unfolding sort_by_fee_snoc [OF assms(1)] sorted_wrt_append by auto
qed

lemma set_sort_by_fee [simp]: "set (sort_by_fee xs) = set xs"
  by (simp add: sort_by_fee_def)

lemma mset_sort_by_fee: "mset (sort_by_fee xs) = mset xs"
  by (simp add: sort_by_fee_def)

lemma distinct_map_mset: "mset xs = mset ys \<Longrightarrow> distinct (map f xs) \<longleftrightarrow> distinct (map f ys)"
  by (metis mset_eq_imp_distinct_iff mset_map)

lemma total_bytes_mset: "mset xs = mset ys \<Longrightarrow> total_bytes xs = total_bytes ys"
  unfolding total_bytes_def by (metis mset_map sum_mset_sum_list)

lemma total_fees_mset: "mset xs = mset ys \<Longrightarrow> total_fees xs = total_fees ys"
  unfolding total_fees_def by (metis mset_map sum_mset_sum_list)

lemma wrap_i64_id: "0 \<le> n \<Longrightarrow> n < 2 ^ 63 \<Longrightarrow> wrap_i64 n = n"
  by (simp add: wrap_i64_def)

lemma claims_exact_add:
  assumes "claims_exact xs c" "\<forall>i\<in>set (ix_inputs x). c i = None"
  shows "claims_exact (xs @ [x]) (claim_inputs (ix_inputs x) (ix_tx_id x) c)"
  unfolding claims_exact_def
proof (intro allI)
  fix i t
  have c: "c i = Some t \<longleftrightarrow> (\<exists>y\<in>set xs. i \<in> set (ix_inputs y) \<and> t = ix_tx_id y)"
    using assms(1) unfolding claims_exact_def by blast
  have "i \<notin> set (ix_inputs y)" if "i \<in> set (ix_inputs x)" "y \<in> set xs" for y
    using assms that unfolding claims_exact_def by (metis option.distinct(1))
  with c show "claim_inputs (ix_inputs x) (ix_tx_id x) c i = Some t \<longleftrightarrow>
      (\<exists>y\<in>set (xs @ [x]). i \<in> set (ix_inputs y) \<and> t = ix_tx_id y)"
    by (auto simp: claim_inputs_apply)
qed

lemma mempool_inv_push:
  assumes inv: "mempool_inv m" and chk: "insert_check m e = Ok nb"
    and idx: "mp_next_idx m < 2 ^ 63 - 1"
  shows "mempool_inv (push_entry m e nb)"
proof -
  let ?x = "\<lparr>ix_idx = mp_next_idx m, ix_entry = e\<rparr>"
  let ?es = "mp_entries m"
  have c: "me_tx_id e \<notin> mp_tx_ids m" "\<forall>i\<in>set (me_inputs e). mp_claimed_inputs m i = None"
    "checked_add (mp_current_bytes m) (me_size_bytes e) = Some nb"
    "mp_max_bytes m > 0 \<longrightarrow> nb \<le> mp_max_bytes m"
    using chk by (simp_all add: insert_check_Ok_iff)
  have so: "sorted_wrt fee_before (sort_by_fee (?es @ [?x]))"
    using inv by (intro sort_by_fee_sorted) (auto simp: mempool_inv_def)
  have nb: "unat nb = total_bytes (?es @ [?x])"
    using c(3) inv unat_add_no_overflow [of "mp_current_bytes m" "me_size_bytes e"]
    by (simp add: checked_add_Some_iff mempool_inv_def)
  have ids: "distinct (map ix_tx_id (?es @ [?x]))" "distinct (map ix_idx (?es @ [?x]))"
    using inv c(1) by (auto simp: mempool_inv_def)
  have cl: "claims_exact (?es @ [?x]) (claim_inputs (me_inputs e) (me_tx_id e) (mp_claimed_inputs m))"
    using inv c(2) claims_exact_add [of ?es "mp_claimed_inputs m" ?x] by (simp add: mempool_inv_def)
  have wr: "wrap_i64 (mp_next_idx m + 1) = mp_next_idx m + 1"
    using inv idx by (intro wrap_i64_id) (simp_all add: mempool_inv_def)
  show ?thesis
    using inv c(4) so nb ids cl idx
      distinct_map_mset [OF mset_sort_by_fee, of ix_tx_id "?es @ [?x]"]
      distinct_map_mset [OF mset_sort_by_fee, of ix_idx "?es @ [?x]"]
      total_bytes_mset [OF mset_sort_by_fee, of "?es @ [?x]"]
    unfolding mempool_inv_def push_entry_def claims_exact_def by (auto simp: wr)
qed

lemma mempool_inv_insert:
  assumes "mempool_inv m" "mp_next_idx m < 2 ^ 63 - 1"
  shows "mempool_inv (fst (mempool_insert m e))"
  using assms mempool_inv_push by (auto simp: mempool_insert_def split: result.splits)

lemma mempool_insert_cases:
  obtains (Inserted) nb where "insert_check m e = Ok nb" "mempool_insert m e = (push_entry m e nb, Ok ())"
  | (Rejected) err where "insert_check m e = Err err" "mempool_insert m e = (m, Err err)"
  by (cases "insert_check m e") (auto simp: mempool_insert_def)



section \<open>Eviction\<close>

lemma saturating_min: "min (min a (b - 1) + c) (b - 1) = min (a + c) (b - 1 :: nat)"
  by (simp add: min_def)

text \<open>
  The scan from the tail collects a suffix \<open>zs\<close> of the entries, all with a strictly lower fee, and
  stops as soon as their bytes suffice.
\<close>

lemma evict_scan_spec:
  assumes "evict_scan needed fee (rev (enumerate 0 us)) (fb, ef, rev [length us..<length (us @ zs)])
      = (fb', ef', idxs)"
    and "unat fb = min (total_bytes zs) (2 ^ 64 - 1)" "unat ef = min (total_fees zs) (2 ^ 64 - 1)"
    and "\<forall>x\<in>set zs. ix_fee x < fee" "fb < needed"
  shows "\<exists>ys vs. us = ys @ vs \<and> idxs = rev [length ys..<length (us @ zs)] \<and>
    unat fb' = min (total_bytes (vs @ zs)) (2 ^ 64 - 1) \<and>
    unat ef' = min (total_fees (vs @ zs)) (2 ^ 64 - 1) \<and>
    (\<forall>x\<in>set (vs @ zs). ix_fee x < fee) \<and>
    (vs @ zs \<noteq> [] \<longrightarrow> min (total_bytes (tl (vs @ zs))) (2 ^ 64 - 1) < unat needed)"
  using assms
proof (induction us arbitrary: zs fb ef rule: rev_induct)
  case Nil
  have "total_bytes (tl zs) \<le> total_bytes zs" by (cases zs) simp_all
  with Nil show ?case
    by (intro exI [of _ "[]"]) (auto simp: word_less_nat_alt)
next
  case (snoc u us)
  have unf: "evict_scan needed fee (rev (enumerate 0 (us @ [u]))) (fb, ef, idx) =
      (if ix_fee u \<ge> fee then (fb, ef, idx)
       else let acc = (saturating_add fb (ix_size u), saturating_add ef (ix_fee u), idx @ [length us])
            in if fst acc \<ge> needed then acc else evict_scan needed fee (rev (enumerate 0 us)) acc)"
    for idx
    by (simp add: enumerate_append_eq)
  have idx: "rev [length (us @ [u])..<length ((us @ [u]) @ zs)] @ [length us] =
      rev [length us..<length (us @ u # zs)]"
    by (simp add: upt_conv_Cons del: upt_Suc)
  have fb': "unat (saturating_add fb (ix_size u)) = min (total_bytes (u # zs)) (2 ^ 64 - 1)"
    using snoc.prems(2) by (simp add: unat_saturating_add)
  have ef': "unat (saturating_add ef (ix_fee u)) = min (total_fees (u # zs)) (2 ^ 64 - 1)"
    using snoc.prems(3) by (simp add: unat_saturating_add)
  consider (stop) "ix_fee u \<ge> fee"
    | (enough) "ix_fee u < fee" "saturating_add fb (ix_size u) \<ge> needed"
    | (more) "ix_fee u < fee" "saturating_add fb (ix_size u) < needed"
    by fastforce
  then show ?case
  proof cases
    case stop
    have "total_bytes (tl zs) \<le> total_bytes zs" by (cases zs) simp_all
    with stop snoc.prems show ?thesis unfolding unf
      by - (rule exI [of _ "us @ [u]"], rule exI [of _ "[]"], auto simp: word_less_nat_alt)
  next
    case enough
    then have "fb' = saturating_add fb (ix_size u)" "ef' = saturating_add ef (ix_fee u)"
        "idxs = rev [length us..<length (us @ u # zs)]"
      using snoc.prems(1) unfolding unf idx by (simp_all add: Let_def not_le [symmetric])
    with snoc.prems enough(1) fb' ef' show ?thesis
      by - (rule exI [of _ us], rule exI [of _ "[u]"], simp add: word_less_nat_alt del: upt_Suc)
  next
    case more
    then have "evict_scan needed fee (rev (enumerate 0 us))
        (saturating_add fb (ix_size u), saturating_add ef (ix_fee u),
         rev [length us..<length (us @ u # zs)]) = (fb', ef', idxs)"
      using snoc.prems(1) unfolding unf idx by (simp add: Let_def not_le [symmetric] del: upt_Suc)
    from snoc.IH [OF this fb' ef' _ more(2)] more(1) snoc.prems(4) obtain ys vs where
      "us = ys @ vs \<and> idxs = rev [length ys..<length (us @ u # zs)] \<and>
       unat fb' = min (total_bytes (vs @ u # zs)) (2 ^ 64 - 1) \<and>
       unat ef' = min (total_fees (vs @ u # zs)) (2 ^ 64 - 1) \<and>
       (\<forall>x\<in>set (vs @ u # zs). ix_fee x < fee) \<and>
       (vs @ u # zs \<noteq> [] \<longrightarrow> min (total_bytes (tl (vs @ u # zs))) (2 ^ 64 - 1) < unat needed)"
      by auto
    then show ?thesis by - (rule exI [of _ ys], rule exI [of _ "vs @ [u]"], simp add: add.assoc del: upt_Suc)
  qed
qed

lemma evict_all_spec:
  assumes "mempool_inv m" "mp_entries m = ys @ zs"
  shows "\<exists>m'. evict_all (rev [length ys..<length (ys @ zs)]) (m, ids) =
      (m', ids @ rev (map ix_tx_id zs)) \<and> mempool_inv m' \<and> mp_entries m' = ys \<and>
      mp_max_bytes m' = mp_max_bytes m \<and> mp_next_idx m' = mp_next_idx m"
  using assms
proof (induction zs arbitrary: m ids rule: rev_induct)
  case Nil
  then show ?case by simp
next
  case (snoc z zs)
  define i where "i = length (ys @ zs)"
  have sp: "mp_entries m = (ys @ zs) @ z # []" "length (ys @ zs) = i"
    using snoc.prems(2) by (simp_all add: i_def)
  note d = detach_entry_split [OF sp, of saturating_sub]
  define m1 where "m1 = snd (detach_entry saturating_sub i m)"
  have m1: "mempool_inv m1" "mp_entries m1 = ys @ zs"
    "mp_max_bytes m1 = mp_max_bytes m" "mp_next_idx m1 = mp_next_idx m"
    unfolding m1_def using mempool_inv_detach_split [OF snoc.prems(1) exact_sub_intros(2) sp]
    by (simp_all add: d)
  have "rev [length ys..<length (ys @ zs @ [z])] = i # rev [length ys..<length (ys @ zs)]"
    by (simp add: i_def)
  then have "evict_all (rev [length ys..<length (ys @ zs @ [z])]) (m, ids) =
      evict_all (rev [length ys..<length (ys @ zs)]) (m1, ids @ [ix_tx_id z])"
    by (simp add: m1_def d)
  with snoc.IH [OF m1(1,2), of "ids @ [ix_tx_id z]"] m1(3,4) show ?case by auto
qed


lemma saturating_sub_needed:
  assumes "checked_add c sz = Some p" "\<not> p \<le> mx"
  shows "unat (saturating_sub (c + sz) mx) = unat c + unat sz - unat mx"
    and "0 < saturating_sub (c + sz) mx"
proof -
  have p: "p = c + sz" "unat p = unat c + unat sz"
    using assms(1) unat_add_no_overflow [of c sz] by (simp_all add: checked_add_Some_iff)
  show "unat (saturating_sub (c + sz) mx) = unat c + unat sz - unat mx"
    using p by (simp add: unat_saturating_sub)
  then show "0 < saturating_sub (c + sz) mx"
    using assms(2) p by (simp add: word_less_nat_alt word_le_nat_alt)
qed

text \<open>
  What a committed eviction did: a suffix \<open>zs\<close> of the queue went out, and the insertion that
  follows cannot fail.
\<close>

lemma eviction_commit:
  assumes inv: "mempool_inv m" and es: "mp_entries m = ys @ zs"
    and fresh: "me_tx_id e \<notin> mp_tx_ids m"
      "\<forall>i\<in>set (me_inputs e). mp_claimed_inputs m i = None"
    and fits: "total_bytes ys + unat (me_size_bytes e) \<le> unat (mp_max_bytes m)"
  shows "\<exists>m' nb. evict_all (rev [length ys..<length (ys @ zs)]) (m, []) =
      (m', rev (map ix_tx_id zs)) \<and> mempool_inv m' \<and> mp_entries m' = ys \<and>
      mp_next_idx m' = mp_next_idx m \<and> mp_max_bytes m' = mp_max_bytes m \<and>
      insert_check m' e = Ok nb"
proof -
  obtain m' where m': "evict_all (rev [length ys..<length (ys @ zs)]) (m, []) =
      (m', rev (map ix_tx_id zs))" "mempool_inv m'" "mp_entries m' = ys"
      "mp_max_bytes m' = mp_max_bytes m" "mp_next_idx m' = mp_next_idx m"
    using evict_all_spec [OF inv es, of "[]"] by auto
  have "me_tx_id e \<notin> mp_tx_ids m'"
    using fresh(1) m'(2,3) inv es by (auto simp: mempool_inv_def)
  moreover have "mp_claimed_inputs m' i = None" if "i \<in> set (me_inputs e)" for i
  proof (rule ccontr)
    assume "mp_claimed_inputs m' i \<noteq> None"
    then obtain x where "x \<in> set ys" "i \<in> set (ix_inputs x)"
      using m'(2,3) unfolding mempool_inv_def claims_exact_def by auto
    then have "mp_claimed_inputs m i = Some (ix_tx_id x)"
      using inv es unfolding mempool_inv_def claims_exact_def by auto
    with fresh(2) that show False by simp
  qed
  moreover have "unat (mp_current_bytes m') = total_bytes ys" using m'(2,3) by (simp add: mempool_inv_def)
  then have "checked_add (mp_current_bytes m') (me_size_bytes e) =
        Some (mp_current_bytes m' + me_size_bytes e)"
      "mp_current_bytes m' + me_size_bytes e \<le> mp_max_bytes m'"
    using fits m'(4) le_unat_lt [of "total_bytes ys + unat (me_size_bytes e)" "mp_max_bytes m"]
      unat_add_no_overflow [of "mp_current_bytes m'" "me_size_bytes e"]
    by (simp_all add: checked_add_Some_iff word_le_nat_alt)
  ultimately have "insert_check m' e = Ok (mp_current_bytes m' + me_size_bytes e)"
    by (simp add: insert_check_Ok_iff)
  with m' show ?thesis by blast
qed

lemma eviction_numbers:
  fixes fb ef fee needed :: u64
  assumes inv: "mempool_inv m" and es: "mp_entries m = ys @ zs"
    and fb: "unat fb = min (total_bytes zs) (2 ^ 64 - 1)"
    and ef: "unat ef = min (total_fees zs) (2 ^ 64 - 1)"
    and tl: "zs \<noteq> [] \<longrightarrow> min (total_bytes (tl zs)) (2 ^ 64 - 1) < unat needed"
    and nd: "unat needed = unat (mp_current_bytes m) + unat sz - unat (mp_max_bytes m)"
    and big: "\<not> (mp_max_bytes m = 0 \<or> p \<le> mp_max_bytes m)"
    and p: "checked_add (mp_current_bytes m) sz = Some p"
    and go: "\<not> fb < needed" "\<not> fee \<le> ef"
  shows "zs \<noteq> []" "total_fees zs < unat fee" "total_bytes ys + unat sz \<le> unat (mp_max_bytes m)"
    "unat (mp_max_bytes m) < total_bytes (ys @ [hd zs]) + unat sz"
proof -
  have cur: "unat (mp_current_bytes m) = total_bytes ys + total_bytes zs"
    using inv es by (simp add: mempool_inv_def)
  have lt: "total_bytes zs \<le> 2 ^ 64 - 1"
    using le_unat_lt [of "total_bytes zs" "mp_current_bytes m"] cur by simp
  have gt: "unat (mp_max_bytes m) < unat (mp_current_bytes m) + unat sz"
    using p big unat_add_no_overflow [of "mp_current_bytes m" sz]
    by (simp add: checked_add_Some_iff word_le_nat_alt)
  have nb: "unat needed \<le> total_bytes zs" using go(1) fb lt by (simp add: word_less_nat_alt)
  then show ne: "zs \<noteq> []" using nd gt by auto
  show "total_bytes ys + unat sz \<le> unat (mp_max_bytes m)" using nb nd gt cur by linarith
  have "unat ef < unat fee" "unat fee \<le> 2 ^ 64 - 1"
    using go(2) by (simp_all add: word_le_nat_alt)
  then show "total_fees zs < unat fee" using ef by linarith
  have "total_bytes zs = unat (ix_size (hd zs)) + total_bytes (tl zs)" using ne by (cases zs) simp_all
  moreover from this have "total_bytes (tl zs) < unat needed" using tl ne lt by simp
  ultimately show "unat (mp_max_bytes m) < total_bytes (ys @ [hd zs]) + unat sz"
    using nd gt cur by simp
qed

text \<open>The three ways \<open>insert_with_eviction\<close> can end.\<close>

lemma insert_with_eviction_cases:
  assumes inv: "mempool_inv m"
  obtains (Rejected) err where "insert_with_eviction m e = (m, Err err)"
  | (Fits) nb where "insert_with_eviction m e = (push_entry m e nb, Ok [])"
      "insert_check m e = Ok nb"
  | (Evicts) ys zs m1 nb where "mp_entries m = ys @ zs" "zs \<noteq> []"
      "\<forall>x\<in>set zs. ix_fee x < me_fee e" "total_fees zs < unat (me_fee e)"
      "unat (mp_max_bytes m) < total_bytes (ys @ [hd zs]) + unat (me_size_bytes e)"
      "mempool_inv m1" "mp_entries m1 = ys" "mp_next_idx m1 = mp_next_idx m"
      "mp_max_bytes m1 = mp_max_bytes m" "insert_check m1 e = Ok nb"
      "insert_with_eviction m e = (push_entry m1 e nb, Ok (rev (map ix_tx_id zs)))"
proof (cases "\<exists>err. insert_with_eviction m e = (m, Err err)")
  case True
  then show thesis using Rejected by blast
next
  case False
  then have fresh: "me_tx_id e \<notin> mp_tx_ids m"
    by (auto simp: insert_with_eviction_def)
  with False have fresh2: "\<forall>i\<in>set (me_inputs e). mp_claimed_inputs m i = None"
    by (auto simp: insert_with_eviction_def first_conflict_None_iff [symmetric] split: option.splits)
  with False fresh obtain p where p: "checked_add (mp_current_bytes m) (me_size_bytes e) = Some p"
    by (auto simp: insert_with_eviction_def first_conflict_None_iff [symmetric] split: option.splits)
  note unf = insert_with_eviction_def [of m e] fresh fresh2 [folded first_conflict_None_iff] p
  show thesis
  proof (cases "mp_max_bytes m = 0 \<or> p \<le> mp_max_bytes m")
    case True
    have "insert_check m e = Ok p" using fresh fresh2 p True by (auto simp: insert_check_Ok_iff)
    then show thesis
      using True by (intro Fits) (auto simp: unf insert_then_def mempool_insert_def)
  next
    case big: False
    define needed where "needed = saturating_sub (mp_current_bytes m + me_size_bytes e) (mp_max_bytes m)"
    have nd: "unat needed = unat (mp_current_bytes m) + unat (me_size_bytes e) - unat (mp_max_bytes m)"
        "0 < needed"
      using saturating_sub_needed [OF p] big by (simp_all add: needed_def)
    obtain fb ef idxs where sc:
      "evict_scan needed (me_fee e) (rev (enumerate 0 (mp_entries m))) (0, 0, []) = (fb, ef, idxs)"
      by (metis prod.exhaust)
    from False big have go: "\<not> me_size_bytes e > mp_max_bytes m" "\<not> fb < needed" "\<not> me_fee e \<le> ef"
      by (auto simp: unf sc simp flip: needed_def split: if_splits)
    have "\<exists>ys vs. mp_entries m = ys @ vs \<and> idxs = rev [length ys..<length (mp_entries m @ [])] \<and>
        unat fb = min (total_bytes (vs @ [])) (2 ^ 64 - 1) \<and>
        unat ef = min (total_fees (vs @ [])) (2 ^ 64 - 1) \<and>
        (\<forall>x\<in>set (vs @ []). ix_fee x < me_fee e) \<and>
        (vs @ [] \<noteq> [] \<longrightarrow> min (total_bytes (tl (vs @ []))) (2 ^ 64 - 1) < unat needed)"
      by (rule evict_scan_spec [OF _ _ _ _ nd(2), of _ _ 0]) (simp_all add: sc)
    then obtain ys zs where "mp_entries m = ys @ zs \<and> idxs = rev [length ys..<length (mp_entries m)] \<and>
        unat fb = min (total_bytes zs) (2 ^ 64 - 1) \<and> unat ef = min (total_fees zs) (2 ^ 64 - 1) \<and>
        (\<forall>x\<in>set zs. ix_fee x < me_fee e) \<and>
        (zs \<noteq> [] \<longrightarrow> min (total_bytes (tl zs)) (2 ^ 64 - 1) < unat needed)"
      unfolding append_Nil2 by blast
    then have ev: "mp_entries m = ys @ zs" "idxs = rev [length ys..<length (ys @ zs)]"
        "unat fb = min (total_bytes zs) (2 ^ 64 - 1)" "unat ef = min (total_fees zs) (2 ^ 64 - 1)"
        "\<forall>x\<in>set zs. ix_fee x < me_fee e"
        "zs \<noteq> [] \<longrightarrow> min (total_bytes (tl zs)) (2 ^ 64 - 1) < unat needed"
      by simp_all
    note num = eviction_numbers [OF inv ev(1,3,4,6) nd(1) big p go(2,3)]
    obtain m1 nb where m1: "evict_all (rev [length ys..<length (ys @ zs)]) (m, []) =
        (m1, rev (map ix_tx_id zs))" "mempool_inv m1" "mp_entries m1 = ys"
        "mp_next_idx m1 = mp_next_idx m" "mp_max_bytes m1 = mp_max_bytes m" "insert_check m1 e = Ok nb"
      using eviction_commit [OF inv ev(1) fresh fresh2 num(3)] by blast
    have "rev (sort idxs) = rev [length ys..<length (ys @ zs)]"
      unfolding ev(2) by (simp add: properties_for_sort [of "[length ys..<length (ys @ zs)]"])
    then have "insert_with_eviction m e = (push_entry m1 e nb, Ok (rev (map ix_tx_id zs)))"
      using big go m1(1,6)
      by (simp add: unf sc insert_then_def mempool_insert_def flip: needed_def)
    with ev(1,5) num m1 show thesis by (intro Evicts)
  qed
qed



section \<open>Purges\<close>

text \<open>
  The purge loop computes a left-to-right scan: entries kept, entries dropped, final state of the
  predicate.
\<close>

fun keep_scan ::
    "('s \<Rightarrow> mempool_entry \<Rightarrow> bool \<times> 's) \<Rightarrow> 's \<Rightarrow> indexed_mempool_entry list \<Rightarrow>
     indexed_mempool_entry list \<times> nat \<times> 's" where
  "keep_scan keep st [] = ([], 0, st)"
| "keep_scan keep st (x # xs) =
     (let (k, st') = keep st (ix_entry x);
          (ks, n, st'') = keep_scan keep st' xs
      in if k then (x # ks, n, st'') else (ks, n + 1, st''))"

lemma keep_scan_filter:
  "keep_scan (\<lambda>_ e. (P e, ())) st xs =
     (filter (\<lambda>x. P (ix_entry x)) xs, length (filter (\<lambda>x. \<not> P (ix_entry x)) xs), ())"
  by (induction xs) (simp_all add: Let_def split: prod.splits)

lemma retain_loop_spec:
  assumes "mempool_inv m" "mp_entries m = ys @ zs" "length ys = i"
  shows "\<exists>m'. retain_loop keep st i m n =
      (m', n + fst (snd (keep_scan keep st zs)), snd (snd (keep_scan keep st zs))) \<and>
    mp_entries m' = ys @ fst (keep_scan keep st zs) \<and> mempool_inv m' \<and>
    mp_max_bytes m' = mp_max_bytes m \<and> mp_next_idx m' = mp_next_idx m"
  using assms
proof (induction zs arbitrary: m ys i st n)
  case Nil
  then show ?case by (subst retain_loop.simps) simp
next
  case (Cons z zs)
  obtain k st' where k: "keep st (ix_entry z) = (k, st')" by fastforce
  have nth: "i < length (mp_entries m)" "mp_entries m ! i = z"
    using Cons.prems(2,3) by (simp_all add: nth_append)
  show ?case
  proof (cases k)
    case True
    have "retain_loop keep st i m n = retain_loop keep st' (i + 1) m n"
      using nth k True by (subst retain_loop.simps) simp
    moreover have "mp_entries m = (ys @ [z]) @ zs" "length (ys @ [z]) = i + 1"
      using Cons.prems(2,3) by simp_all
    ultimately show ?thesis
      using Cons.IH [OF Cons.prems(1), of "ys @ [z]" "i + 1" st' n] k True
      by (auto simp: Let_def split: prod.splits)
  next
    case False
    let ?m1 = "snd (detach_entry (-) i m)"
    have "retain_loop keep st i m n = retain_loop keep st' i ?m1 (n + 1)"
      using nth k False by (subst retain_loop.simps) simp
    moreover have "mempool_inv ?m1"
      using mempool_inv_detach_split [OF Cons.prems(1) exact_sub_intros(1) Cons.prems(2,3)] .
    moreover have "mp_entries ?m1 = ys @ zs" "mp_max_bytes ?m1 = mp_max_bytes m"
        "mp_next_idx ?m1 = mp_next_idx m"
      by (simp_all add: detach_entry_split [OF Cons.prems(2,3)])
    ultimately show ?thesis
      using Cons.IH [of ?m1 ys i st' "n + 1"] Cons.prems(3) k False
      by (auto simp: Let_def split: prod.splits)
  qed
qed

lemma retain_spec:
  assumes "mempool_inv m"
  shows "\<exists>m'. retain P m = (length (filter (\<lambda>x. \<not> P (ix_entry x)) (mp_entries m)), m') \<and>
    mp_entries m' = filter (\<lambda>x. P (ix_entry x)) (mp_entries m) \<and> mempool_inv m' \<and>
    mp_max_bytes m' = mp_max_bytes m \<and> mp_next_idx m' = mp_next_idx m"
  using retain_loop_spec [OF assms, of "[]" _ 0 "\<lambda>_ e. (P e, ())" "()" 0]
  by (auto simp: retain_def keep_scan_filter)

lemma mempool_inv_retain: "mempool_inv m \<Longrightarrow> mempool_inv (snd (retain P m))"
  using retain_spec [of m P] by auto

lemma mempool_inv_purges:
  assumes "mempool_inv m"
  shows "mempool_inv (snd (remove_confirmed m ts))" "mempool_inv (snd (remove_conflicting_inputs m is))"
    "mempool_inv (snd (purge_expired m s))" "mempool_inv (snd (revalidate m s av))"
    "mempool_inv (fst (revalidate_with_ledger m validate st))"
    "purge_invalid_for_params c m s params = Ok r \<Longrightarrow> mempool_inv (snd r)"
  using assms mempool_inv_retain retain_loop_spec [OF assms, of "[]" _ 0 validate st 0]
  by (auto simp: remove_confirmed_def remove_conflicting_inputs_def purge_expired_def revalidate_def
      revalidate_with_ledger_def purge_invalid_for_params_def split: if_splits)

lemma mempool_inv_pop_best: "mempool_inv m \<Longrightarrow> mempool_inv (snd (pop_best m))"
  using mempool_inv_detach [of m "(-)" 0]
  by (auto simp: pop_best_def split: prod.splits)

lemma mempool_inv_remove_by_id:
  assumes "mempool_inv m"
  shows "mempool_inv (snd (remove_by_id m t))"
proof (cases "position (\<lambda>x. ix_tx_id x = t) (mp_entries m)")
  case None
  then have "t \<notin> mp_tx_ids m" using assms by (auto simp: mempool_inv_def)
  then show ?thesis using assms by (simp add: remove_by_id_def)
next
  case (Some pos)
  then show ?thesis
    using assms mempool_inv_detach [OF assms exact_sub_intros(1) position_Some_lt [OF Some]]
    by (simp add: remove_by_id_def)
qed

lemma mempool_inv_insert_with_eviction:
  assumes "mempool_inv m" "mp_next_idx m < 2 ^ 63 - 1"
  shows "mempool_inv (fst (insert_with_eviction m e))"
  by (rule insert_with_eviction_cases [OF assms(1), of e])
    (use assms mempool_inv_push in auto)



section \<open>Runs of the mempool\<close>

text \<open>
  One step per operation. The codec and the type of the ledger state that \<open>revalidate_with_ledger\<close>
  threads are parameters. The two insertions require that the \<open>i64\<close> index counter is not exhausted.
\<close>

inductive mempool_step :: "'tx tx_codec \<Rightarrow> 's itself \<Rightarrow> mempool \<Rightarrow> mempool \<Rightarrow> bool"
  for c :: "'tx tx_codec" and ty :: "'s itself" where
  insert: "mp_next_idx m < 2 ^ 63 - 1 \<Longrightarrow> mempool_insert m e = (m', r) \<Longrightarrow> mempool_step c ty m m'"
| evict: "mp_next_idx m < 2 ^ 63 - 1 \<Longrightarrow> insert_with_eviction m e = (m', r') \<Longrightarrow> mempool_step c ty m m'"
| insert_checked: "mp_next_idx m < 2 ^ 63 - 1 \<Longrightarrow> insert_checked c m e s pp = (m', r) \<Longrightarrow>
    mempool_step c ty m m'"
| evict_checked: "mp_next_idx m < 2 ^ 63 - 1 \<Longrightarrow>
    insert_checked_with_eviction c m e s pp = (m', r') \<Longrightarrow> mempool_step c ty m m'"
| pop: "pop_best m = (best, m') \<Longrightarrow> mempool_step c ty m m'"
| remove: "remove_by_id m t = (found, m') \<Longrightarrow> mempool_step c ty m m'"
| confirmed: "remove_confirmed m ts = (n, m') \<Longrightarrow> mempool_step c ty m m'"
| conflicting: "remove_conflicting_inputs m is = (n, m') \<Longrightarrow> mempool_step c ty m m'"
| expired: "purge_expired m s = (n, m') \<Longrightarrow> mempool_step c ty m m'"
| revalidated: "revalidate m s av = (n, m') \<Longrightarrow> mempool_step c ty m m'"
| new_params: "purge_invalid_for_params c m s params = Ok (n, m') \<Longrightarrow> mempool_step c ty m m'"
| with_ledger: "revalidate_with_ledger m validate (st :: 's) = (m', n, st') \<Longrightarrow>
    mempool_step c ty m m'"

lemma mempool_inv_checked:
  assumes "mempool_inv m" "mp_next_idx m < 2 ^ 63 - 1"
  shows "mempool_inv (fst (insert_checked c m e s pp))"
    and "mempool_inv (fst (insert_checked_with_eviction c m e s pp))"
  using assms mempool_inv_insert mempool_inv_insert_with_eviction
  by (auto simp: insert_checked_def insert_checked_with_eviction_def split: result.splits)

lemmas mempool_inv_ops =
  mempool_inv_insert mempool_inv_insert_with_eviction mempool_inv_checked
  mempool_inv_pop_best mempool_inv_remove_by_id mempool_inv_purges

lemma mempool_step_inv: "mempool_step c ty m m' \<Longrightarrow> mempool_inv m \<Longrightarrow> mempool_inv m'"
  by (induction rule: mempool_step.induct) (metis fst_conv snd_conv mempool_inv_ops)+

lemma mempool_steps_inv: "(mempool_step c ty)\<^sup>*\<^sup>* m m' \<Longrightarrow> mempool_inv m \<Longrightarrow> mempool_inv m'"
  by (induction rule: rtranclp_induct) (auto intro: mempool_step_inv)

text \<open>
  C10. Mempool safety. Every mempool reached from an empty one by any sequence of its operations
  satisfies the invariant: identifiers and byte total agree with the entries, the claimed inputs
  are exactly the inputs of the entries, the capacity is respected, and the entries are ordered by
  descending fee, by arrival among equal fees. In particular no two resident transactions spend
  the same output.
\<close>
theorem mempool_safety:
  assumes "(mempool_step c ty)\<^sup>*\<^sup>* (with_capacity n) m"
  shows "mempool_inv m \<and>
    (\<nexists>x y i. x \<in> set (mp_entries m) \<and> y \<in> set (mp_entries m) \<and> x \<noteq> y \<and>
       i \<in> set (ix_inputs x) \<and> i \<in> set (ix_inputs y))"
proof -
  have inv: "mempool_inv m"
    using mempool_steps_inv [OF assms] mempool_inv_with_capacity by blast
  then have "claims_exact (mp_entries m) (mp_claimed_inputs m)" "distinct (map ix_tx_id (mp_entries m))"
    by (simp_all add: mempool_inv_def)
  from claims_disjoint [OF this] inv show ?thesis by blast
qed

definition demo_tx :: "u8 \<Rightarrow> u64 \<Rightarrow> u64 \<Rightarrow> mempool_entry" where
  "demo_tx n fee sz = \<lparr>me_era = Conway, me_tx_id = [n], me_fee = fee, me_body = [], me_raw_tx = [],
     me_size_bytes = sz, me_ttl = 100, me_inputs = [\<lparr>ti_transaction_id = [n], ti_index = 0\<rparr>]\<rparr>"

text \<open>A codec that decodes nothing.\<close>

definition demo_codec :: "unit tx_codec" where
  "demo_codec = \<lparr>txc_decode = \<lambda>_ _. Err CborUnexpectedEof, txc_era = \<lambda>_. Conway, txc_tx_id = \<lambda>_. [],
     txc_body_cbor = \<lambda>_. [], txc_raw_cbor = \<lambda>_. [], txc_inputs = \<lambda>_. [],
     txc_total_ex_units = \<lambda>_. None\<rparr>"

lemma demo_mempool_reachable:
  "(mempool_step c ty)\<^sup>*\<^sup>* (with_capacity 100)
     (fst (mempool_insert (fst (mempool_insert (with_capacity 100) (demo_tx 1 10 40)))
       (demo_tx 2 20 50)))"
proof -
  let ?m1 = "fst (mempool_insert (with_capacity 100) (demo_tx 1 10 40))"
  have "mempool_step c ty (with_capacity 100) ?m1"
    by (rule mempool_step.insert [OF _ prod.collapse [symmetric]]) (simp add: with_capacity_def)
  moreover have "mempool_step c ty ?m1 (fst (mempool_insert ?m1 (demo_tx 2 20 50)))"
    by (rule mempool_step.insert [OF _ prod.collapse [symmetric]])
      (simp add: with_capacity_def mempool_insert_def insert_check_def demo_tx_def
        push_entry_def checked_add_def wrap_i64_def)
  ultimately show ?thesis by simp
qed

theorem mempool_safety_witness:
  "mempool_inv (fst (mempool_insert (fst (mempool_insert (with_capacity 100) (demo_tx 1 10 40)))
     (demo_tx 2 20 50)))"
  using mempool_safety [OF demo_mempool_reachable [of demo_codec "TYPE(unit)"]] by blast


lemma mset_push_entry:
  "mset (mp_entries (push_entry m e nb)) =
     add_mset \<lparr>ix_idx = mp_next_idx m, ix_entry = e\<rparr> (mset (mp_entries m))"
  by (simp add: push_entry_def mset_sort_by_fee)

text \<open>
  C11. Eviction is atomic and worthwhile. If the insertion fails the mempool is unchanged, so the
  insertion that follows the evictions never fails. If it succeeds, the evicted transactions are a
  suffix of the fee-ordered queue, returned from the lowest fee up; each of them has a strictly
  lower fee than the new transaction and so has their sum, unless nothing was evicted; the others
  stay and the new one joins them; and no fewer would have done: had the best of the evicted
  transactions stayed, the new one would not have fitted.
\<close>
theorem insert_with_eviction_correct:
  assumes "mempool_inv m" and "insert_with_eviction m e = (m', r)"
  shows "case r of
      Ok ids \<Rightarrow> \<exists>ys zs. mp_entries m = ys @ zs \<and> ids = rev (map ix_tx_id zs) \<and>
        mset (mp_entries m') =
          add_mset \<lparr>ix_idx = mp_next_idx m, ix_entry = e\<rparr> (mset ys) \<and>
        (zs \<noteq> [] \<longrightarrow> (\<forall>x\<in>set zs. ix_fee x < me_fee e) \<and> total_fees zs < unat (me_fee e) \<and>
           unat (mp_max_bytes m) < total_bytes (ys @ [hd zs]) + unat (me_size_bytes e))
    | Err err \<Rightarrow> m' = m
    | Panic \<Rightarrow> False"
proof (rule insert_with_eviction_cases [OF assms(1), of e])
  fix nb
  assume "insert_with_eviction m e = (push_entry m e nb, Ok [])"
  with assms(2) show ?thesis
    by (auto simp: mset_push_entry intro!: exI [of _ "mp_entries m"])
next
  fix ys zs m1 nb
  assume ev: "mp_entries m = ys @ zs" "zs \<noteq> []" "\<forall>x\<in>set zs. ix_fee x < me_fee e"
    "total_fees zs < unat (me_fee e)"
    "unat (mp_max_bytes m) < total_bytes (ys @ [hd zs]) + unat (me_size_bytes e)"
    "mp_entries m1 = ys" "mp_next_idx m1 = mp_next_idx m"
    "insert_with_eviction m e = (push_entry m1 e nb, Ok (rev (map ix_tx_id zs)))"
  then have "m' = push_entry m1 e nb" "r = Ok (rev (map ix_tx_id zs))" using assms(2) by simp_all
  with ev show ?thesis
    by - (simp, rule exI [of _ ys], rule exI [of _ zs], simp add: mset_push_entry)
qed (use assms(2) in simp)

definition demo_mempool :: mempool where
  "demo_mempool =
     fst (mempool_insert (fst (mempool_insert (with_capacity 100) (demo_tx 1 10 40)))
       (demo_tx 2 20 50))"

lemma demo_mempool_inv: "mempool_inv demo_mempool"
  unfolding demo_mempool_def
  using mempool_steps_inv [OF demo_mempool_reachable [of demo_codec "TYPE(unit)"]]
    mempool_inv_with_capacity by blast

lemmas demo_evals =
  with_capacity_def mempool_insert_def insert_check_def push_entry_def sort_by_fee_def demo_tx_def
  checked_add_def wrap_i64_def claim_inputs_def

lemma demo_mempool_eval:
  "demo_mempool = \<lparr>
     mp_entries = [\<lparr>ix_idx = 1, ix_entry = demo_tx 2 20 50\<rparr>, \<lparr>ix_idx = 0, ix_entry = demo_tx 1 10 40\<rparr>],
     mp_max_bytes = 100, mp_current_bytes = 90, mp_next_idx = 2,
     mp_claimed_inputs = [\<lparr>ti_transaction_id = [1], ti_index = 0\<rparr> \<mapsto> [1],
       \<lparr>ti_transaction_id = [2], ti_index = 0\<rparr> \<mapsto> [2]],
     mp_tx_ids = {[2], [1]}\<rparr>"
  by (simp add: demo_mempool_def demo_evals)

lemma demo_eviction: "snd (insert_with_eviction demo_mempool (demo_tx 3 15 30)) = Ok [[1]]"
  by (simp add: demo_mempool_eval insert_with_eviction_def demo_evals enumerate_eq_zip
      saturating_sub_def saturating_add_def insert_then_def detach_entry_def release_inputs_def)

theorem insert_with_eviction_correct_witness:
  "\<exists>m'. insert_with_eviction demo_mempool (demo_tx 3 15 30) = (m', Ok [[1]]) \<and>
     length (mp_entries m') = length (mp_entries demo_mempool)"
proof -
  obtain m' where m': "insert_with_eviction demo_mempool (demo_tx 3 15 30) = (m', Ok [[1]])"
    using demo_eviction by (metis prod.collapse)
  from insert_with_eviction_correct [OF demo_mempool_inv m']
  obtain ys zs where ev: "mp_entries demo_mempool = ys @ zs" "[[1]] = rev (map ix_tx_id zs)"
      "mset (mp_entries m') =
        add_mset \<lparr>ix_idx = mp_next_idx demo_mempool, ix_entry = demo_tx 3 15 30\<rparr> (mset ys)"
    by auto
  have "length zs = 1" using arg_cong [OF ev(2), of length] by simp
  moreover have "length (mp_entries m') = Suc (length ys)" using arg_cong [OF ev(3), of size] by simp
  ultimately show ?thesis using m' ev(1) by simp
qed


section \<open>Revalidation against a ledger\<close>

text \<open>
  \<open>applies validate st xs st'\<close>: the entries of \<open>xs\<close> are accepted one after the other, which takes
  the ledger state from \<open>st\<close> to \<open>st'\<close>.
\<close>

fun applies ::
    "('s \<Rightarrow> mempool_entry \<Rightarrow> bool \<times> 's) \<Rightarrow> 's \<Rightarrow> indexed_mempool_entry list \<Rightarrow> 's \<Rightarrow> bool" where
  "applies validate st [] st' \<longleftrightarrow> st' = st"
| "applies validate st (x # xs) st' \<longleftrightarrow>
     fst (validate st (ix_entry x)) \<and> applies validate (snd (validate st (ix_entry x))) xs st'"

lemma keep_scan_applies:
  assumes "\<And>st e. \<not> fst (validate st e) \<Longrightarrow> snd (validate st e) = st"
  shows "applies validate st (fst (keep_scan validate st xs)) (snd (snd (keep_scan validate st xs)))"
proof (induction xs arbitrary: st)
  case (Cons x xs)
  obtain k st1 where v: "validate st (ix_entry x) = (k, st1)" by fastforce
  obtain ks n st2 where s: "keep_scan validate st1 xs = (ks, n, st2)" by (metis prod.exhaust)
  from Cons.IH [of st1] s have "applies validate st1 ks st2" by simp
  then show ?case using assms [of st "ix_entry x"] v s by (cases k) simp_all
qed simp

lemma keep_scan_count:
  "length (fst (keep_scan validate st xs)) + fst (snd (keep_scan validate st xs)) = length xs"
proof (induction xs arbitrary: st)
  case (Cons x xs)
  obtain k st1 where v: "validate st (ix_entry x) = (k, st1)" by fastforce
  with Cons.IH [of st1] show ?case by (cases "keep_scan validate st1 xs") simp
qed simp

text \<open>
  C20. Revalidation after a block keeps the mempool self-consistent. If a rejected transaction
  leaves the virtual ledger untouched, then the transactions that stay in the mempool can be
  applied in queue order to the ledger state the revalidation started from, each of them valid at
  its turn, and this leads to the ledger state the revalidation ended in; the number returned is
  the number of entries that went, and the invariant is kept.
\<close>
theorem revalidate_with_ledger_consistent:
  assumes "mempool_inv m" "\<And>st e. \<not> fst (validate st e) \<Longrightarrow> snd (validate st e) = st"
    and "revalidate_with_ledger m validate st = (m', n, st')"
  shows "applies validate st (mp_entries m') st' \<and> mempool_inv m' \<and>
    length (mp_entries m') + n = length (mp_entries m)"
proof -
  obtain m'' where "revalidate_with_ledger m validate st =
      (m'', fst (snd (keep_scan validate st (mp_entries m))),
       snd (snd (keep_scan validate st (mp_entries m))))"
    "mp_entries m'' = fst (keep_scan validate st (mp_entries m))" "mempool_inv m''"
    using retain_loop_spec [OF assms(1), of "[]" _ 0 validate st 0]
    by (auto simp: revalidate_with_ledger_def)
  with assms(3) keep_scan_applies [of validate st "mp_entries m", OF assms(2)]
    keep_scan_count [of validate st "mp_entries m"]
  show ?thesis by auto
qed

text \<open>A ledger that accepts a transaction while its fee budget lasts.\<close>

definition demo_validate :: "nat \<Rightarrow> mempool_entry \<Rightarrow> bool \<times> nat" where
  "demo_validate budget e =
     (if unat (me_fee e) \<le> budget then (True, budget - unat (me_fee e)) else (False, budget))"

theorem revalidate_with_ledger_consistent_witness:
  "\<exists>m' n st'. revalidate_with_ledger demo_mempool demo_validate 15 = (m', n, st') \<and>
     applies demo_validate 15 (mp_entries m') st' \<and> mempool_inv m'"
proof -
  obtain m' n st' where r: "revalidate_with_ledger demo_mempool demo_validate 15 = (m', n, st')"
    by (metis prod.exhaust)
  have "\<And>st e. \<not> fst (demo_validate st e) \<Longrightarrow> snd (demo_validate st e) = st"
    by (auto simp: demo_validate_def)
  from revalidate_with_ledger_consistent [OF demo_mempool_inv this r] r show ?thesis by blast
qed

text \<open>The purges by predicate are filters that keep order and invariant.\<close>

lemma purges_are_filters:
  assumes "mempool_inv m"
  shows "mp_entries (snd (remove_confirmed m ts)) =
      filter (\<lambda>x. ix_tx_id x \<notin> set ts) (mp_entries m)"
    and "mp_entries (snd (remove_conflicting_inputs m is)) =
      filter (\<lambda>x. set (ix_inputs x) \<inter> set is = {}) (mp_entries m)"
    and "mp_entries (snd (purge_expired m s)) = filter (\<lambda>x. s \<le> me_ttl (ix_entry x)) (mp_entries m)"
    and "mp_entries (snd (revalidate m s av)) =
      filter (\<lambda>x. s \<le> me_ttl (ix_entry x) \<and> set (ix_inputs x) \<subseteq> av) (mp_entries m)"
proof -
  have r: "mp_entries (snd (retain P m)) = filter (\<lambda>x. P (ix_entry x)) (mp_entries m)" for P
    using retain_spec [OF assms, of P] by auto
  show "mp_entries (snd (remove_confirmed m ts)) = filter (\<lambda>x. ix_tx_id x \<notin> set ts) (mp_entries m)"
    by (simp add: remove_confirmed_def r)
  show "mp_entries (snd (remove_conflicting_inputs m is)) =
      filter (\<lambda>x. set (ix_inputs x) \<inter> set is = {}) (mp_entries m)"
    by (auto simp: remove_conflicting_inputs_def r list_ex_iff intro!: filter_cong)
  show "mp_entries (snd (purge_expired m s)) = filter (\<lambda>x. s \<le> me_ttl (ix_entry x)) (mp_entries m)"
    by (simp add: purge_expired_def r not_less)
  show "mp_entries (snd (revalidate m s av)) =
      filter (\<lambda>x. s \<le> me_ttl (ix_entry x) \<and> set (ix_inputs x) \<subseteq> av) (mp_entries m)"
    by (auto simp: revalidate_def r list_ex_iff not_less intro!: filter_cong)
qed


section \<open>Snapshots\<close>

lemma index_map_lookup:
  assumes "distinct (map f xs)"
  shows "foldl (\<lambda>g (pos, x). g(f x \<mapsto> pos)) g0 (enumerate n xs) k =
    (case position (\<lambda>x. f x = k) xs of Some p \<Rightarrow> Some (n + p) | None \<Rightarrow> g0 k)"
  using assms
proof (induction xs arbitrary: g0 n)
  case (Cons x xs)
  have IH: "foldl (\<lambda>g (pos, x). g(f x \<mapsto> pos)) (g0(f x \<mapsto> n)) (enumerate (Suc n) xs) k =
      (case position (\<lambda>x. f x = k) xs of Some p \<Rightarrow> Some (Suc n + p) | None \<Rightarrow> (g0(f x \<mapsto> n)) k)"
    by (rule Cons.IH) (use Cons.prems in simp)
  show ?case
  proof (cases "f x = k")
    case True
    then have "\<forall>y\<in>set xs. f y \<noteq> k" using Cons.prems by (metis distinct.simps(2) image_eqI list.simps(9) list.set_map)
    then have "position (\<lambda>y. f y = k) xs = None" by simp
    with IH True show ?thesis by (simp del: position_None_iff fun_upd_apply add: fun_upd_same)
  next
    case False
    with IH show ?thesis
      by (cases "position (\<lambda>y. f y = k) xs")
        (simp_all del: position_None_iff fun_upd_apply add: fun_upd_other)
  qed
qed simp

lemma snapshot_lookup:
  assumes "distinct (map f (mp_entries m))"
  shows "Option.bind (case position (\<lambda>x. f x = k) (mp_entries m) of Some p \<Rightarrow> Some (0 + p) | None \<Rightarrow> None)
      (snapshot_get (snapshot m)) = Some e \<longleftrightarrow> (\<exists>x\<in>set (mp_entries m). f x = k \<and> ix_entry x = e)"
proof (cases "position (\<lambda>x. f x = k) (mp_entries m)")
  case None
  then have "\<not> (\<exists>x\<in>set (mp_entries m). f x = k)" by simp
  with None show ?thesis by (auto simp del: position_None_iff)
next
  case (Some p)
  define x where "x = mp_entries m ! p"
  have p: "p < length (mp_entries m)" "f x = k"
    using position_Some_lt [OF Some] position_SomeD [OF Some] by (auto simp: x_def)
  then have "x \<in> set (mp_entries m)" by (simp add: x_def)
  then have uniq: "y = x" if "y \<in> set (mp_entries m)" "f y = k" for y
    using that p(2) assms by (simp add: distinct_map inj_on_def)
  have eq: "Option.bind (case position (\<lambda>x. f x = k) (mp_entries m) of Some p \<Rightarrow> Some (0 + p) | None \<Rightarrow> None)
      (snapshot_get (snapshot m)) = Some (ix_entry x)"
    using Some p(1) by (simp add: snapshot_get_def snapshot_def Let_def x_def)
  show ?thesis unfolding eq option.inject using \<open>x \<in> set (mp_entries m)\<close> p(2) uniq by blast
qed

text \<open>
  C21. Snapshots answer for the mempool they were taken from. In a mempool that satisfies the
  invariant, looking a transaction up by identifier or by index returns exactly the resident entry
  with that identifier or index, and the identifiers listed after an index are exactly those of the
  entries that arrived later, each once, oldest first; so a peer that continues after the last
  index it was given never sees a transaction twice and misses none.
\<close>
theorem snapshot_correct:
  assumes "mempool_inv m"
  shows "(mempool_lookup_tx_by_id (snapshot m) t = Some e \<longleftrightarrow>
        (\<exists>x. x \<in> set (mp_entries m) \<and> ix_tx_id x = t \<and> ix_entry x = e)) \<and>
    (mempool_lookup_tx (snapshot m) i = Some e \<longleftrightarrow>
        (\<exists>x. x \<in> set (mp_entries m) \<and> ix_idx x = i \<and> ix_entry x = e)) \<and>
    (mempool_has_tx (snapshot m) t \<longleftrightarrow> mempool_contains m t) \<and>
    sorted_wrt (\<lambda>a b. fst (snd a) < fst (snd b)) (mempool_txids_after (snapshot m) i) \<and>
    set (mempool_txids_after (snapshot m) i) =
      {(ix_tx_id x, ix_idx x, ix_size x) | x. x \<in> set (mp_entries m) \<and> i < ix_idx x}"
proof -
  have d: "distinct (map ix_tx_id (mp_entries m))" "distinct (map ix_idx (mp_entries m))"
    and ids: "mp_tx_ids m = ix_tx_id ` set (mp_entries m)"
    using assms by (simp_all add: mempool_inv_def)
  have t: "sn_tx_id_to_pos (snapshot m) t =
      (case position (\<lambda>x. ix_tx_id x = t) (mp_entries m) of Some p \<Rightarrow> Some (0 + p) | None \<Rightarrow> None)"
    using index_map_lookup [OF d(1), of Map.empty 0 t] by (simp add: snapshot_def Let_def)
  have x: "sn_idx_to_pos (snapshot m) i =
      (case position (\<lambda>x. ix_idx x = i) (mp_entries m) of Some p \<Rightarrow> Some (0 + p) | None \<Rightarrow> None)"
    using index_map_lookup [OF d(2), of Map.empty 0 i] by (simp add: snapshot_def Let_def)
  let ?L = "map (\<lambda>x. (ix_tx_id x, ix_idx x, ix_size x)) (filter (\<lambda>x. i < ix_idx x) (mp_entries m))"
  have after: "mempool_txids_after (snapshot m) i = sort_key (fst \<circ> snd) ?L"
    by (simp add: mempool_txids_after_def snapshot_def Let_def case_prod_unfold comp_def)
  have "distinct (map (fst \<circ> snd) ?L)" using d(2) by (simp add: comp_def distinct_map_filter)
  then have "distinct (map (fst \<circ> snd) (sort_key (fst \<circ> snd) ?L))"
    using distinct_map_mset [of "sort_key (fst \<circ> snd) ?L" ?L "fst \<circ> snd"] by simp
  then have "sorted_wrt (<) (map (fst \<circ> snd) (sort_key (fst \<circ> snd) ?L))"
    by (simp add: strict_sorted_iff)
  then have "sorted_wrt (\<lambda>a b. fst (snd a) < fst (snd b)) (mempool_txids_after (snapshot m) i)"
    unfolding after sorted_wrt_map by simp
  moreover have "mempool_has_tx (snapshot m) t \<longleftrightarrow> mempool_contains m t"
  proof -
    have "mempool_has_tx (snapshot m) t \<longleftrightarrow> position (\<lambda>x. ix_tx_id x = t) (mp_entries m) \<noteq> None"
      unfolding mempool_has_tx_def t
      by (cases "position (\<lambda>x. ix_tx_id x = t) (mp_entries m)") (simp_all del: position_None_iff)
    then show ?thesis unfolding position_None_iff mempool_contains_def ids by auto
  qed
  moreover have "set (mempool_txids_after (snapshot m) i) =
      {(ix_tx_id x, ix_idx x, ix_size x) | x. x \<in> set (mp_entries m) \<and> i < ix_idx x}"
    unfolding after set_sort by auto
  moreover note snapshot_lookup [OF d(1), of t e, folded t mempool_lookup_tx_by_id_def]
    snapshot_lookup [OF d(2), of i e, folded x mempool_lookup_tx_def]
  ultimately show ?thesis unfolding Bex_def by blast
qed

theorem snapshot_correct_witness:
  "mempool_has_tx (snapshot demo_mempool) [2] \<and>
   mempool_lookup_tx (snapshot demo_mempool) 0 = Some (demo_tx 1 10 40)"
proof -
  have "mempool_contains demo_mempool [2]"
    by (simp add: demo_mempool_eval mempool_contains_def)
  moreover have "\<exists>x. x \<in> set (mp_entries demo_mempool) \<and> ix_idx x = 0 \<and> ix_entry x = demo_tx 1 10 40"
    by (rule exI [of _ "\<lparr>ix_idx = 0, ix_entry = demo_tx 1 10 40\<rparr>"]) (simp add: demo_mempool_eval)
  ultimately show ?thesis
    using snapshot_correct [OF demo_mempool_inv, of "[2]" "demo_tx 1 10 40" 0] by blast
qed

end
