(* ===== verification/TxState.thy ===== *)
theory TxState
  imports Types "HOL-Library.AList"
begin

text \<open>
  The transaction state shared by all TxSubmission peers,
  \<open>src/crates/consensus/src/mempool/tx_state/state.rs\<close>: which transactions are known, which are
  being fetched and from whom, and how many bytes are on their way. The socket address of a peer
  is the type parameter \<open>'addr\<close>; the table of peers is an association list. The eviction loop of
  \<open>insert_known\<close> makes no progress on an empty queue, so the operations that run it have the value
  \<open>None\<close> when it does not end; they are proved to end.
\<close>

section \<open>Model\<close>

record peer_tx_state =
  pt_unacknowledged :: "tx_id set"
  pt_in_flight :: "tx_id set"
  pt_in_flight_sizes :: "tx_id \<rightharpoonup> u32"
  pt_inflight_bytes :: u64

definition peer_tx_state_new :: peer_tx_state where
  "peer_tx_state_new =
     \<lparr>pt_unacknowledged = {}, pt_in_flight = {}, pt_in_flight_sizes = Map.empty,
      pt_inflight_bytes = 0\<rparr>"

record filter_outcome =
  fo_to_fetch :: "tx_id list"
  fo_already_known :: "tx_id list"

record 'addr tx_state =
  ts_known :: "tx_id set"
  ts_known_order :: "tx_id list"
  ts_known_capacity :: nat
  ts_global_in_flight :: "tx_id set"
  ts_inflight_bytes_total :: u64
  ts_peers :: "('addr \<times> peer_tx_state) list"

definition tx_state_new :: "nat \<Rightarrow> 'addr tx_state" where
  "tx_state_new known_capacity =
     \<lparr>ts_known = {}, ts_known_order = [], ts_known_capacity = known_capacity,
      ts_global_in_flight = {}, ts_inflight_bytes_total = 0, ts_peers = []\<rparr>"

definition register_peer :: "'addr tx_state \<Rightarrow> 'addr \<Rightarrow> 'addr tx_state" where
  "register_peer st addr =
     (case map_of (ts_peers st) addr of
        Some _ \<Rightarrow> st
      | None \<Rightarrow> st\<lparr>ts_peers := AList.update addr peer_tx_state_new (ts_peers st)\<rparr>)"

definition unregister_peer :: "'addr tx_state \<Rightarrow> 'addr \<Rightarrow> 'addr tx_state" where
  "unregister_peer st addr =
     (case map_of (ts_peers st) addr of
        None \<Rightarrow> st
      | Some p \<Rightarrow>
          st\<lparr>ts_peers := AList.delete addr (ts_peers st),
             ts_global_in_flight := ts_global_in_flight st - pt_in_flight p,
             ts_inflight_bytes_total :=
               saturating_sub (ts_inflight_bytes_total st) (pt_inflight_bytes p)\<rparr>)"

text \<open>The loop of \<open>filter_advertised\<close> over the advertised identifiers.\<close>

fun filter_loop ::
    "tx_id set \<Rightarrow> tx_id list \<Rightarrow> peer_tx_state \<times> filter_outcome \<Rightarrow> peer_tx_state \<times> filter_outcome" where
  "filter_loop seen [] acc = acc"
| "filter_loop seen (t # ts) (p, fo) =
     filter_loop seen ts
       (if t \<in> seen
        then (p, fo\<lparr>fo_already_known := fo_already_known fo @ [t]\<rparr>)
        else (p\<lparr>pt_unacknowledged := insert t (pt_unacknowledged p)\<rparr>,
              fo\<lparr>fo_to_fetch := fo_to_fetch fo @ [t]\<rparr>))"

definition filter_advertised ::
    "'addr tx_state \<Rightarrow> 'addr \<Rightarrow> tx_id list \<Rightarrow> filter_outcome \<times> 'addr tx_state" where
  "filter_advertised st addr txids =
     (let p = (case map_of (ts_peers st) addr of Some p \<Rightarrow> p | None \<Rightarrow> peer_tx_state_new);
          (p', fo) = filter_loop (ts_known st \<union> ts_global_in_flight st) txids
                       (p, \<lparr>fo_to_fetch = [], fo_already_known = []\<rparr>)
      in (fo, st\<lparr>ts_peers := AList.update addr p' (ts_peers st)\<rparr>))"

definition mark_in_flight :: "'addr tx_state \<Rightarrow> 'addr \<Rightarrow> tx_id list \<Rightarrow> 'addr tx_state" where
  "mark_in_flight st addr txids =
     (case map_of (ts_peers st) addr of
        None \<Rightarrow> st
      | Some p \<Rightarrow>
          st\<lparr>ts_peers := AList.update addr
               (p\<lparr>pt_in_flight := pt_in_flight p \<union> set txids\<rparr>) (ts_peers st),
             ts_global_in_flight := ts_global_in_flight st \<union> set txids\<rparr>)"

text \<open>
  One round of \<open>mark_in_flight_sized\<close> on the peer, the global set and the global byte count;
  \<open>HashSet::insert\<close> tells whether the identifier is new.
\<close>

fun start_sized ::
    "tx_id \<times> u32 \<Rightarrow> peer_tx_state \<times> tx_id set \<times> u64 \<Rightarrow> peer_tx_state \<times> tx_id set \<times> u64" where
  "start_sized (t, sz) (p, g, tot) =
     (if t \<in> pt_in_flight p then (p, g, tot)
      else (p\<lparr>pt_in_flight := insert t (pt_in_flight p),
              pt_in_flight_sizes := (pt_in_flight_sizes p)(t \<mapsto> sz),
              pt_inflight_bytes := saturating_add (pt_inflight_bytes p) (ucast sz)\<rparr>,
            insert t g, saturating_add tot (ucast sz)))"

definition mark_in_flight_sized ::
    "'addr tx_state \<Rightarrow> 'addr \<Rightarrow> (tx_id \<times> u32) list \<Rightarrow> 'addr tx_state" where
  "mark_in_flight_sized st addr sized_txids =
     (case map_of (ts_peers st) addr of
        None \<Rightarrow> st
      | Some p \<Rightarrow>
          (let (p', g, tot) = fold start_sized sized_txids
                 (p, ts_global_in_flight st, ts_inflight_bytes_total st)
           in st\<lparr>ts_peers := AList.update addr p' (ts_peers st),
                 ts_global_in_flight := g, ts_inflight_bytes_total := tot\<rparr>))"

text \<open>
  The accounting at the end of a fetch, shared by the three \<open>mark\<close> operations below: the
  identifier leaves the peer's sets, and its size, when known, both byte counts.
\<close>

fun finish_txid :: "tx_id \<Rightarrow> peer_tx_state \<times> u64 \<Rightarrow> peer_tx_state \<times> u64" where
  "finish_txid t (p, tot) =
     (let (p1, tot1) =
        (if t \<in> pt_in_flight p
         then (case pt_in_flight_sizes p t of
                 Some sz \<Rightarrow>
                   (p\<lparr>pt_in_flight := pt_in_flight p - {t},
                      pt_in_flight_sizes := (pt_in_flight_sizes p)(t := None),
                      pt_inflight_bytes := saturating_sub (pt_inflight_bytes p) (ucast sz)\<rparr>,
                    saturating_sub tot (ucast sz))
               | None \<Rightarrow> (p\<lparr>pt_in_flight := pt_in_flight p - {t}\<rparr>, tot))
         else (p, tot))
      in (p1\<lparr>pt_unacknowledged := pt_unacknowledged p1 - {t}\<rparr>, tot1))"

definition mark_not_found :: "'addr tx_state \<Rightarrow> 'addr \<Rightarrow> tx_id list \<Rightarrow> 'addr tx_state" where
  "mark_not_found st addr txids =
     (case map_of (ts_peers st) addr of
        None \<Rightarrow> st
      | Some p \<Rightarrow>
          (let (p', tot) = fold finish_txid txids (p, ts_inflight_bytes_total st)
           in st\<lparr>ts_peers := AList.update addr p' (ts_peers st),
                 ts_global_in_flight := ts_global_in_flight st - set txids,
                 ts_inflight_bytes_total := tot\<rparr>))"

text \<open>The eviction loop of \<open>insert_known\<close>, with the queue it pops from.\<close>

fun evict_known :: "nat \<Rightarrow> tx_id set \<Rightarrow> tx_id list \<Rightarrow> (tx_id set \<times> tx_id list) option" where
  "evict_known cap known [] = (if card known > cap then None else Some (known, []))"
| "evict_known cap known (old # order) =
     (if card known > cap then evict_known cap (known - {old}) order
      else Some (known, old # order))"

definition insert_known :: "tx_id \<Rightarrow> 'addr tx_state \<Rightarrow> 'addr tx_state option" where
  "insert_known t st =
     (if t \<in> ts_known st then Some st
      else map_option (\<lambda>(known, order). st\<lparr>ts_known := known, ts_known_order := order\<rparr>)
             (evict_known (ts_known_capacity st) (insert t (ts_known st))
                (ts_known_order st @ [t])))"

primrec insert_known_all :: "tx_id list \<Rightarrow> 'addr tx_state \<Rightarrow> 'addr tx_state option" where
  "insert_known_all [] st = Some st"
| "insert_known_all (t # ts) st = Option.bind (insert_known t st) (insert_known_all ts)"

text \<open>
  The loop over the peer in \<open>mark_received\<close> is the one of \<open>mark_not_found\<close>, statement by
  statement; the identifiers then become known, whether or not the peer is registered.
\<close>

definition mark_received :: "'addr tx_state \<Rightarrow> 'addr \<Rightarrow> tx_id list \<Rightarrow> 'addr tx_state option" where
  "mark_received st addr txids = insert_known_all txids (mark_not_found st addr txids)"

text \<open>
  \<open>mark_confirmed\<close> first removes each identifier from the global set and makes it known, then runs
  over all peers.
\<close>

primrec confirm_all :: "tx_id list \<Rightarrow> 'addr tx_state \<Rightarrow> 'addr tx_state option" where
  "confirm_all [] st = Some st"
| "confirm_all (t # ts) st =
     Option.bind (insert_known t (st\<lparr>ts_global_in_flight := ts_global_in_flight st - {t}\<rparr>))
       (confirm_all ts)"

fun finish_peers ::
    "tx_id list \<Rightarrow> ('addr \<times> peer_tx_state) list \<Rightarrow> u64 \<Rightarrow> ('addr \<times> peer_tx_state) list \<times> u64" where
  "finish_peers txids [] tot = ([], tot)"
| "finish_peers txids ((a, p) # ps) tot =
     (let (p', tot') = fold finish_txid txids (p, tot);
          (ps', tot'') = finish_peers txids ps tot'
      in ((a, p') # ps', tot''))"

definition mark_confirmed :: "'addr tx_state \<Rightarrow> tx_id list \<Rightarrow> 'addr tx_state option" where
  "mark_confirmed st txids =
     map_option
       (\<lambda>st'. let (ps, tot) = finish_peers txids (ts_peers st') (ts_inflight_bytes_total st')
              in st'\<lparr>ts_peers := ps, ts_inflight_bytes_total := tot\<rparr>)
       (confirm_all txids st)"

definition is_known :: "'addr tx_state \<Rightarrow> tx_id \<Rightarrow> bool" where
  "is_known st t \<longleftrightarrow> t \<in> ts_known st"

definition is_in_flight :: "'addr tx_state \<Rightarrow> tx_id \<Rightarrow> bool" where
  "is_in_flight st t \<longleftrightarrow> t \<in> ts_global_in_flight st"

definition known_count :: "'addr tx_state \<Rightarrow> nat" where
  "known_count st = card (ts_known st)"

definition in_flight_count :: "'addr tx_state \<Rightarrow> nat" where
  "in_flight_count st = card (ts_global_in_flight st)"

definition peer_inflight_bytes :: "'addr tx_state \<Rightarrow> 'addr \<Rightarrow> u64" where
  "peer_inflight_bytes st addr =
     (case map_of (ts_peers st) addr of Some p \<Rightarrow> pt_inflight_bytes p | None \<Rightarrow> 0)"

definition peer_unacked_count :: "'addr tx_state \<Rightarrow> 'addr \<Rightarrow> nat" where
  "peer_unacked_count st addr =
     (case map_of (ts_peers st) addr of Some p \<Rightarrow> card (pt_unacknowledged p) | None \<Rightarrow> 0)"

definition peer_inflight_count :: "'addr tx_state \<Rightarrow> 'addr \<Rightarrow> nat" where
  "peer_inflight_count st addr =
     (case map_of (ts_peers st) addr of Some p \<Rightarrow> card (pt_in_flight p) | None \<Rightarrow> 0)"

definition peer_count :: "'addr tx_state \<Rightarrow> nat" where
  "peer_count st = length (ts_peers st)"


text \<open>The operations as events, and a run of them.\<close>

datatype 'addr tx_event =
    RegisterPeer 'addr
  | UnregisterPeer 'addr
  | FilterAdvertised 'addr "tx_id list"
  | MarkInFlight 'addr "tx_id list"
  | MarkInFlightSized 'addr "(tx_id \<times> u32) list"
  | MarkReceived 'addr "tx_id list"
  | MarkNotFound 'addr "tx_id list"
  | MarkConfirmed "tx_id list"

fun tx_step :: "'addr tx_event \<Rightarrow> 'addr tx_state \<Rightarrow> 'addr tx_state option" where
  "tx_step (RegisterPeer a) st = Some (register_peer st a)"
| "tx_step (UnregisterPeer a) st = Some (unregister_peer st a)"
| "tx_step (FilterAdvertised a ts) st = Some (snd (filter_advertised st a ts))"
| "tx_step (MarkInFlight a ts) st = Some (mark_in_flight st a ts)"
| "tx_step (MarkInFlightSized a szs) st = Some (mark_in_flight_sized st a szs)"
| "tx_step (MarkReceived a ts) st = mark_received st a ts"
| "tx_step (MarkNotFound a ts) st = Some (mark_not_found st a ts)"
| "tx_step (MarkConfirmed ts) st = mark_confirmed st ts"

primrec tx_run :: "'addr tx_event list \<Rightarrow> 'addr tx_state \<Rightarrow> 'addr tx_state option" where
  "tx_run [] st = Some st"
| "tx_run (e # es) st = Option.bind (tx_step e st) (tx_run es)"


section \<open>The ring of known identifiers\<close>

definition known_inv :: "'addr tx_state \<Rightarrow> bool" where
  "known_inv st \<longleftrightarrow> distinct (ts_known_order st) \<and> ts_known st = set (ts_known_order st)
     \<and> length (ts_known_order st) \<le> ts_known_capacity st"

lemma evict_known_spec:
  "distinct order \<Longrightarrow>
     evict_known cap (set order) order
       = Some (set (drop (length order - cap) order), drop (length order - cap) order)"
proof (induction order)
  case (Cons old order)
  then have card: "card (set (old # order)) = Suc (length order)"
    and diff: "set (old # order) - {old} = set order"
    by (auto simp: distinct_card)
  show ?case
  proof (cases "cap \<le> length order")
    case True
    then have "Suc (length order) - cap = Suc (length order - cap)" by simp
    with True Cons card diff show ?thesis by simp
  next
    case False
    with card show ?thesis by simp
  qed
qed simp

text \<open>An identifier that is new pushes the oldest one out when the ring is full.\<close>

lemma insert_known_spec:
  assumes "known_inv st"
  shows "insert_known t st =
     (if t \<in> ts_known st then Some st
      else let order = drop (Suc (length (ts_known_order st)) - ts_known_capacity st)
                         (ts_known_order st @ [t])
           in Some (st\<lparr>ts_known := set order, ts_known_order := order\<rparr>))"
proof (cases "t \<in> ts_known st")
  case False
  have "distinct (ts_known_order st @ [t])" using assms False by (simp add: known_inv_def)
  from evict_known_spec [OF this, of "ts_known_capacity st"] assms False show ?thesis
    by (simp add: insert_known_def known_inv_def Let_def)
qed (simp add: insert_known_def)

lemma insert_known_total:
  assumes "known_inv st"
  shows "\<exists>k order. insert_known t st = Some (st\<lparr>ts_known := k, ts_known_order := order\<rparr>)
     \<and> known_inv (st\<lparr>ts_known := k, ts_known_order := order\<rparr>)"
proof (cases "t \<in> ts_known st")
  case True
  with assms show ?thesis
    by - (rule exI [of _ "ts_known st"], rule exI [of _ "ts_known_order st"],
          simp add: insert_known_def)
next
  case False
  let ?order = "drop (Suc (length (ts_known_order st)) - ts_known_capacity st)
                 (ts_known_order st @ [t])"
  have "distinct (ts_known_order st @ [t])" using assms False by (simp add: known_inv_def)
  then have "distinct ?order" by (rule distinct_drop)
  with False assms show ?thesis
    by - (rule exI [of _ "set ?order"], rule exI [of _ ?order],
          simp add: insert_known_spec Let_def known_inv_def)
qed

lemma insert_known_all_total:
  "known_inv st \<Longrightarrow>
     \<exists>k order. insert_known_all ts st = Some (st\<lparr>ts_known := k, ts_known_order := order\<rparr>)
       \<and> known_inv (st\<lparr>ts_known := k, ts_known_order := order\<rparr>)"
proof (induction ts arbitrary: st)
  case Nil
  then show ?case
    by - (rule exI [of _ "ts_known st"], rule exI [of _ "ts_known_order st"], simp)
next
  case (Cons t ts)
  from insert_known_total [OF Cons.prems, of t] obtain k order
    where 1: "insert_known t st = Some (st\<lparr>ts_known := k, ts_known_order := order\<rparr>)"
      "known_inv (st\<lparr>ts_known := k, ts_known_order := order\<rparr>)" by blast
  from Cons.IH [OF 1(2)] 1(1) show ?case by simp
qed

lemma known_inv_more [simp]:
  "known_inv (st\<lparr>ts_global_in_flight := g\<rparr>) = known_inv st"
  "known_inv (st\<lparr>ts_inflight_bytes_total := b\<rparr>) = known_inv st"
  "known_inv (st\<lparr>ts_peers := ps\<rparr>) = known_inv st"
  by (simp_all add: known_inv_def)

lemma confirm_all_total:
  "known_inv st \<Longrightarrow>
     \<exists>k order. confirm_all ts st = Some (st\<lparr>ts_known := k, ts_known_order := order,
           ts_global_in_flight := ts_global_in_flight st - set ts\<rparr>)
       \<and> known_inv (st\<lparr>ts_known := k, ts_known_order := order\<rparr>)"
proof (induction ts arbitrary: st)
  case Nil
  then show ?case
    by - (rule exI [of _ "ts_known st"], rule exI [of _ "ts_known_order st"], simp)
next
  case (Cons t ts)
  let ?st = "st\<lparr>ts_global_in_flight := ts_global_in_flight st - {t}\<rparr>"
  have "known_inv ?st" using Cons.prems by simp
  from insert_known_total [OF this, of t] obtain k order
    where 1: "insert_known t ?st = Some (?st\<lparr>ts_known := k, ts_known_order := order\<rparr>)"
      "known_inv (?st\<lparr>ts_known := k, ts_known_order := order\<rparr>)" by blast
  have "ts_global_in_flight st - {t} - set ts = ts_global_in_flight st - set (t # ts)" by auto
  with Cons.IH [OF 1(2)] 1(1) show ?case by (simp add: known_inv_def)
qed

lemma mark_not_found_known:
  "ts_known (mark_not_found st a ts) = ts_known st"
  "ts_known_order (mark_not_found st a ts) = ts_known_order st"
  "ts_known_capacity (mark_not_found st a ts) = ts_known_capacity st"
  by (simp_all add: mark_not_found_def split_def Let_def split: option.splits)

lemma tx_step_known:
  assumes "known_inv st"
  shows "\<exists>st'. tx_step e st = Some st' \<and> known_inv st'
           \<and> ts_known_capacity st' = ts_known_capacity st"
proof (cases e)
  case (MarkReceived a ts)
  have "known_inv (mark_not_found st a ts)"
    using assms by (simp add: known_inv_def mark_not_found_known)
  from insert_known_all_total [OF this, of ts] MarkReceived show ?thesis
    by (auto simp: mark_received_def mark_not_found_known)
next
  case (MarkConfirmed ts)
  from confirm_all_total [OF assms, of ts] MarkConfirmed show ?thesis
    by (auto simp: mark_confirmed_def split_def Let_def known_inv_def)
qed (use assms in \<open>auto simp: known_inv_def register_peer_def unregister_peer_def
       filter_advertised_def mark_in_flight_def mark_in_flight_sized_def mark_not_found_def
       split_def Let_def split: option.splits\<close>)

lemma tx_run_known:
  "known_inv st \<Longrightarrow> \<exists>st'. tx_run es st = Some st' \<and> known_inv st'
     \<and> ts_known_capacity st' = ts_known_capacity st"
proof (induction es arbitrary: st)
  case (Cons e es)
  from tx_step_known [OF Cons.prems, of e] obtain st1
    where st1: "tx_step e st = Some st1" "known_inv st1"
      "ts_known_capacity st1 = ts_known_capacity st" by blast
  from Cons.IH [OF st1(2)] st1 show ?case by simp
qed simp

lemma known_inv_new: "known_inv (tx_state_new cap)"
  by (simp add: known_inv_def tx_state_new_def)

text \<open>
  C27. Every sequence of operations on a fresh transaction state returns: the eviction loop of
  \<open>insert_known\<close> always ends. After it, the set of known identifiers holds exactly the entries of
  the eviction queue, each once, and never more of them than the capacity given to \<open>new\<close>.
\<close>

theorem tx_state_known_bounded:
  "\<exists>st. tx_run es (tx_state_new cap :: 'addr tx_state) = Some st
     \<and> distinct (ts_known_order st) \<and> ts_known st = set (ts_known_order st)
     \<and> known_count st \<le> cap"
proof -
  from tx_run_known [OF known_inv_new, of es cap] obtain st
    where st: "tx_run es (tx_state_new cap :: 'addr tx_state) = Some st" "known_inv st"
      "ts_known_capacity st = ts_known_capacity (tx_state_new cap :: 'addr tx_state)" by blast
  then show ?thesis
    by (auto simp: known_inv_def known_count_def tx_state_new_def distinct_card)
qed


section \<open>The table of peers\<close>

lemma map_of_update_if:
  "map_of (AList.update a p xs) b = (if b = a then Some p else map_of xs b)"
  by (simp add: update_conv')

lemma map_of_delete_if:
  "map_of (AList.delete a xs) b = (if b = a then None else map_of xs b)"
  by (simp add: delete_conv')

lemma sum_list_update:
  "distinct (map fst xs) \<Longrightarrow>
     sum_list (map (f \<circ> snd) (AList.update a p' xs))
       + (case map_of xs a of Some p \<Rightarrow> f p | None \<Rightarrow> 0)
     = sum_list (map (f \<circ> snd) xs) + (f p' :: nat)"
  by (induction xs) (auto split: option.splits)

lemma sum_list_delete:
  "distinct (map fst xs) \<Longrightarrow>
     sum_list (map (f \<circ> snd) (AList.delete a xs))
       + (case map_of xs a of Some p \<Rightarrow> f p | None \<Rightarrow> 0)
     = sum_list (map (f \<circ> snd) xs :: nat list)"
proof (induction xs)
  case (Cons x xs)
  then have "fst x = a \<Longrightarrow> AList.delete a xs = xs" by (auto intro: delete_idem)
  with Cons show ?case by (cases x) (auto split: option.splits)
qed simp

lemma map_of_le_sum_list:
  "map_of xs a = Some p \<Longrightarrow> f p \<le> (sum_list (map (f \<circ> snd) xs) :: nat)"
  by (induction xs) (auto split: if_splits)


section \<open>Byte accounting\<close>

text \<open>The bytes of a peer are the sizes of what it has in flight.\<close>

definition sizes_sum :: "(tx_id \<rightharpoonup> u32) \<Rightarrow> nat" where
  "sizes_sum m = (\<Sum>t\<in>dom m. unat (the (m t)))"

definition peer_ok :: "peer_tx_state \<Rightarrow> bool" where
  "peer_ok p \<longleftrightarrow> finite (dom (pt_in_flight_sizes p))
     \<and> dom (pt_in_flight_sizes p) \<subseteq> pt_in_flight p
     \<and> unat (pt_inflight_bytes p) = sizes_sum (pt_in_flight_sizes p)"

definition peers_bytes :: "('addr \<times> peer_tx_state) list \<Rightarrow> nat" where
  "peers_bytes ps = sum_list (map ((\<lambda>p. unat (pt_inflight_bytes p)) \<circ> snd) ps)"

definition bytes_inv :: "'addr tx_state \<Rightarrow> bool" where
  "bytes_inv st \<longleftrightarrow> distinct (map fst (ts_peers st))
     \<and> (\<forall>a p. map_of (ts_peers st) a = Some p \<longrightarrow> peer_ok p)
     \<and> unat (ts_inflight_bytes_total st) = peers_bytes (ts_peers st)"

lemma sizes_sum_upd:
  "finite (dom m) \<Longrightarrow> t \<notin> dom m \<Longrightarrow> sizes_sum (m(t \<mapsto> sz)) = sizes_sum m + unat sz"
  unfolding sizes_sum_def
  by (simp add: domIff) (rule sum.cong, auto)

lemma sizes_sum_remove:
  assumes "finite (dom m)" "m t = Some sz"
  shows "sizes_sum m = sizes_sum (m(t := None)) + unat sz"
proof -
  have "sizes_sum ((m(t := None))(t \<mapsto> sz)) = sizes_sum (m(t := None)) + unat sz"
    by (rule sizes_sum_upd) (use assms(1) in auto)
  moreover have "(m(t := None))(t \<mapsto> sz) = m" using assms(2) by auto
  ultimately show ?thesis by simp
qed

lemma finish_txid_spec:
  assumes "finish_txid t (p, tot) = (p', tot')" "peer_ok p"
    "unat (pt_inflight_bytes p) \<le> unat tot"
  shows "peer_ok p' \<and> unat (pt_inflight_bytes p') + unat tot = unat (pt_inflight_bytes p) + unat tot'
     \<and> unat tot' \<le> unat tot \<and> pt_in_flight p' = pt_in_flight p - {t}"
proof (cases "t \<in> pt_in_flight p")
  case True
  show ?thesis
  proof (cases "pt_in_flight_sizes p t")
    case None
    with True assms have "p' = p\<lparr>pt_in_flight := pt_in_flight p - {t},
        pt_unacknowledged := pt_unacknowledged p - {t}\<rparr>" "tot' = tot" by auto
    moreover have "t \<notin> dom (pt_in_flight_sizes p)" using None by auto
    ultimately show ?thesis using assms(2) unfolding peer_ok_def by auto
  next
    case (Some sz)
    have fin: "finite (dom (pt_in_flight_sizes p))"
      and eq: "unat (pt_inflight_bytes p) = sizes_sum (pt_in_flight_sizes p)"
      using assms(2) by (auto simp: peer_ok_def)
    have sz: "unat (ucast sz :: u64) = unat sz"
      by (rule unat_ucast_fits) (use unat_lt_2p [of sz] in simp)
    note sizes_sum_remove [OF fin Some]
    with True Some assms eq fin sz show ?thesis
      by (auto simp: peer_ok_def unat_saturating_sub split: if_splits dest: subsetD [OF _ domI])
  qed
next
  case False
  with assms show ?thesis by (auto simp: peer_ok_def dest: subsetD [OF _ domI])
qed

lemma fold_finish_spec:
  assumes "fold finish_txid ts (p, tot) = (p', tot')" "peer_ok p"
    "unat (pt_inflight_bytes p) \<le> unat tot"
  shows "peer_ok p' \<and> unat (pt_inflight_bytes p') + unat tot = unat (pt_inflight_bytes p) + unat tot'
     \<and> unat tot' \<le> unat tot \<and> pt_in_flight p' = pt_in_flight p - set ts"
  using assms
proof (induction ts arbitrary: p tot)
  case (Cons t ts)
  obtain p1 tot1 where 1: "finish_txid t (p, tot) = (p1, tot1)" by fastforce
  note s1 = finish_txid_spec [OF 1 Cons.prems(2,3)]
  have "fold finish_txid ts (p1, tot1) = (p', tot')" using Cons.prems(1) 1 by simp
  from Cons.IH [OF this] s1 Cons.prems(3) show ?case by auto
qed simp

lemma start_sized_spec:
  assumes "start_sized (t, sz) (p, g, tot) = (p', g', tot')" "peer_ok p"
    "unat (pt_inflight_bytes p) \<le> unat tot" "unat tot + unat sz < 2 ^ 64"
  shows "peer_ok p' \<and> unat (pt_inflight_bytes p') + unat tot = unat (pt_inflight_bytes p) + unat tot'
     \<and> unat tot \<le> unat tot' \<and> unat tot' \<le> unat tot + unat sz"
proof (cases "t \<in> pt_in_flight p")
  case True
  with assms show ?thesis by auto
next
  case False
  have sz: "unat (ucast sz :: u64) = unat sz"
    by (rule unat_ucast_fits) (use unat_lt_2p [of sz] in simp)
  have fin: "finite (dom (pt_in_flight_sizes p))" and nin: "t \<notin> dom (pt_in_flight_sizes p)"
    and eq: "unat (pt_inflight_bytes p) = sizes_sum (pt_in_flight_sizes p)"
    using assms(2) False by (auto simp: peer_ok_def)
  have p': "p' = p\<lparr>pt_in_flight := insert t (pt_in_flight p),
              pt_in_flight_sizes := (pt_in_flight_sizes p)(t \<mapsto> sz),
              pt_inflight_bytes := saturating_add (pt_inflight_bytes p) (ucast sz)\<rparr>"
    and tot': "tot' = saturating_add tot (ucast sz)" using assms(1) False by auto
  have b: "unat (pt_inflight_bytes p') = unat (pt_inflight_bytes p) + unat sz"
    and t: "unat tot' = unat tot + unat sz"
    using assms(3,4) sz by (simp_all add: p' tot' unat_saturating_add)
  have "peer_ok p'" using assms(2) b eq sizes_sum_upd [OF fin nin, of sz]
    by (auto simp: peer_ok_def p')
  with b t show ?thesis by simp
qed

definition sized_bytes :: "(tx_id \<times> u32) list \<Rightarrow> nat" where
  "sized_bytes szs = sum_list (map (unat \<circ> snd) szs)"

lemma fold_start_spec:
  assumes "fold start_sized szs (p, g, tot) = (p', g', tot')" "peer_ok p"
    "unat (pt_inflight_bytes p) \<le> unat tot" "unat tot + sized_bytes szs < 2 ^ 64"
  shows "peer_ok p' \<and> unat (pt_inflight_bytes p') + unat tot = unat (pt_inflight_bytes p) + unat tot'
     \<and> unat tot \<le> unat tot' \<and> unat tot' \<le> unat tot + sized_bytes szs"
  using assms
proof (induction szs arbitrary: p g tot)
  case (Cons x szs)
  obtain t sz where x: "x = (t, sz)" by fastforce
  obtain p1 g1 tot1 where 1: "start_sized (t, sz) (p, g, tot) = (p1, g1, tot1)"
    using prod_cases3 by blast
  have sb: "sized_bytes (x # szs) = unat sz + sized_bytes szs" by (simp add: sized_bytes_def x)
  note s1 = start_sized_spec [OF 1 Cons.prems(2,3)]
  have f: "fold start_sized szs (p1, g1, tot1) = (p', g', tot')"
    using Cons.prems(1) 1 x by (simp del: start_sized.simps)
  have lt: "unat tot + unat sz < 2 ^ 64" using Cons.prems(4) sb by linarith
  note s1 = s1 [OF lt]
  have pre: "unat (pt_inflight_bytes p1) \<le> unat tot1" "unat tot1 + sized_bytes szs < 2 ^ 64"
    using s1 Cons.prems(3,4) sb by linarith+
  have "peer_ok p1" using s1 by simp
  from Cons.IH [OF f this pre] s1 sb show ?case by linarith
qed (simp add: sized_bytes_def)

lemma finish_peers_spec:
  assumes "finish_peers ts ps tot = (ps', tot')" "distinct (map fst ps)"
    "\<forall>a p. map_of ps a = Some p \<longrightarrow> peer_ok p" "peers_bytes ps \<le> unat tot"
  shows "map fst ps' = map fst ps \<and> (\<forall>a p. map_of ps' a = Some p \<longrightarrow> peer_ok p)
     \<and> peers_bytes ps' + unat tot = peers_bytes ps + unat tot' \<and> unat tot' \<le> unat tot"
  using assms
proof (induction ps arbitrary: tot ps' tot')
  case (Cons x ps)
  obtain a p where x: "x = (a, p)" by fastforce
  obtain p1 tot1 where 1: "fold finish_txid ts (p, tot) = (p1, tot1)" by fastforce
  obtain ps2 tot2 where 2: "finish_peers ts ps tot1 = (ps2, tot2)" by fastforce
  have res: "ps' = (a, p1) # ps2" "tot' = tot2" using Cons.prems(1) 1 2 x by simp_all
  have pb: "peers_bytes ((b, q) # qs) = unat (pt_inflight_bytes q) + peers_bytes qs"
    for b :: 'a and q qs by (simp add: peers_bytes_def)
  have "peer_ok p" using Cons.prems(3) [rule_format, of a p] x by simp
  note s1 = fold_finish_spec [OF 1 this]
  have le: "unat (pt_inflight_bytes p) + peers_bytes ps \<le> unat tot"
    using Cons.prems(4) pb x by simp
  have s1: "peer_ok p1" "unat (pt_inflight_bytes p1) + unat tot = unat (pt_inflight_bytes p) + unat tot1"
    "unat tot1 \<le> unat tot" using s1 le by simp_all
  have ok: "\<forall>b q. map_of ps b = Some q \<longrightarrow> peer_ok q"
  proof (intro allI impI)
    fix b q assume q: "map_of ps b = Some q"
    then have "b \<in> fst ` set ps" by (metis map_of_eq_None_iff option.distinct(1))
    then have "b \<noteq> a" using Cons.prems(2) x by auto
    with q show "peer_ok q" using Cons.prems(3) [rule_format, of b q] x by simp
  qed
  have "peers_bytes ps \<le> unat tot1" using le s1(2) by linarith
  from Cons.IH [OF 2 _ ok this] Cons.prems(2) x
  have "map fst ps2 = map fst ps" "\<forall>a p. map_of ps2 a = Some p \<longrightarrow> peer_ok p"
    "peers_bytes ps2 + unat tot1 = peers_bytes ps + unat tot2" "unat tot2 \<le> unat tot1" by simp_all
  with s1 le res x pb show ?case by simp
qed (simp add: peers_bytes_def)

lemma bytes_inv_update:
  assumes inv: "bytes_inv st" and p: "map_of (ts_peers st) a = Some p" and ok: "peer_ok p'"
    and eq: "unat (pt_inflight_bytes p') + unat (ts_inflight_bytes_total st)
               = unat (pt_inflight_bytes p) + unat tot'"
  shows "bytes_inv (st\<lparr>ts_peers := AList.update a p' (ts_peers st), ts_global_in_flight := g,
           ts_inflight_bytes_total := tot'\<rparr>)"
proof -
  have "peers_bytes (AList.update a p' (ts_peers st)) + unat (pt_inflight_bytes p)
          = peers_bytes (ts_peers st) + unat (pt_inflight_bytes p')"
    using sum_list_update [of "ts_peers st" "\<lambda>p. unat (pt_inflight_bytes p)" a p'] inv p
    by (simp add: peers_bytes_def bytes_inv_def)
  with inv ok eq show ?thesis by (simp add: bytes_inv_def map_of_update_if distinct_update)
qed

lemma peer_le_total:
  "bytes_inv st \<Longrightarrow> map_of (ts_peers st) a = Some p
     \<Longrightarrow> peer_ok p \<and> unat (pt_inflight_bytes p) \<le> unat (ts_inflight_bytes_total st)"
  using map_of_le_sum_list [of "ts_peers st" a p "\<lambda>p. unat (pt_inflight_bytes p)"]
  by (auto simp: bytes_inv_def peers_bytes_def)

lemma filter_loop_keeps:
  "filter_loop seen ts (p, fo) = (p', fo') \<Longrightarrow>
     pt_in_flight p' = pt_in_flight p \<and> pt_in_flight_sizes p' = pt_in_flight_sizes p
       \<and> pt_inflight_bytes p' = pt_inflight_bytes p"
  by (induction seen ts "(p, fo)" arbitrary: p fo rule: filter_loop.induct)
     (fastforce split: if_splits)+

lemma bytes_inv_insert:
  assumes "bytes_inv st" "map_of (ts_peers st) a = None" "peer_ok p" "pt_inflight_bytes p = 0"
  shows "bytes_inv (st\<lparr>ts_peers := AList.update a p (ts_peers st)\<rparr>)"
  using assms sum_list_update [of "ts_peers st" "\<lambda>p. unat (pt_inflight_bytes p)" a p]
  by (simp add: bytes_inv_def peers_bytes_def map_of_update_if distinct_update)

lemma peer_ok_new: "peer_ok peer_tx_state_new"
  by (simp add: peer_ok_def peer_tx_state_new_def sizes_sum_def)

lemma bytes_inv_filter:
  assumes "bytes_inv st"
  shows "bytes_inv (snd (filter_advertised st a ts))"
proof -
  define p where "p = (case map_of (ts_peers st) a of Some p \<Rightarrow> p | None \<Rightarrow> peer_tx_state_new)"
  obtain p' fo where f: "filter_loop (ts_known st \<union> ts_global_in_flight st) ts
      (p, \<lparr>fo_to_fetch = [], fo_already_known = []\<rparr>) = (p', fo)" by fastforce
  note keep = filter_loop_keeps [OF f]
  have st': "snd (filter_advertised st a ts) = st\<lparr>ts_peers := AList.update a p' (ts_peers st)\<rparr>"
    using f by (simp add: filter_advertised_def p_def [symmetric])
  show ?thesis
  proof (cases "map_of (ts_peers st) a")
    case None
    have "peer_ok p'" "pt_inflight_bytes p' = 0"
      using keep peer_ok_new None by (simp_all add: p_def peer_ok_def peer_tx_state_new_def)
    with bytes_inv_insert [OF assms None] show ?thesis by (simp only: st')
  next
    case (Some q)
    have "peer_ok p'" using keep peer_le_total [OF assms Some] Some
      by (simp add: p_def peer_ok_def)
    from bytes_inv_update [OF assms Some this, of "ts_inflight_bytes_total st" "ts_global_in_flight st"]
    show ?thesis using keep Some by (simp add: st' p_def)
  qed
qed

text \<open>The bytes an event asks for.\<close>

fun event_bytes :: "'addr tx_event \<Rightarrow> nat" where
  "event_bytes (MarkInFlightSized a szs) = sized_bytes szs"
| "event_bytes _ = 0"

lemma bytes_inv_not_found:
  assumes "bytes_inv st"
  shows "bytes_inv (mark_not_found st a ts)
    \<and> unat (ts_inflight_bytes_total (mark_not_found st a ts)) \<le> unat (ts_inflight_bytes_total st)"
proof (cases "map_of (ts_peers st) a")
  case (Some p)
  obtain p' tot' where f: "fold finish_txid ts (p, ts_inflight_bytes_total st) = (p', tot')"
    by fastforce
  note le = peer_le_total [OF assms Some]
  note sp = fold_finish_spec [OF f le [THEN conjunct1] le [THEN conjunct2]]
  from bytes_inv_update [OF assms Some sp [THEN conjunct1], of tot'] sp show ?thesis
    by (simp add: mark_not_found_def Some f)
qed (use assms in \<open>simp add: mark_not_found_def\<close>)

lemma bytes_inv_unregister:
  assumes "bytes_inv st"
  shows "bytes_inv (unregister_peer st a)
    \<and> unat (ts_inflight_bytes_total (unregister_peer st a)) \<le> unat (ts_inflight_bytes_total st)"
proof (cases "map_of (ts_peers st) a")
  case (Some p)
  have "peers_bytes (AList.delete a (ts_peers st)) + unat (pt_inflight_bytes p)
          = peers_bytes (ts_peers st)"
    using sum_list_delete [of "ts_peers st" "\<lambda>p. unat (pt_inflight_bytes p)" a] assms Some
    by (simp add: peers_bytes_def bytes_inv_def)
  with assms Some show ?thesis
    by (simp add: unregister_peer_def bytes_inv_def map_of_delete_if distinct_delete
        unat_saturating_sub)
qed (use assms in \<open>simp add: unregister_peer_def\<close>)

lemma bytes_inv_sized:
  assumes inv: "bytes_inv st" and lt: "unat (ts_inflight_bytes_total st) + sized_bytes szs < 2 ^ 64"
  shows "bytes_inv (mark_in_flight_sized st a szs)
    \<and> unat (ts_inflight_bytes_total (mark_in_flight_sized st a szs))
         \<le> unat (ts_inflight_bytes_total st) + sized_bytes szs"
proof (cases "map_of (ts_peers st) a")
  case (Some p)
  obtain p' g' tot'
    where f: "fold start_sized szs (p, ts_global_in_flight st, ts_inflight_bytes_total st)
                = (p', g', tot')"
    using prod_cases3 by blast
  note le = peer_le_total [OF inv Some]
  note sp = fold_start_spec [OF f le [THEN conjunct1] le [THEN conjunct2] lt]
  from bytes_inv_update [OF inv Some sp [THEN conjunct1], of tot' g'] sp show ?thesis
    by (simp add: mark_in_flight_sized_def Some f)
qed (use assms in \<open>simp add: mark_in_flight_sized_def\<close>)

lemma bytes_inv_in_flight:
  assumes inv: "bytes_inv st"
  shows "bytes_inv (mark_in_flight st a ts)"
proof (cases "map_of (ts_peers st) a")
  case (Some p)
  have "peer_ok (p\<lparr>pt_in_flight := pt_in_flight p \<union> set ts\<rparr>)"
    using peer_le_total [OF inv Some] by (auto simp: peer_ok_def)
  from bytes_inv_update [OF inv Some this, of "ts_inflight_bytes_total st"] show ?thesis
    by (simp add: mark_in_flight_def Some)
qed (use assms in \<open>simp add: mark_in_flight_def\<close>)

lemma bytes_inv_more [simp]:
  "bytes_inv (st\<lparr>ts_known := k\<rparr>) = bytes_inv st"
  "bytes_inv (st\<lparr>ts_known_order := ks\<rparr>) = bytes_inv st"
  "bytes_inv (st\<lparr>ts_global_in_flight := g\<rparr>) = bytes_inv st"
  by (simp_all add: bytes_inv_def)

lemma tx_step_bytes:
  assumes inv: "bytes_inv st" and known: "known_inv st" and step: "tx_step e st = Some st'"
    and lt: "unat (ts_inflight_bytes_total st) + event_bytes e < 2 ^ 64"
  shows "bytes_inv st' \<and>
    unat (ts_inflight_bytes_total st') \<le> unat (ts_inflight_bytes_total st) + event_bytes e"
proof (cases e)
  case (RegisterPeer a)
  then show ?thesis
  proof (cases "map_of (ts_peers st) a")
    case None
    from bytes_inv_insert [OF inv None peer_ok_new] show ?thesis using step RegisterPeer None
      by (auto simp: register_peer_def peer_tx_state_new_def)
  qed (use inv step in \<open>simp add: register_peer_def\<close>)
next
  case (MarkReceived a ts)
  have "known_inv (mark_not_found st a ts)"
    using known by (simp add: known_inv_def mark_not_found_known)
  from insert_known_all_total [OF this, of ts] bytes_inv_not_found [OF inv, of a ts] step MarkReceived
  show ?thesis by (auto simp: mark_received_def)
next
  case (MarkConfirmed ts)
  obtain ps tot where f: "finish_peers ts (ts_peers st) (ts_inflight_bytes_total st) = (ps, tot)"
    by fastforce
  have "distinct (map fst (ts_peers st))" "\<forall>a p. map_of (ts_peers st) a = Some p \<longrightarrow> peer_ok p"
    "peers_bytes (ts_peers st) \<le> unat (ts_inflight_bytes_total st)"
    using inv by (simp_all add: bytes_inv_def)
  note sp = finish_peers_spec [OF f this]
  from confirm_all_total [OF known, of ts] sp inv step MarkConfirmed f show ?thesis
    by (auto simp: mark_confirmed_def bytes_inv_def)
next
  case (UnregisterPeer a)
  then show ?thesis using bytes_inv_unregister [OF inv, of a] step by auto
next
  case (FilterAdvertised a ts)
  then show ?thesis using bytes_inv_filter [OF inv, of a ts] step
    by (auto simp: filter_advertised_def split_def Let_def)
next
  case (MarkInFlight a ts)
  then show ?thesis using bytes_inv_in_flight [OF inv, of a ts] step
    by (auto simp: mark_in_flight_def split: option.splits)
next
  case (MarkInFlightSized a szs)
  then show ?thesis using bytes_inv_sized [OF inv, of szs a] lt step by simp
next
  case (MarkNotFound a ts)
  then show ?thesis using bytes_inv_not_found [OF inv, of a ts] step by auto
qed

lemma tx_run_bytes:
  "\<lbrakk>bytes_inv st; known_inv st; tx_run es st = Some st';
    unat (ts_inflight_bytes_total st) + sum_list (map event_bytes es) < 2 ^ 64\<rbrakk> \<Longrightarrow> bytes_inv st'"
proof (induction es arbitrary: st)
  case (Cons e es)
  from tx_step_known [OF Cons.prems(2), of e] obtain st1
    where st1: "tx_step e st = Some st1" "known_inv st1" by blast
  have lt: "unat (ts_inflight_bytes_total st) + event_bytes e < 2 ^ 64"
    using Cons.prems(4) by (simp only: list.map sum_list.Cons)
  note s1 = tx_step_bytes [OF Cons.prems(1,2) st1(1) lt]
  have "unat (ts_inflight_bytes_total st1) + sum_list (map event_bytes es) < 2 ^ 64"
    using Cons.prems(4) s1 by (simp only: list.map sum_list.Cons) linarith
  from Cons.IH [OF s1 [THEN conjunct1] st1(2) _ this] Cons.prems(3) st1(1) show ?case by simp
qed simp

text \<open>
  C26. As long as all sizes ever requested add up to less than \<open>2^64\<close>, the saturating counters are
  exact after every sequence of operations: the bytes of a peer are the sum of the recorded sizes
  of what it has in flight, and the global counter is the sum over the peers. So no operation
  leaks bytes: a peer without fetches, or no peer at all, has a count of zero.
\<close>

theorem tx_state_bytes_exact:
  assumes "tx_run es (tx_state_new cap) = Some st"
    and "sum_list (map event_bytes es) < 2 ^ 64"
  shows "unat (ts_inflight_bytes_total st)
      = sum_list (map (\<lambda>(a, p). unat (pt_inflight_bytes p)) (ts_peers st))
    \<and> (\<forall>a p. map_of (ts_peers st) a = Some p \<longrightarrow>
         unat (peer_inflight_bytes st a)
           = (\<Sum>t\<in>dom (pt_in_flight_sizes p). unat (the (pt_in_flight_sizes p t)))
         \<and> dom (pt_in_flight_sizes p) \<subseteq> pt_in_flight p)"
proof -
  have "bytes_inv (tx_state_new cap :: 'a tx_state)"
    by (simp add: bytes_inv_def tx_state_new_def peers_bytes_def)
  moreover have "unat (ts_inflight_bytes_total (tx_state_new cap :: 'a tx_state))
      + sum_list (map event_bytes es) < 2 ^ 64"
    using assms(2) by (simp add: tx_state_new_def)
  ultimately have "bytes_inv st" using tx_run_bytes known_inv_new assms(1) by blast
  then show ?thesis
    by (auto simp: bytes_inv_def peers_bytes_def comp_def split_def peer_inflight_bytes_def
        peer_ok_def sizes_sum_def)
qed

lemma tx_state_bytes_exact_witness:
  "\<exists>st. tx_run [RegisterPeer (7::nat), FilterAdvertised 7 [[1], [2]],
                MarkInFlightSized 7 [([1], 300), ([2], 40)], MarkReceived 7 [[1]]] (tx_state_new 8)
          = Some st
     \<and> unat (ts_inflight_bytes_total st)
         = sum_list (map (\<lambda>(a, p). unat (pt_inflight_bytes p)) (ts_peers st))
     \<and> unat (ts_inflight_bytes_total st) = 40"
proof -
  let ?es = "[RegisterPeer (7::nat), FilterAdvertised 7 [[1], [2]],
                MarkInFlightSized 7 [([1], 300), ([2], 40)], MarkReceived 7 [[1]]]"
  have r: "tx_run ?es (tx_state_new 8) = Some
    \<lparr>ts_known = {[1]}, ts_known_order = [[1]], ts_known_capacity = 8,
     ts_global_in_flight = {[2]}, ts_inflight_bytes_total = 40,
     ts_peers = [(7, \<lparr>pt_unacknowledged = {[2]}, pt_in_flight = {[2]},
        pt_in_flight_sizes = [[2] \<mapsto> 40], pt_inflight_bytes = 40\<rparr>)]\<rparr>" (is "_ = Some ?st")
    by (auto simp: tx_state_new_def register_peer_def peer_tx_state_new_def filter_advertised_def
        mark_in_flight_sized_def mark_received_def mark_not_found_def insert_known_def
        saturating_add_def saturating_sub_def fun_eq_iff)
  have "sum_list (map event_bytes ?es) < 2 ^ 64" by (simp add: sized_bytes_def)
  from tx_state_bytes_exact [OF r this] have "unat (ts_inflight_bytes_total ?st)
      = sum_list (map (\<lambda>(a, p). unat (pt_inflight_bytes p)) (ts_peers ?st))" by blast
  with r show ?thesis by simp
qed

end
