(* ===== verification/TxServer.thy ===== *)
theory TxServer
  imports TxState
begin

text \<open>
  The inbound TxSubmission server, \<open>run_txsubmission_server\<close> in
  \<open>src/crates/node/ntn-server/src/lib.rs\<close>: how many identifiers it asks for, which of the
  advertised ones it fetches within its count and byte budgets, what it acknowledges, and how it
  books the reply in the shared transaction state. The loop body is cut at its two awaits, the
  reply with identifiers and the reply with bodies; sending and receiving, timeouts and metrics
  are outside the model. Every access to the shared state takes the lock anew, so operations of
  other servers may run between any two of them.
\<close>

section \<open>Model\<close>

definition MAX_TXS_SIZE_INFLIGHT_PER_PEER :: u64 where
  "MAX_TXS_SIZE_INFLIGHT_PER_PEER = 64 * 1024"

definition MAX_TXS_SIZE_INFLIGHT_TOTAL :: u64 where
  "MAX_TXS_SIZE_INFLIGHT_TOTAL = 64 * 1024 * 32"

definition MAX_UNACKNOWLEDGED_TXIDS_PER_PEER :: u16 where
  "MAX_UNACKNOWLEDGED_TXIDS_PER_PEER = 64"

definition MAX_TXS_REQUESTED_PER_PEER :: nat where
  "MAX_TXS_REQUESTED_PER_PEER = 32"

definition TXSUBMISSION_BATCH_SIZE :: u16 where
  "TXSUBMISSION_BATCH_SIZE = 16"

text \<open>The size of an advertised transaction, \<open>sizes.get(t).copied().unwrap_or(0)\<close>.\<close>

definition size_or_zero :: "(tx_id \<rightharpoonup> u32) \<Rightarrow> tx_id \<Rightarrow> u32" where
  "size_or_zero sizes t = (case sizes t of Some sz \<Rightarrow> sz | None \<Rightarrow> 0)"

fun byte_budget_loop ::
    "(tx_id \<rightharpoonup> u32) \<Rightarrow> tx_id list \<Rightarrow> tx_id list \<Rightarrow> u64 \<Rightarrow> tx_id list" where
  "byte_budget_loop sizes [] admitted remaining = admitted"
| "byte_budget_loop sizes (t # ts) admitted remaining =
     (let sz = ucast (size_or_zero sizes t) in
      if admitted = [] \<or> sz \<le> remaining
      then byte_budget_loop sizes ts (admitted @ [t]) (saturating_sub remaining sz)
      else admitted)"

definition select_within_byte_budget ::
    "tx_id list \<Rightarrow> (tx_id \<rightharpoonup> u32) \<Rightarrow> u64 \<Rightarrow> tx_id list \<times> nat" where
  "select_within_byte_budget candidates sizes budget_remaining =
     (let admitted = byte_budget_loop sizes candidates [] budget_remaining
      in (admitted, length candidates - length admitted))"

definition clamp_to_count_budget :: "tx_id list \<Rightarrow> nat \<Rightarrow> tx_id list \<times> nat" where
  "clamp_to_count_budget candidates budget_remaining =
     (if candidates = [] then ([], 0)
      else let n = min (max budget_remaining 1) (length candidates)
           in (take n candidates, length candidates - n))"

definition clamp_request_count :: "nat \<Rightarrow> u16 \<Rightarrow> u16 \<Rightarrow> u16 \<Rightarrow> u16" where
  "clamp_request_count unacked ack batch max_unacked =
     (let outstanding = unacked - unat ack;
          headroom = unat max_unacked - outstanding
      in of_nat (max (min (unat batch) headroom) 1))"

text \<open>The argument \<open>dedup\<close>: the shared state with the address of the peer, or nothing.\<close>

type_synonym 'addr dedup = "('addr tx_state \<times> 'addr) option"

text \<open>The number of identifiers asked for at the head of the loop.\<close>

fun server_request_count :: "'addr dedup \<Rightarrow> u16 \<Rightarrow> u16" where
  "server_request_count (Some (st, a)) ack =
     clamp_request_count (peer_unacked_count st a) ack TXSUBMISSION_BATCH_SIZE
       MAX_UNACKNOWLEDGED_TXIDS_PER_PEER"
| "server_request_count None ack = TXSUBMISSION_BATCH_SIZE"

text \<open>The counts and budgets, read from the state after the filter, and what they admit.\<close>

definition admit :: "'addr tx_state \<Rightarrow> 'addr \<Rightarrow> tx_id list \<Rightarrow> (tx_id \<rightharpoonup> u32) \<Rightarrow> tx_id list \<times> nat" where
  "admit st a to_fetch sizes =
     (let count_remaining = MAX_TXS_REQUESTED_PER_PEER - peer_inflight_count st a;
          (count_admitted, count_deferred) = clamp_to_count_budget to_fetch count_remaining;
          per_peer_remaining =
            saturating_sub MAX_TXS_SIZE_INFLIGHT_PER_PEER (peer_inflight_bytes st a);
          global_remaining =
            saturating_sub MAX_TXS_SIZE_INFLIGHT_TOTAL (ts_inflight_bytes_total st);
          (admitted, byte_deferred) =
            select_within_byte_budget count_admitted sizes (min per_peer_remaining global_remaining)
      in (admitted, count_deferred + byte_deferred))"

definition ack_of :: "nat \<Rightarrow> u16" where
  "ack_of n = of_nat (min n 65535)"

datatype tx_ids_reply = TxIdsDone | TxIds "(tx_id \<times> u32) list"

text \<open>
  What the server does after a reply with identifiers: stop, ask again with this acknowledgement,
  or fetch these bodies, acknowledging that many identifiers with the next request.
\<close>

datatype 'addr server_next =
    ServerDone "'addr dedup"
  | AskAgain u16 "'addr dedup"
  | FetchTxs "tx_id list" u16 "tx_id \<rightharpoonup> u32" "'addr dedup"

fun on_tx_ids_reply :: "'addr dedup \<Rightarrow> tx_ids_reply \<Rightarrow> 'addr server_next" where
  "on_tx_ids_reply (Some (st, a)) TxIdsDone = ServerDone (Some (unregister_peer st a, a))"
| "on_tx_ids_reply None TxIdsDone = ServerDone None"
| "on_tx_ids_reply d (TxIds []) = AskAgain 0 d"
| "on_tx_ids_reply None (TxIds items) =
     FetchTxs (map fst items) (ack_of (length items)) (map_of (rev items)) None"
| "on_tx_ids_reply (Some (st, a)) (TxIds items) =
     (let sizes = map_of (rev items);
          (fo, st1) = filter_advertised st a (map fst items)
      in if fo_to_fetch fo = [] then AskAgain (ack_of (length items)) (Some (st1, a))
         else let (admitted, deferred) = admit st1 a (fo_to_fetch fo) sizes;
                  st2 = mark_in_flight_sized st1 a (map (\<lambda>t. (t, size_or_zero sizes t)) admitted)
              in FetchTxs admitted (ack_of (length items - deferred)) sizes (Some (st2, a)))"






section \<open>Budgets\<close>

definition bytes_of :: "(tx_id \<rightharpoonup> u32) \<Rightarrow> tx_id list \<Rightarrow> nat" where
  "bytes_of sizes ts = sum_list (map (\<lambda>t. unat (size_or_zero sizes t)) ts)"

lemma bytes_of_simps [simp]:
  "bytes_of sizes [] = 0"
  "bytes_of sizes (t # ts) = unat (size_or_zero sizes t) + bytes_of sizes ts"
  by (simp_all add: bytes_of_def)

lemma unat_ucast_u32_u64: "unat (ucast (x :: u32) :: u64) = unat x"
  by (rule unat_ucast_fits) (use unat_lt_2p [of x] in simp)

lemma byte_budget_loop_later:
  "admitted \<noteq> [] \<Longrightarrow>
     \<exists>ys rest. ts = ys @ rest \<and> byte_budget_loop sizes ts admitted remaining = admitted @ ys
       \<and> bytes_of sizes ys \<le> unat remaining
       \<and> (rest \<noteq> [] \<longrightarrow> unat remaining < bytes_of sizes ys + unat (size_or_zero sizes (hd rest)))"
proof (induction ts arbitrary: admitted remaining)
  case (Cons t ts)
  let ?sz = "ucast (size_or_zero sizes t) :: u64"
  show ?case
  proof (cases "?sz \<le> remaining")
    case True
    have le: "unat (size_or_zero sizes t) \<le> unat remaining"
      using True by (simp add: word_le_nat_alt unat_ucast_u32_u64)
    have sub: "unat (saturating_sub remaining ?sz) = unat remaining - unat (size_or_zero sizes t)"
      by (simp add: unat_saturating_sub unat_ucast_u32_u64)
    obtain ys rest where "ts = ys @ rest"
      "byte_budget_loop sizes ts (admitted @ [t]) (saturating_sub remaining ?sz) = (admitted @ [t]) @ ys"
      "bytes_of sizes ys \<le> unat (saturating_sub remaining ?sz)"
      "rest \<noteq> [] \<longrightarrow> unat (saturating_sub remaining ?sz)
          < bytes_of sizes ys + unat (size_or_zero sizes (hd rest))"
      using Cons.IH [of "admitted @ [t]" "saturating_sub remaining ?sz"] by auto
    with True le show ?thesis unfolding sub
      by - (rule exI [of _ "t # ys"], rule exI [of _ rest], auto)
  next
    case False
    then have "unat remaining < unat (size_or_zero sizes t)"
      by (simp add: word_le_nat_alt unat_ucast_u32_u64)
    with False Cons.prems show ?thesis
      by - (rule exI [of _ "[]"], rule exI [of _ "t # ts"], simp)
  qed
qed simp

text \<open>
  The greedy choice admits a prefix: never an empty one when there is a candidate, within the
  budget unless the first candidate alone exceeds it, and as long as the budget allows.
\<close>

lemma select_within_byte_budget_spec:
  assumes "select_within_byte_budget candidates sizes budget = (admitted, deferred)"
    and "candidates \<noteq> []"
  shows "\<exists>rest. candidates = admitted @ rest \<and> deferred = length rest \<and> admitted \<noteq> []
     \<and> bytes_of sizes admitted \<le> max (unat budget) (unat (size_or_zero sizes (hd candidates)))
     \<and> (rest \<noteq> [] \<longrightarrow> unat budget < bytes_of sizes admitted + unat (size_or_zero sizes (hd rest)))"
proof -
  obtain t ts where c: "candidates = t # ts" using assms(2) by (cases candidates) auto
  let ?rem = "saturating_sub budget (ucast (size_or_zero sizes t))"
  have sub: "unat ?rem = unat budget - unat (size_or_zero sizes t)"
    by (simp add: unat_saturating_sub unat_ucast_u32_u64)
  obtain ys rest where "ts = ys @ rest" "byte_budget_loop sizes ts [t] ?rem = [t] @ ys"
    "bytes_of sizes ys \<le> unat ?rem"
    "rest \<noteq> [] \<longrightarrow> unat ?rem < bytes_of sizes ys + unat (size_or_zero sizes (hd rest))"
    using byte_budget_loop_later [of "[t]" ts sizes ?rem] by auto
  moreover from this have "admitted = t # ys" "deferred = length rest"
    using assms(1) c by (auto simp: select_within_byte_budget_def Let_def)
  ultimately show ?thesis unfolding sub c by (intro exI [of _ rest]) auto
qed

lemma clamp_to_count_budget_spec:
  "clamp_to_count_budget candidates n = (take (max n 1) candidates, length candidates - max n 1)"
  by (auto simp: clamp_to_count_budget_def Let_def min_def)


text \<open>What \<open>filter_advertised\<close> answers: the two lists partition the advertised ones in order.\<close>

lemma filter_loop_outcome:
  "filter_loop seen ts (p, fo) = (p', fo') \<Longrightarrow>
     fo_to_fetch fo' = fo_to_fetch fo @ filter (\<lambda>t. t \<notin> seen) ts
     \<and> fo_already_known fo' = fo_already_known fo @ filter (\<lambda>t. t \<in> seen) ts
     \<and> pt_unacknowledged p' = pt_unacknowledged p \<union> (set ts - seen)"
  by (induction seen ts "(p, fo)" arbitrary: p fo rule: filter_loop.induct)
     (fastforce split: if_splits)+

lemma filter_advertised_spec:
  assumes "filter_advertised st a ts = (fo, st')"
  shows "fo_to_fetch fo = filter (\<lambda>t. t \<notin> ts_known st \<union> ts_global_in_flight st) ts
     \<and> fo_already_known fo = filter (\<lambda>t. t \<in> ts_known st \<union> ts_global_in_flight st) ts
     \<and> ts_inflight_bytes_total st' = ts_inflight_bytes_total st
     \<and> peer_inflight_bytes st' a = peer_inflight_bytes st a
     \<and> peer_inflight_count st' a = peer_inflight_count st a
     \<and> ts_global_in_flight st' = ts_global_in_flight st"
proof -
  define p where "p = (case map_of (ts_peers st) a of Some p \<Rightarrow> p | None \<Rightarrow> peer_tx_state_new)"
  obtain p' fo' where f: "filter_loop (ts_known st \<union> ts_global_in_flight st) ts
      (p, \<lparr>fo_to_fetch = [], fo_already_known = []\<rparr>) = (p', fo')" by fastforce
  have "fo = fo'" "st' = st\<lparr>ts_peers := AList.update a p' (ts_peers st)\<rparr>"
    using assms f by (simp_all add: filter_advertised_def p_def [symmetric])
  with filter_loop_outcome [OF f] filter_loop_keeps [OF f] show ?thesis
    by (auto simp: peer_inflight_bytes_def peer_inflight_count_def map_of_update_if p_def
        peer_tx_state_new_def split: option.splits)
qed

lemma on_tx_ids_reply_items:
  assumes "items \<noteq> []"
  shows "on_tx_ids_reply (Some (st, a)) (TxIds items) =
     (let sizes = map_of (rev items);
          (fo, st1) = filter_advertised st a (map fst items)
      in if fo_to_fetch fo = [] then AskAgain (ack_of (length items)) (Some (st1, a))
         else let (admitted, deferred) = admit st1 a (fo_to_fetch fo) sizes;
                  st2 = mark_in_flight_sized st1 a (map (\<lambda>t. (t, size_or_zero sizes t)) admitted)
              in FetchTxs admitted (ack_of (length items - deferred)) sizes (Some (st2, a)))"
proof (cases items)
  case (Cons x xs)
  show ?thesis by (simp only: Cons on_tx_ids_reply.simps)
qed (use assms in simp)

text \<open>
  C25. When the server decides to fetch, it asks for a nonempty prefix of the advertised
  identifiers that were neither known nor being fetched; their number stays within what the
  per-peer cap of 32 leaves (or is one), their advertised bytes within what both byte budgets
  leave (or the first alone exceeds them), and the acknowledgement is the number of advertised
  identifiers without the ones put off.
\<close>

theorem server_fetch_within_budget:
  assumes "on_tx_ids_reply (Some (st, a)) (TxIds items) = FetchTxs req ack sizes d"
  defines "fresh \<equiv> filter (\<lambda>t. t \<notin> ts_known st \<union> ts_global_in_flight st) (map fst items)"
  shows "\<exists>rest. fresh = req @ rest \<and> req \<noteq> []
     \<and> length req \<le> max 1 (32 - peer_inflight_count st a)
     \<and> bytes_of sizes req
         \<le> max (unat (size_or_zero sizes (hd req)))
              (min (65536 - unat (peer_inflight_bytes st a))
                   (2097152 - unat (ts_inflight_bytes_total st)))
     \<and> ack = ack_of (length items - length rest)"
proof -
  obtain fo st1 where f: "filter_advertised st a (map fst items) = (fo, st1)" by fastforce
  note fs = filter_advertised_spec [OF f]
  define cand where "cand = take (max (32 - peer_inflight_count st a) 1) fresh"
  define budget where "budget = min (saturating_sub MAX_TXS_SIZE_INFLIGHT_PER_PEER (peer_inflight_bytes st a))
    (saturating_sub MAX_TXS_SIZE_INFLIGHT_TOTAL (ts_inflight_bytes_total st))"
  obtain adm bd where s: "select_within_byte_budget cand sizes budget = (adm, bd)" by fastforce
  have items: "items \<noteq> []" using assms(1) by (cases items) auto
  have fetch: "fo_to_fetch fo = fresh" using fs by (simp add: fresh_def)
  have ne: "fresh \<noteq> []" and sizes: "sizes = map_of (rev items)"
    using assms(1) fetch by (auto simp: on_tx_ids_reply_items [OF items] f Let_def split: if_splits prod.splits)
  have "admit st1 a fresh sizes
      = (adm, length fresh - max (32 - peer_inflight_count st a) 1 + bd)"
    using s fs by (simp add: admit_def clamp_to_count_budget_spec cand_def budget_def
        MAX_TXS_REQUESTED_PER_PEER_def)
  with ne sizes have eqs: "fresh \<noteq> []" "req = adm"
    "ack = ack_of (length items - (length fresh - max (32 - peer_inflight_count st a) 1 + bd))"
    using assms(1) fetch by (auto simp: on_tx_ids_reply_items [OF items] f Let_def)
  then have "cand \<noteq> []" by (simp add: cand_def)
  from select_within_byte_budget_spec [OF s this] obtain rest
    where r: "cand = adm @ rest" "bd = length rest" "adm \<noteq> []"
      "bytes_of sizes adm \<le> max (unat budget) (unat (size_or_zero sizes (hd cand)))" by auto
  let ?more = "drop (max (32 - peer_inflight_count st a) 1) fresh"
  have "fresh = adm @ rest @ ?more" using r(1) cand_def by (metis append.assoc append_take_drop_id)
  moreover have "length adm \<le> length cand" using r(1) by simp
  then have "length adm \<le> max 1 (32 - peer_inflight_count st a)" by (simp add: cand_def max.commute)
  moreover have "unat budget = min (65536 - unat (peer_inflight_bytes st a))
                   (2097152 - unat (ts_inflight_bytes_total st))"
    by (simp add: budget_def unat_saturating_sub MAX_TXS_SIZE_INFLIGHT_PER_PEER_def
        MAX_TXS_SIZE_INFLIGHT_TOTAL_def min_def word_le_nat_alt)
  ultimately show ?thesis using r eqs by (intro exI [of _ "rest @ ?more"]) (auto simp: max.commute add.commute)
qed

lemma server_fetch_within_budget_witness:
  "\<exists>req ack sizes d rest.
     on_tx_ids_reply (Some (tx_state_new 8, 7 :: nat)) (TxIds [([1], 300), ([2], 70000)])
       = FetchTxs req ack sizes d
     \<and> filter (\<lambda>t. t \<notin> ts_known (tx_state_new 8 :: nat tx_state)
           \<union> ts_global_in_flight (tx_state_new 8 :: nat tx_state)) [[1], [2]] = req @ rest
     \<and> req = [[1]] \<and> ack = 1"
proof -
  let ?r = "on_tx_ids_reply (Some (tx_state_new 8, 7 :: nat)) (TxIds [([1], 300), ([2], 70000)])"
  obtain d where r: "?r = FetchTxs [[1]] 1 (map_of [([2], 70000), ([1], 300)]) d"
    by (auto simp: filter_advertised_def tx_state_new_def peer_tx_state_new_def admit_def
        clamp_to_count_budget_def select_within_byte_budget_def size_or_zero_def saturating_sub_def
        peer_inflight_bytes_def peer_inflight_count_def ack_of_def Let_def
        MAX_TXS_SIZE_INFLIGHT_PER_PEER_def MAX_TXS_SIZE_INFLIGHT_TOTAL_def
        MAX_TXS_REQUESTED_PER_PEER_def min_def max_def)
  from server_fetch_within_budget [OF r] r show ?thesis by auto
qed


section \<open>No transaction is fetched twice at the same time\<close>
























lemmas server_eval = filter_advertised_def tx_state_new_def peer_tx_state_new_def admit_def
  register_peer_def mark_in_flight_sized_def
  clamp_to_count_budget_def select_within_byte_budget_def size_or_zero_def saturating_sub_def
  saturating_add_def peer_inflight_bytes_def peer_inflight_count_def ack_of_def Let_def
  MAX_TXS_SIZE_INFLIGHT_PER_PEER_def MAX_TXS_SIZE_INFLIGHT_TOTAL_def
  MAX_TXS_REQUESTED_PER_PEER_def min_def max_def


text \<open>
  The condition matters: the code takes the lock anew for the filter and for the marking, and two
  servers that both filter before either marks fetch the same transaction.
\<close>

lemma interleaved_rounds_fetch_twice:
  "\<exists>st p q. tx_run [RegisterPeer (1 :: nat), RegisterPeer 2,
        FilterAdvertised 1 [[9]], FilterAdvertised 2 [[9]],
        MarkInFlightSized 1 [([9], 300)], MarkInFlightSized 2 [([9], 300)]] (tx_state_new 8) = Some st
     \<and> map_of (ts_peers st) 1 = Some p \<and> map_of (ts_peers st) 2 = Some q
     \<and> [9] \<in> pt_in_flight p \<inter> pt_in_flight q"
  by (simp add: server_eval)

text \<open>
  Acknowledgements are positional: the peer drops that many identifiers from the front of its
  queue. The identifiers put off are the last of the fresh ones, not the last advertised: here the
  second one is put off and acknowledged all the same, because a known one follows it.
\<close>

lemma deferred_is_acknowledged:
  "\<exists>sizes d. on_tx_ids_reply
       (Some ((tx_state_new 8)\<lparr>ts_known := {[3]}, ts_known_order := [[3]]\<rparr>, 7 :: nat))
       (TxIds [([1], 300), ([2], 70000), ([3], 10)]) = FetchTxs [[1]] 2 sizes d
     \<and> [2] \<in> set (take (unat (2 :: u16)) [[1], [2], [3 :: u8]])"
  by (simp add: server_eval)

end
