(* ===== verification/Nonce.thy ===== *)
theory Nonce
  imports Epoch
begin

text \<open>
  The evolution of the epoch nonce, \<open>src/crates/consensus/src/nonce/evolution.rs\<close>, and the
  derivation of a block's contribution from its VRF output, \<open>nonce/derivation.rs\<close>. Blake2b-256 is
  the argument \<open>blake2b256\<close>; sums of slots wrap at 64 bits, a zero epoch size panics.
\<close>

section \<open>Model\<close>

datatype nonce_derivation = TPraosNonce | PraosNonce

definition vrf_output_to_nonce :: "(bytes \<Rightarrow> bytes) \<Rightarrow> bytes \<Rightarrow> nonce" where
  "vrf_output_to_nonce blake2b256 out = Hash (blake2b256 out)"

text \<open>The prefix is the ASCII code of \<open>N\<close>, 78.\<close>

definition praos_vrf_output_to_nonce :: "(bytes \<Rightarrow> bytes) \<Rightarrow> bytes \<Rightarrow> nonce" where
  "praos_vrf_output_to_nonce blake2b256 out = Hash (blake2b256 (blake2b256 (78 # out)))"

fun derive_vrf_nonce :: "(bytes \<Rightarrow> bytes) \<Rightarrow> bytes \<Rightarrow> nonce_derivation \<Rightarrow> nonce" where
  "derive_vrf_nonce blake2b256 out TPraosNonce = vrf_output_to_nonce blake2b256 out"
| "derive_vrf_nonce blake2b256 out PraosNonce = praos_vrf_output_to_nonce blake2b256 out"

record nonce_config =
  nc_epoch_size :: u64
  nc_stability_window :: u64
  nc_extra_entropy :: nonce
  nc_byron_shelley_transition :: "(u64 \<times> u64) option"

definition nc_slot_to_epoch :: "nonce_config \<Rightarrow> slot_no \<Rightarrow> ('e, epoch_no) result" where
  "nc_slot_to_epoch cfg slot =
     (case nc_byron_shelley_transition cfg of
        Some (boundary_slot, first_shelley_epoch) \<Rightarrow>
          if slot \<ge> boundary_slot
          then map_ok (\<lambda>q. first_shelley_epoch + q) (udiv (slot - boundary_slot) (nc_epoch_size cfg))
          else Ok 0
      | None \<Rightarrow> slot_to_epoch slot (nc_epoch_size cfg))"

definition nc_epoch_first_slot :: "nonce_config \<Rightarrow> epoch_no \<Rightarrow> slot_no" where
  "nc_epoch_first_slot cfg epoch =
     (case nc_byron_shelley_transition cfg of
        Some (boundary_slot, first_shelley_epoch) \<Rightarrow>
          if epoch \<ge> first_shelley_epoch
          then boundary_slot + (epoch - first_shelley_epoch) * nc_epoch_size cfg
          else 0
      | None \<Rightarrow> epoch_first_slot epoch (nc_epoch_size cfg))"

record nonce_state =
  ns_evolving_nonce :: nonce
  ns_candidate_nonce :: nonce
  ns_epoch_nonce :: nonce
  ns_prev_hash_nonce :: nonce
  ns_lab_nonce :: nonce
  ns_current_epoch :: epoch_no

definition nonce_state_new :: "nonce \<Rightarrow> nonce_state" where
  "nonce_state_new initial_nonce =
     \<lparr>ns_evolving_nonce = initial_nonce, ns_candidate_nonce = initial_nonce,
      ns_epoch_nonce = initial_nonce, ns_prev_hash_nonce = Neutral, ns_lab_nonce = Neutral,
      ns_current_epoch = 0\<rparr>"

definition nonce_state_from_epoch :: "epoch_no \<Rightarrow> nonce \<Rightarrow> nonce_state" where
  "nonce_state_from_epoch epoch epoch_nonce =
     \<lparr>ns_evolving_nonce = epoch_nonce, ns_candidate_nonce = epoch_nonce,
      ns_epoch_nonce = epoch_nonce, ns_prev_hash_nonce = Neutral, ns_lab_nonce = Neutral,
      ns_current_epoch = epoch\<rparr>"

definition tick_epoch_transition ::
    "(bytes \<Rightarrow> bytes) \<Rightarrow> nonce_config \<Rightarrow> nonce_state \<Rightarrow> nonce_state" where
  "tick_epoch_transition blake2b256 cfg st =
     st\<lparr>ns_epoch_nonce :=
          nonce_combine blake2b256
            (nonce_combine blake2b256 (ns_candidate_nonce st) (ns_prev_hash_nonce st))
            (nc_extra_entropy cfg),
        ns_prev_hash_nonce := ns_lab_nonce st\<rparr>"

definition prev_hash_to_nonce :: "header_hash option \<Rightarrow> nonce" where
  "prev_hash_to_nonce prev_hash =
     (case prev_hash of Some h \<Rightarrow> nonce_from_header_hash h | None \<Rightarrow> Neutral)"

definition in_stability_window :: "nonce_config \<Rightarrow> epoch_no \<Rightarrow> slot_no \<Rightarrow> bool" where
  "in_stability_window cfg block_epoch slot \<longleftrightarrow>
     slot + nc_stability_window cfg \<ge> nc_epoch_first_slot cfg (block_epoch + 1)"

definition apply_block ::
    "(bytes \<Rightarrow> bytes) \<Rightarrow> nonce_config \<Rightarrow> nonce_derivation \<Rightarrow> nonce_state
       \<Rightarrow> slot_no \<Rightarrow> bytes \<Rightarrow> header_hash option \<Rightarrow> ('e, nonce_state) result" where
  "apply_block blake2b256 cfg derivation st slot vrf_nonce_output prev_hash =
     map_ok (\<lambda>block_epoch.
       let st1 = (if block_epoch > ns_current_epoch st
                  then (tick_epoch_transition blake2b256 cfg st)\<lparr>ns_current_epoch := block_epoch\<rparr>
                  else st);
           eta = derive_vrf_nonce blake2b256 vrf_nonce_output derivation;
           st2 = st1\<lparr>ns_evolving_nonce := nonce_combine blake2b256 (ns_evolving_nonce st1) eta\<rparr>;
           st3 = (if \<not> in_stability_window cfg block_epoch slot
                  then st2\<lparr>ns_candidate_nonce := ns_evolving_nonce st2\<rparr> else st2)
       in st3\<lparr>ns_lab_nonce := prev_hash_to_nonce prev_hash\<rparr>)
     (nc_slot_to_epoch cfg slot)"

text \<open>A chain of blocks, each with its slot, VRF output and previous hash.\<close>

type_synonym nonce_block = "slot_no \<times> bytes \<times> header_hash option"

fun apply_blocks ::
    "(bytes \<Rightarrow> bytes) \<Rightarrow> nonce_config \<Rightarrow> nonce_derivation \<Rightarrow> nonce_state \<Rightarrow> nonce_block list
       \<Rightarrow> ('e, nonce_state) result" where
  "apply_blocks h cfg d st [] = Ok st"
| "apply_blocks h cfg d st ((slot, out, prev) # bs) =
     and_then (apply_block h cfg d st slot out prev) (\<lambda>st'. apply_blocks h cfg d st' bs)"


section \<open>Within an epoch\<close>

definition combine_outputs ::
    "(bytes \<Rightarrow> bytes) \<Rightarrow> nonce_derivation \<Rightarrow> nonce \<Rightarrow> nonce_block list \<Rightarrow> nonce" where
  "combine_outputs h d n bs =
     foldl (\<lambda>n (slot, out, prev). nonce_combine h n (derive_vrf_nonce h out d)) n bs"

lemma combine_outputs_simps [simp]:
  "combine_outputs h d n [] = n"
  "combine_outputs h d n ((s, out, prev) # bs)
     = combine_outputs h d (nonce_combine h n (derive_vrf_nonce h out d)) bs"
  by (simp_all add: combine_outputs_def)

lemma apply_block_same_epoch:
  assumes "nc_slot_to_epoch cfg slot = (Ok e :: ('e, _) result)" "e \<le> ns_current_epoch st"
  shows "(apply_block h cfg d st slot out prev :: ('e, _) result) = Ok
     (st\<lparr>ns_evolving_nonce := nonce_combine h (ns_evolving_nonce st) (derive_vrf_nonce h out d),
         ns_candidate_nonce :=
           (if in_stability_window cfg e slot then ns_candidate_nonce st
            else nonce_combine h (ns_evolving_nonce st) (derive_vrf_nonce h out d)),
         ns_lab_nonce := prev_hash_to_nonce prev\<rparr>)"
  using assms by (simp add: apply_block_def Let_def)

lemma apply_blocks_window:
  assumes "\<forall>(slot, out, prev)\<in>set bs. nc_slot_to_epoch cfg slot = (Ok (ns_current_epoch st) :: ('e, _) result)"
    and "sorted_wrt (\<lambda>(s, _) (s', _). in_stability_window cfg (ns_current_epoch st) s
           \<longrightarrow> in_stability_window cfg (ns_current_epoch st) s') bs"
  defines "before \<equiv> takeWhile (\<lambda>(s, _). \<not> in_stability_window cfg (ns_current_epoch st) s) bs"
  shows "(apply_blocks h cfg d st bs :: ('e, _) result) = Ok
     (st\<lparr>ns_evolving_nonce := combine_outputs h d (ns_evolving_nonce st) bs,
         ns_candidate_nonce := (if before = [] then ns_candidate_nonce st
                                else combine_outputs h d (ns_evolving_nonce st) before),
         ns_lab_nonce := (if bs = [] then ns_lab_nonce st
                          else prev_hash_to_nonce (snd (snd (last bs))))\<rparr>)"
  using assms(1,2) unfolding before_def
proof (induction bs arbitrary: st)
  case (Cons b bs)
  obtain slot out prev where b: "b = (slot, out, prev)" by (cases b)
  let ?w = "in_stability_window cfg (ns_current_epoch st)"
  let ?ev = "nonce_combine h (ns_evolving_nonce st) (derive_vrf_nonce h out d)"
  let ?st = "st\<lparr>ns_evolving_nonce := ?ev,
         ns_candidate_nonce := (if ?w slot then ns_candidate_nonce st else ?ev),
         ns_lab_nonce := prev_hash_to_nonce prev\<rparr>"
  have step: "(apply_block h cfg d st slot out prev :: ('e, _) result) = Ok ?st"
    by (rule apply_block_same_epoch) (use Cons.prems(1) b in auto)
  have IH: "(apply_blocks h cfg d ?st bs :: ('e, _) result) = Ok
     (?st\<lparr>ns_evolving_nonce := combine_outputs h d ?ev bs,
         ns_candidate_nonce := (if takeWhile (\<lambda>(s, _). \<not> ?w s) bs = [] then ns_candidate_nonce ?st
                                else combine_outputs h d ?ev (takeWhile (\<lambda>(s, _). \<not> ?w s) bs)),
         ns_lab_nonce := (if bs = [] then ns_lab_nonce ?st
                          else prev_hash_to_nonce (snd (snd (last bs))))\<rparr>)"
    using Cons.IH [of ?st] Cons.prems by simp
  have "takeWhile (\<lambda>(s, _). \<not> ?w s) bs = []" if "?w slot"
    using Cons.prems(2) that b by (cases bs) auto
  then show ?case using step IH b by auto
qed simp

lemma in_stability_window_mono:
  assumes "in_stability_window cfg e s" "s \<le> s'" "unat s' + unat (nc_stability_window cfg) < 2 ^ 64"
  shows "in_stability_window cfg e s'"
proof -
  let ?w = "nc_stability_window cfg"
  have le: "unat s \<le> unat s'" using assms(2) by (simp add: word_le_nat_alt)
  have "unat (s' + ?w) = unat s' + unat ?w" by (rule unat_add_no_overflow) (use assms(3) in simp)
  moreover have "unat (s + ?w) = unat s + unat ?w"
    by (rule unat_add_no_overflow) (use assms(3) le in simp)
  ultimately have "s + ?w \<le> s' + ?w" using le by (simp add: word_le_nat_alt)
  then show ?thesis using assms(1) by (auto simp: in_stability_window_def)
qed

text \<open>
  C29. Blocks of one epoch, in slot order: the evolving nonce absorbs all of them; the candidate
  absorbs exactly those before the stability window at the end of the epoch and is frozen from
  then on; the nonce of the epoch, its number and the nonce of the previous hash do not move, and
  the last block's previous hash is remembered. The slots stay far enough from \<open>2^64\<close> for the sum
  with the window not to wrap.
\<close>

theorem nonce_within_epoch:
  assumes "\<forall>(slot, out, prev)\<in>set bs.
      nc_slot_to_epoch cfg slot = (Ok (ns_current_epoch st) :: ('e, _) result)
      \<and> unat slot + unat (nc_stability_window cfg) < 2 ^ 64"
    and "sorted (map fst bs)"
  defines "before \<equiv> takeWhile (\<lambda>(s, _). \<not> in_stability_window cfg (ns_current_epoch st) s) bs"
  shows "(apply_blocks h cfg d st bs :: ('e, _) result) = Ok
     (st\<lparr>ns_evolving_nonce := combine_outputs h d (ns_evolving_nonce st) bs,
         ns_candidate_nonce := (if before = [] then ns_candidate_nonce st
                                else combine_outputs h d (ns_evolving_nonce st) before),
         ns_lab_nonce := (if bs = [] then ns_lab_nonce st
                          else prev_hash_to_nonce (snd (snd (last bs))))\<rparr>)"
  unfolding before_def
proof (rule apply_blocks_window)
  show "\<forall>(slot, out, prev)\<in>set bs. nc_slot_to_epoch cfg slot = (Ok (ns_current_epoch st) :: ('e, _) result)"
    using assms(1) by auto
  have "sorted_wrt (\<lambda>b b'. fst b \<le> fst b') bs" using assms(2) by (simp add: sorted_map)
  then show "sorted_wrt (\<lambda>(s, _) (s', _). in_stability_window cfg (ns_current_epoch st) s
           \<longrightarrow> in_stability_window cfg (ns_current_epoch st) s') bs"
  proof (rule sorted_wrt_mono_rel [rotated])
    fix b b' assume "b' \<in> set bs" "fst b \<le> fst b'"
    moreover from this(1) have "unat (fst b') + unat (nc_stability_window cfg) < 2 ^ 64"
      using assms(1) by auto
    ultimately show "(\<lambda>(s, _) (s', _). in_stability_window cfg (ns_current_epoch st) s
           \<longrightarrow> in_stability_window cfg (ns_current_epoch st) s') b b'"
      using in_stability_window_mono [of cfg _ "fst b" "fst b'"] by (auto simp: split_def)
  qed
qed

lemma nonce_within_epoch_witness:
  defines "cfg \<equiv> \<lparr>nc_epoch_size = 100, nc_stability_window = 30, nc_extra_entropy = Neutral,
      nc_byron_shelley_transition = None\<rparr>"
  shows "(apply_blocks (take 4) cfg TPraosNonce (nonce_state_new Neutral)
       [(10, [1], None), (20, [2], None), (90, [3], Some [7])] :: (unit, _) result)
    = Ok \<lparr>ns_evolving_nonce = Hash [1, 2, 3], ns_candidate_nonce = Hash [1, 2],
          ns_epoch_nonce = Neutral, ns_prev_hash_nonce = Neutral, ns_lab_nonce = Hash [7],
          ns_current_epoch = 0\<rparr>"
  by (subst nonce_within_epoch)
     (simp_all add: cfg_def nonce_state_new_def nc_slot_to_epoch_def slot_to_epoch_def
       in_stability_window_def nc_epoch_first_slot_def epoch_first_slot_def vrf_output_to_nonce_def
       prev_hash_to_nonce_def nonce_from_header_hash_def)


section \<open>Across epochs\<close>





end
