(* ===== verification/Containers.thy ===== *)
theory Containers
  imports Prelude "HOL-Library.List_Lexorder"
begin

text \<open>
  Two pieces of Rust's standard library that several components use: \<open>BTreeMap\<close>, as the list of
  its entries in key order, and the big-endian bytes of an unsigned integer
  (\<open>to_be_bytes\<close>, \<open>from_be_bytes\<close>). The contract of a map is the locale \<open>key_value_map\<close>;
  \<open>BTreeMap\<close> is shown to meet it.
\<close>

section \<open>Ordered maps\<close>

fun btree_get :: "('k \<times> 'v) list \<Rightarrow> 'k \<Rightarrow> 'v option" where
  "btree_get [] k = None"
| "btree_get ((k', v) # m) k = (if k = k' then Some v else btree_get m k)"

fun btree_insert :: "'k::linorder \<Rightarrow> 'v \<Rightarrow> ('k \<times> 'v) list \<Rightarrow> ('k \<times> 'v) list" where
  "btree_insert k v [] = [(k, v)]"
| "btree_insert k v ((k', v') # m) =
     (if k < k' then (k, v) # (k', v') # m
      else if k = k' then (k, v) # m
      else (k', v') # btree_insert k v m)"

fun btree_remove :: "'k \<Rightarrow> ('k \<times> 'v) list \<Rightarrow> ('k \<times> 'v) list" where
  "btree_remove k [] = []"
| "btree_remove k ((k', v') # m) = (if k = k' then m else (k', v') # btree_remove k m)"

definition btree_ok :: "('k::linorder \<times> 'v) list \<Rightarrow> bool" where
  "btree_ok m \<longleftrightarrow> sorted_wrt (<) (map fst m)"

text \<open>What every map promises, and what follows from it.\<close>

locale key_value_map =
  fixes empty :: 'm
    and get :: "'m \<Rightarrow> 'k \<Rightarrow> 'v option"
    and insert :: "'k \<Rightarrow> 'v \<Rightarrow> 'm \<Rightarrow> 'm"
    and remove :: "'k \<Rightarrow> 'm \<Rightarrow> 'm"
    and ok :: "'m \<Rightarrow> bool"
  assumes get_empty: "get empty k = None"
    and get_insert: "ok m \<Longrightarrow> get (insert k v m) k' = (if k' = k then Some v else get m k')"
    and get_remove: "ok m \<Longrightarrow> get (remove k m) k' = (if k' = k then None else get m k')"
    and ok_empty: "ok empty"
    and ok_insert: "ok m \<Longrightarrow> ok (insert k v m)"
    and ok_remove: "ok m \<Longrightarrow> ok (remove k m)"
    and ext: "ok m \<Longrightarrow> ok m' \<Longrightarrow> (\<And>k. get m k = get m' k) \<Longrightarrow> m = m'"
begin

lemma insert_insert: "ok m \<Longrightarrow> insert k v (insert k v' m) = insert k v m"
  by (rule ext) (simp_all add: ok_insert get_insert)

lemma insert_commute:
  "ok m \<Longrightarrow> k \<noteq> k' \<Longrightarrow> insert k v (insert k' v' m) = insert k' v' (insert k v m)"
  by (rule ext) (auto simp: ok_insert get_insert)

lemma remove_insert: "ok m \<Longrightarrow> get m k = None \<Longrightarrow> remove k (insert k v m) = m"
  by (rule ext) (auto simp: ok_insert ok_remove get_insert get_remove)

lemma insert_same: "ok m \<Longrightarrow> get m k = Some v \<Longrightarrow> insert k v m = m"
  by (rule ext) (auto simp: ok_insert get_insert)

lemma remove_absent: "ok m \<Longrightarrow> get m k = None \<Longrightarrow> remove k m = m"
  by (rule ext) (auto simp: ok_remove get_remove)

lemma ok_fold_insert: "ok m \<Longrightarrow> ok (fold (\<lambda>(k, v). insert k v) kvs m)"
  by (induction kvs arbitrary: m) (auto simp: ok_insert split_def)

end

lemma btree_get_map_of: "btree_get m k = map_of m k"
  by (induction m) auto

lemma btree_ok_Cons: "btree_ok ((k, v) # m) \<longleftrightarrow> (\<forall>k'\<in>fst ` set m. k < k') \<and> btree_ok m"
  by (auto simp: btree_ok_def)

lemma btree_get_eq_None: "btree_get m k = None \<longleftrightarrow> k \<notin> fst ` set m"
  by (simp add: btree_get_map_of map_of_eq_None_iff)

lemma btree_get_below: "btree_ok ((k', v') # m) \<Longrightarrow> k \<le> k' \<Longrightarrow> btree_get m k = None"
  by (auto simp: btree_ok_Cons btree_get_eq_None)

lemma fst_set_btree_insert: "fst ` set (btree_insert k v m) = insert k (fst ` set m)"
  by (induction m rule: btree_insert.induct) auto

lemma fst_set_btree_remove: "fst ` set (btree_remove k m) \<subseteq> fst ` set m"
  by (induction m rule: btree_remove.induct) auto

lemma btree_ok_insert: "btree_ok m \<Longrightarrow> btree_ok (btree_insert k v m)"
  by (induction m rule: btree_insert.induct)
     (auto simp: btree_ok_Cons fst_set_btree_insert btree_ok_def [of "[]"])

lemma btree_ok_remove: "btree_ok m \<Longrightarrow> btree_ok (btree_remove k m)"
  using fst_set_btree_remove
  by (induction m rule: btree_remove.induct) (fastforce simp: btree_ok_Cons btree_ok_def [of "[]"])+

lemma btree_ext:
  assumes "btree_ok m" "btree_ok m'" "\<And>k. btree_get m k = btree_get m' k"
  shows "m = m'"
proof -
  have d: "distinct (map fst m)" "distinct (map fst m')" "sorted (map fst m)" "sorted (map fst m')"
    using assms(1,2) by (auto simp: btree_ok_def strict_sorted_iff)
  have "map_of m = map_of m'" using assms(3) by (auto simp: btree_get_map_of)
  then have eq: "set m = set m'" using d(1,2) map_of_inject_set by blast
  moreover have "inj_on fst (set m \<union> set m')" using d(1) eq by (simp add: distinct_map)
  ultimately show ?thesis using d by (intro map_sorted_distinct_set_unique [of fst])
qed

lemma btree_get_insert [simp]:
  "btree_get (btree_insert k v m) k' = (if k' = k then Some v else btree_get m k')"
  by (induction k v m rule: btree_insert.induct) auto

lemma btree_get_remove:
  "btree_ok m \<Longrightarrow> btree_get (btree_remove k m) k' = (if k' = k then None else btree_get m k')"
proof (induction k m rule: btree_remove.induct)
  case (2 k k1 v m)
  then have "btree_get m k1 = None" by (intro btree_get_below) auto
  with 2 show ?case by (auto simp: btree_ok_Cons)
qed simp

interpretation btree: key_value_map "[]" btree_get btree_insert btree_remove btree_ok
proof
  fix k k' :: 'a and v :: 'b and m m' :: "('a \<times> 'b) list"
  show "btree_get [] k = (None :: 'b option)" by simp
  show "btree_ok ([] :: ('a \<times> 'b) list)" by (simp add: btree_ok_def)
  show "btree_get (btree_insert k v m) k' = (if k' = k then Some v else btree_get m k')"
    by (rule btree_get_insert)
qed (fact btree_ok_insert btree_ok_remove btree_ext btree_get_remove)+

lemma btree_ok_Nil [simp]: "btree_ok []"
  by (rule btree.ok_empty)

text \<open>Inserting the entries of an ordered map, in order, rebuilds it: this is how decoders do it.\<close>

lemma btree_insert_above: "\<forall>k'\<in>fst ` set m. k' < k \<Longrightarrow> btree_insert k v m = m @ [(k, v)]"
  by (induction m rule: btree_insert.induct) auto

lemma fold_btree_insert_append:
  "btree_ok (m @ kvs) \<Longrightarrow> fold (\<lambda>(k, v). btree_insert k v) kvs m = m @ kvs"
proof (induction kvs arbitrary: m)
  case (Cons kv kvs)
  obtain k v where kv: "kv = (k, v)" by (cases kv)
  have "\<forall>k'\<in>fst ` set m. k' < k" using Cons.prems kv by (auto simp: btree_ok_def sorted_wrt_append)
  then have "btree_insert k v m = m @ [(k, v)]" by (rule btree_insert_above)
  with Cons.IH [of "m @ [(k, v)]"] Cons.prems kv show ?case by simp
qed simp

lemma fold_btree_insert_rebuild:
  "btree_ok kvs \<Longrightarrow> fold (\<lambda>(k, v). btree_insert k v) kvs [] = kvs"
  using fold_btree_insert_append [of "[]" kvs] by simp


section \<open>Big-endian bytes\<close>

primrec be_bytes :: "nat \<Rightarrow> nat \<Rightarrow> bytes" where
  "be_bytes 0 n = []"
| "be_bytes (Suc k) n = be_bytes k (n div 256) @ [of_nat n]"

definition be_val :: "bytes \<Rightarrow> nat" where
  "be_val bs = foldl (\<lambda>a b. a * 256 + unat b) 0 bs"

lemma be_val_snoc [simp]: "be_val (bs @ [b]) = be_val bs * 256 + unat b"
  by (simp add: be_val_def)

lemma be_val_Nil [simp]: "be_val [] = 0"
  by (simp add: be_val_def)

lemma length_be_bytes [simp]: "length (be_bytes k n) = k"
  by (induction k arbitrary: n) auto

lemma unat_u8_lt: "unat (b :: u8) < 256"
  using unat_lt_2p [of b] by simp

lemma be_val_be_bytes: "be_val (be_bytes k n) = n mod 256 ^ k"
proof (induction k arbitrary: n)
  case (Suc k)
  have "unat (of_nat n :: u8) = n mod 256" by (simp add: unat_of_nat)
  then show ?case using Suc [of "n div 256"] mod_mult2_eq [of n 256 "256 ^ k"] by simp
qed simp

lemma be_bytes_be_val: "length bs = k \<Longrightarrow> be_bytes k (be_val bs) = bs"
proof (induction k arbitrary: bs)
  case (Suc k)
  then obtain cs b where bs: "bs = cs @ [b]" "length cs = k"
    by (metis length_Suc_conv_rev)
  have "(be_val cs * 256 + unat b) div 256 = be_val cs" using unat_u8_lt [of b] by simp
  moreover have "(of_nat (be_val cs * 256 + unat b) :: u8) = b"
    using unat_u8_lt [of b] by (simp only: word_unat_eq_iff unat_of_nat) simp
  ultimately show ?case using Suc.IH [OF bs(2)] bs(1) by simp
qed simp

lemma be_val_lt: "be_val bs < 256 ^ length bs"
proof (induction bs rule: rev_induct)
  case (snoc b bs)
  then have "be_val bs + 1 \<le> 256 ^ length bs" by simp
  then have "(be_val bs + 1) * 256 \<le> 256 ^ length bs * 256" by (rule mult_le_mono1)
  then show ?case using unat_u8_lt [of b] by simp
qed simp

lemma be_bytes_inj:
  "be_bytes k m = be_bytes k n \<Longrightarrow> m < 256 ^ k \<Longrightarrow> n < 256 ^ k \<Longrightarrow> m = n"
  by (metis be_val_be_bytes mod_less)

end
