(* ===== verification/OCert.thy ===== *)
theory OCert
  imports Types Containers
begin

text \<open>
  Operational certificates: the counters that order a pool's certificates
  (\<open>src/crates/consensus/src/ocert/rules_ocert.rs\<close>), the bytes that are signed and the validity
  window (\<open>ocert/ocert.rs\<close>). The map of counters is the \<open>BTreeMap\<close> of \<open>Containers\<close>; the
  Ed25519 check of the cold key is the argument \<open>verify_sig\<close>.
\<close>

section \<open>Counters\<close>

type_synonym ocert_counters = "(pool_key_hash \<times> u64) list"

datatype ocert_counter_rule = TPraosRule | PraosRule

definition rule_for_pv_major :: "u64 \<Rightarrow> ocert_counter_rule" where
  "rule_for_pv_major pv_major = (if pv_major \<ge> 7 then PraosRule else TPraosRule)"

definition ocert_counters_new :: ocert_counters where
  "ocert_counters_new = []"

definition validate_and_update_with_rule ::
    "ocert_counters \<Rightarrow> pool_key_hash \<Rightarrow> u64 \<Rightarrow> bool \<Rightarrow> ocert_counter_rule
       \<Rightarrow> ocert_counters \<times> (consensus_error, unit) result" where
  "validate_and_update_with_rule counters pool new_seq pool_in_dist rule =
     (case btree_get counters pool of
        Some stored \<Rightarrow>
          if new_seq < stored then (counters, Err (OcertCounterTooOld stored new_seq))
          else if rule = PraosRule \<and> new_seq > saturating_add stored 1
          then (counters, Err (OcertCounterTooFar stored new_seq))
          else (btree_insert pool new_seq counters, Ok ())
      | None \<Rightarrow>
          if pool_in_dist then (btree_insert pool new_seq counters, Ok ())
          else (counters, Err (NoCounterForKeyHash pool)))"

definition validate_and_update ::
    "ocert_counters \<Rightarrow> pool_key_hash \<Rightarrow> u64 \<Rightarrow> bool
       \<Rightarrow> ocert_counters \<times> (consensus_error, unit) result" where
  "validate_and_update counters pool new_seq pool_in_dist =
     validate_and_update_with_rule counters pool new_seq pool_in_dist PraosRule"

definition ocert_get :: "ocert_counters \<Rightarrow> pool_key_hash \<Rightarrow> u64 option" where
  "ocert_get counters pool = btree_get counters pool"

definition ocert_len :: "ocert_counters \<Rightarrow> nat" where
  "ocert_len counters = length counters"

definition ocert_clear :: "ocert_counters \<Rightarrow> ocert_counters" where
  "ocert_clear counters = []"

text \<open>The headers of a chain, one after the other: pool, number, whether it has stake, and rule.\<close>

fun validate_all ::
    "ocert_counters \<Rightarrow> (pool_key_hash \<times> u64 \<times> bool \<times> ocert_counter_rule) list \<Rightarrow> ocert_counters" where
  "validate_all counters [] = counters"
| "validate_all counters ((pool, n, dist, rule) # hs) =
     validate_all (fst (validate_and_update_with_rule counters pool n dist rule)) hs"


section \<open>Certificates\<close>

record op_cert =
  oc_hot_vkey :: bytes
  oc_sequence_number :: u64
  oc_kes_period :: u64
  oc_sigma :: bytes

definition signable_bytes :: "op_cert \<Rightarrow> bytes" where
  "signable_bytes oc =
     oc_hot_vkey oc @ be_bytes 8 (unat (oc_sequence_number oc)) @ be_bytes 8 (unat (oc_kes_period oc))"

definition op_cert_verify ::
    "(bytes \<Rightarrow> bytes \<Rightarrow> bytes \<Rightarrow> bool) \<Rightarrow> op_cert \<Rightarrow> bytes \<Rightarrow> (consensus_error, unit) result" where
  "op_cert_verify verify_sig oc cold_vk =
     (if verify_sig cold_vk (signable_bytes oc) (oc_sigma oc) then Ok ()
      else Err InvalidOpCertSignature)"

definition kes_period_of_slot :: "u64 \<Rightarrow> u64 \<Rightarrow> (consensus_error, u64) result" where
  "kes_period_of_slot slot slots_per_kes_period =
     (if slots_per_kes_period = 0 then Err InvalidSlotsPerKesPeriod
      else Ok (slot div slots_per_kes_period))"



section \<open>Counters only move forward\<close>

text \<open>
  The rule over the natural numbers: a tracked pool may repeat its number or raise it, by any
  amount before Vasil and by one after; an untracked pool may start anywhere if it has stake.
\<close>

definition seq_allowed :: "u64 option \<Rightarrow> u64 \<Rightarrow> bool \<Rightarrow> ocert_counter_rule \<Rightarrow> bool" where
  "seq_allowed stored new_seq pool_in_dist rule \<longleftrightarrow>
     (case stored of
        Some s \<Rightarrow> unat s \<le> unat new_seq \<and> (rule = PraosRule \<longrightarrow> unat new_seq \<le> unat s + 1)
      | None \<Rightarrow> pool_in_dist)"

lemma above_saturating_succ: "unat (saturating_add (s :: u64) 1) < unat (n :: u64) \<longleftrightarrow> unat s + 1 < unat n"
proof (cases "unat s + 1 < 2 ^ 64")
  case True
  then show ?thesis using unat_saturating_add [of s 1] by (simp add: min_def)
next
  case False
  then have "unat (saturating_add s 1) = 2 ^ 64 - 1"
    using unat_saturating_add [of s 1] by (simp add: min_def)
  moreover have "unat n \<le> 2 ^ 64 - 1" by simp
  ultimately show ?thesis using False by linarith
qed

text \<open>
  C31. A header is accepted exactly when its certificate number is allowed by the rule of its era
  (checked over the natural numbers, so the saturating successor lets nothing through and shuts
  nothing out); acceptance stores the number for that pool and for no other, and a rejected header
  leaves all counters as they were.
\<close>

theorem ocert_validate_correct:
  assumes "validate_and_update_with_rule counters pool new_seq dist rule = (counters', r)"
  shows "(r = Ok () \<longleftrightarrow> seq_allowed (ocert_get counters pool) new_seq dist rule)
    \<and> (\<forall>p. ocert_get counters' p =
         (if r = Ok () \<and> p = pool then Some new_seq else ocert_get counters p))
    \<and> (r \<noteq> Ok () \<longrightarrow> counters' = counters) \<and> r \<noteq> Panic
    \<and> (btree_ok counters \<longrightarrow> btree_ok counters')"
  using assms
  by (auto simp: validate_and_update_with_rule_def seq_allowed_def ocert_get_def
      above_saturating_succ word_less_nat_alt btree_ok_insert split: option.splits if_splits)

lemma ocert_validate_correct_witness:
  "validate_and_update_with_rule [([1], 4)] [1] 6 True PraosRule = ([([1], 4)], Err (OcertCounterTooFar 4 6))
   \<and> \<not> seq_allowed (Some 4) 6 True PraosRule \<and> seq_allowed (Some 4) 6 True TPraosRule"
proof -
  have r: "validate_and_update_with_rule [([1], 4)] [1] 6 True PraosRule
      = ([([1], 4)], Err (OcertCounterTooFar 4 6))"
    by (simp add: validate_and_update_with_rule_def saturating_add_def)
  have r': "validate_and_update_with_rule [([1], 4)] [1] 6 True TPraosRule = ([([1], 6)], Ok ())"
    by (simp add: validate_and_update_with_rule_def)
  from ocert_validate_correct [OF r] ocert_validate_correct [OF r'] r show ?thesis
    by (simp add: ocert_get_def)
qed

lemma ocert_step_mono:
  assumes "ocert_get counters p = Some s"
  shows "\<exists>s'. ocert_get (fst (validate_and_update_with_rule counters pool n dist rule)) p = Some s'
     \<and> s \<le> s' \<and> (rule = PraosRule \<longrightarrow> unat s' \<le> unat s + 1)"
  using assms
  by (auto simp: validate_and_update_with_rule_def ocert_get_def above_saturating_succ
      word_less_nat_alt word_le_nat_alt split: option.splits)

text \<open>
  C32. Over any sequence of headers, accepted or not, the counter of a tracked pool never goes back,
  and under the Praos rule it grows by at most one per header: replaying an older certificate is
  never accepted again.
\<close>

theorem ocert_counters_monotone:
  assumes "ocert_get counters p = Some s"
  shows "\<exists>s'. ocert_get (validate_all counters hs) p = Some s' \<and> s \<le> s'
     \<and> ((\<forall>h\<in>set hs. snd (snd (snd h)) = PraosRule) \<longrightarrow> unat s' \<le> unat s + length hs)"
  using assms
proof (induction hs arbitrary: counters s)
  case (Cons h hs)
  obtain pool n dist rule where h: "h = (pool, n, dist, rule)" by (cases h)
  from ocert_step_mono [OF Cons.prems, of pool n dist rule] obtain s1
    where s1: "ocert_get (fst (validate_and_update_with_rule counters pool n dist rule)) p = Some s1"
      "s \<le> s1" "rule = PraosRule \<longrightarrow> unat s1 \<le> unat s + 1" by blast
  from Cons.IH [OF s1(1)] obtain s' where s': "ocert_get (validate_all counters (h # hs)) p = Some s'"
      "s1 \<le> s'" "(\<forall>h\<in>set hs. snd (snd (snd h)) = PraosRule) \<longrightarrow> unat s' \<le> unat s1 + length hs"
    by (auto simp: h)
  show ?case using s1(2,3) s' by (intro exI [of _ s']) (auto simp: h)
qed simp

lemma ocert_counters_monotone_witness:
  "\<exists>s'. ocert_get (validate_all [([1], 4)] [([1], 5, True, PraosRule), ([1], 3, True, PraosRule)]) [1]
        = Some s' \<and> 4 \<le> s' \<and> unat s' \<le> 6"
  using ocert_counters_monotone [of "[([1], 4)]" "[1]" 4
      "[([1], 5, True, PraosRule), ([1], 3, True, PraosRule)]"]
  by (auto simp: ocert_get_def)


section \<open>The validity window\<close>


text \<open>
  C34. The signed bytes determine the certificate: 48 bytes for a 32-byte key, and two certificates
  with the same signed bytes have the same key, number and period, so a signature cannot be moved
  to another certificate.
\<close>

theorem signable_bytes_inj:
  assumes "length (oc_hot_vkey a) = 32" "length (oc_hot_vkey b) = 32"
  shows "length (signable_bytes a) = 48 \<and>
    (signable_bytes a = signable_bytes b \<longleftrightarrow>
      oc_hot_vkey a = oc_hot_vkey b \<and> oc_sequence_number a = oc_sequence_number b
      \<and> oc_kes_period a = oc_kes_period b)"
proof -
  have "be_bytes 8 (unat x) = be_bytes 8 (unat y) \<longleftrightarrow> x = y" for x y :: u64
    using be_bytes_inj [of 8 "unat x" "unat y"] by (auto simp: word_unat_eq_iff)
  then show ?thesis using assms by (simp add: signable_bytes_def)
qed

lemma signable_bytes_inj_witness:
  "signable_bytes \<lparr>oc_hot_vkey = replicate 32 7, oc_sequence_number = 1, oc_kes_period = 2, oc_sigma = []\<rparr>
    \<noteq> signable_bytes \<lparr>oc_hot_vkey = replicate 32 7, oc_sequence_number = 2, oc_kes_period = 1, oc_sigma = []\<rparr>"
  using signable_bytes_inj [of
      "\<lparr>oc_hot_vkey = replicate 32 7, oc_sequence_number = 1, oc_kes_period = 2, oc_sigma = []\<rparr>"
      "\<lparr>oc_hot_vkey = replicate 32 7, oc_sequence_number = 2, oc_kes_period = 1, oc_sigma = []\<rparr>"]
  by simp

end
