(* ===== verification/Cbor.thy ===== *)
theory Cbor
  imports Types Containers
begin

unbundle bit_operations_syntax

text \<open>
  The CBOR encoder and decoder that ledger, network and storage share,
  \<open>src/crates/ledger/src/cbor.rs\<close>. A method of the encoder only appends to its buffer, so it is
  the bytes it appends; the decoder is its slice with the read position, and a method of it is a
  parser: it returns a value with the advanced decoder, an error, or panics. After an error no
  caller reads on, so errors carry no decoder. Text is kept as its UTF-8 bytes.
\<close>

section \<open>Encoder\<close>

definition AI_INDEF :: u8 where "AI_INDEF = 31"
definition BREAK :: u8 where "BREAK = 255"

definition write_type_and_arg :: "u8 \<Rightarrow> u64 \<Rightarrow> bytes" where
  "write_type_and_arg major v =
     (let mt = push_bit 5 major in
      if v < 24 then [mt OR ucast v]
      else if v \<le> 255 then [mt OR 24, ucast v]
      else if v \<le> 65535 then (mt OR 25) # be_bytes 2 (unat (ucast v :: u16))
      else if v \<le> 4294967295 then (mt OR 26) # be_bytes 4 (unat (ucast v :: u32))
      else (mt OR 27) # be_bytes 8 (unat v))"

definition enc_unsigned :: "u64 \<Rightarrow> bytes" where
  "enc_unsigned v = write_type_and_arg 0 v"

definition enc_bytes :: "bytes \<Rightarrow> bytes" where
  "enc_bytes bs = write_type_and_arg 2 (of_nat (length bs)) @ bs"

definition enc_array :: "u64 \<Rightarrow> bytes" where
  "enc_array len = write_type_and_arg 4 len"

definition enc_array_indef :: bytes where
  "enc_array_indef = [push_bit 5 4 OR AI_INDEF]"

definition enc_break_stop :: bytes where
  "enc_break_stop = [BREAK]"

definition enc_null :: bytes where
  "enc_null = [push_bit 5 7 OR 22]"

definition enc_bool :: "bool \<Rightarrow> bytes" where
  "enc_bool b = [push_bit 5 7 OR (if b then 21 else 20)]"

definition enc_negative :: "u64 \<Rightarrow> bytes" where
  "enc_negative n = write_type_and_arg 1 n"

text \<open>An \<open>i64\<close> is a 64-bit word read as a signed number.\<close>

definition enc_integer :: "64 word \<Rightarrow> bytes" where
  "enc_integer v = (if sint v \<ge> 0 then enc_unsigned v else enc_negative (- 1 - v))"

definition enc_text :: "bytes \<Rightarrow> bytes" where
  "enc_text s = write_type_and_arg 3 (of_nat (length s)) @ s"

definition enc_map :: "u64 \<Rightarrow> bytes" where
  "enc_map len = write_type_and_arg 5 len"

definition enc_tag :: "u64 \<Rightarrow> bytes" where
  "enc_tag t = write_type_and_arg 6 t"

definition enc_wrapped :: "bytes \<Rightarrow> bytes" where
  "enc_wrapped bs = enc_tag 24 @ enc_bytes bs"

definition encode_variable_len_array :: "('a \<Rightarrow> bytes) \<Rightarrow> 'a list \<Rightarrow> bytes" where
  "encode_variable_len_array encode_item items =
     (if length items \<le> 23 then enc_array (of_nat (length items)) else enc_array_indef)
     @ concat (map encode_item items)
     @ (if length items > 23 then enc_break_stop else [])"


section \<open>Counts\<close>

text \<open>A count read from the wire, checked against the limit of its message.\<close>

definition check_decoded_count :: "u64 \<Rightarrow> nat \<Rightarrow> (ledger_error, nat) result" where
  "check_decoded_count count max_count =
     (if unat count > max_count then Err (DecodedCountTooLarge count max_count) else Ok (unat count))"


section \<open>Decoder\<close>

record decoder =
  dec_data :: bytes
  dec_pos :: nat

type_synonym 'a parser = "decoder \<Rightarrow> (ledger_error, 'a \<times> decoder) result"

definition decoder_new :: "bytes \<Rightarrow> decoder" where
  "decoder_new bs = \<lparr>dec_data = bs, dec_pos = 0\<rparr>"

text \<open>Sequencing with the \<open>?\<close> operator, success and failure.\<close>

definition pbind :: "'a parser \<Rightarrow> ('a \<Rightarrow> 'b parser) \<Rightarrow> 'b parser" where
  "pbind p f d = and_then (p d) (\<lambda>(x, d'). f x d')"

definition preturn :: "'a \<Rightarrow> 'a parser" where
  "preturn x d = Ok (x, d)"

definition pfail :: "ledger_error \<Rightarrow> 'a parser" where
  "pfail e d = Err e"

definition dec_remaining :: "decoder \<Rightarrow> nat" where
  "dec_remaining d = length (dec_data d) - dec_pos d"

definition dec_is_empty :: "decoder \<Rightarrow> bool" where
  "dec_is_empty d \<longleftrightarrow> dec_pos d \<ge> length (dec_data d)"

definition dec_slice :: "decoder \<Rightarrow> nat \<Rightarrow> nat \<Rightarrow> (ledger_error, bytes) result" where
  "dec_slice d start stop =
     (if stop > length (dec_data d) \<or> start > stop then Err CborUnexpectedEof
      else Ok (take (stop - start) (drop start (dec_data d))))"

definition peek_byte :: "u8 parser" where
  "peek_byte d =
     (if dec_pos d < length (dec_data d) then Ok (dec_data d ! dec_pos d, d)
      else Err CborUnexpectedEof)"

text \<open>\<open>self.pos += n\<close>, as the methods do it after a peek.\<close>

definition advance :: "nat \<Rightarrow> unit parser" where
  "advance n d = Ok ((), d\<lparr>dec_pos := dec_pos d + n\<rparr>)"

definition read_byte :: "u8 parser" where
  "read_byte = pbind peek_byte (\<lambda>b. pbind (advance 1) (\<lambda>_. preturn b))"

text \<open>
  The sum of position and length is a \<open>usize\<close> and wraps; when it does, the bounds check passes and
  the slice \<open>pos..pos + len\<close> starts after its end, which panics.
\<close>

definition read_exact :: "u64 \<Rightarrow> bytes parser" where
  "read_exact len d =
     (let stop = (dec_pos d + unat len) mod 2 ^ 64 in
      if stop > length (dec_data d) then Err CborUnexpectedEof
      else if dec_pos d > stop then Panic
      else Ok (take (stop - dec_pos d) (drop (dec_pos d) (dec_data d)), d\<lparr>dec_pos := stop\<rparr>))"

definition read_argument :: "u8 \<Rightarrow> u64 parser" where
  "read_argument initial =
     (let ai = initial AND 31 in
      if ai \<le> 23 then preturn (ucast ai)
      else if ai = 24 then pbind read_byte (\<lambda>b. preturn (ucast b))
      else if ai = 25 then pbind (read_exact 2) (\<lambda>bs. preturn (of_nat (be_val bs)))
      else if ai = 26 then pbind (read_exact 4) (\<lambda>bs. preturn (of_nat (be_val bs)))
      else if ai = 27 then pbind (read_exact 8) (\<lambda>bs. preturn (of_nat (be_val bs)))
      else pfail (CborInvalidAdditionalInfo ai))"

definition expect_major :: "u8 \<Rightarrow> u64 parser" where
  "expect_major expected =
     pbind read_byte (\<lambda>initial.
       if drop_bit 5 initial \<noteq> expected then pfail (CborTypeMismatch expected (drop_bit 5 initial))
       else read_argument initial)"

definition dec_unsigned :: "u64 parser" where
  "dec_unsigned = expect_major 0"

definition dec_bytes :: "bytes parser" where
  "dec_bytes = pbind (expect_major 2) read_exact"

definition dec_array :: "u64 parser" where
  "dec_array = expect_major 4"

definition peek_major :: "u8 parser" where
  "peek_major = pbind peek_byte (\<lambda>b. preturn (drop_bit 5 b))"

definition dec_tag :: "u64 parser" where
  "dec_tag = expect_major 6"

text \<open>A tag other than 258 is given back, for \<open>array\<close> to report.\<close>

definition dec_array_or_set :: "u64 parser" where
  "dec_array_or_set d =
     and_then (peek_major d) (\<lambda>(m, _).
       if m = 6
       then and_then (dec_tag d) (\<lambda>(t, d'). if t \<noteq> 258 then dec_array d else dec_array d')
       else dec_array d)"

definition array_begin :: "u64 option parser" where
  "array_begin =
     pbind peek_byte (\<lambda>initial.
       if drop_bit 5 initial \<noteq> 4 then pfail (CborTypeMismatch 4 (drop_bit 5 initial))
       else if initial AND 31 = AI_INDEF then pbind (advance 1) (\<lambda>_. preturn None)
       else pbind dec_array (\<lambda>n. preturn (Some n)))"

definition dec_null :: "unit parser" where
  "dec_null =
     pbind read_byte (\<lambda>b. if b = push_bit 5 7 OR 22 then preturn ()
       else pfail (CborTypeMismatch 7 (drop_bit 5 b)))"

definition peek_is_null :: "decoder \<Rightarrow> bool" where
  "peek_is_null d \<longleftrightarrow> peek_byte d = Ok (push_bit 5 7 OR 22, d)"

definition is_break :: "decoder \<Rightarrow> bool" where
  "is_break d \<longleftrightarrow> peek_byte d = Ok (BREAK, d)"

definition consume_break :: "unit parser" where
  "consume_break =
     pbind read_byte (\<lambda>b. if b = BREAK then preturn ()
       else pfail (CborTypeMismatch 7 (drop_bit 5 b)))"

definition dec_negative :: "u64 parser" where
  "dec_negative = expect_major 1"

text \<open>\<open>i64::try_from\<close> fails from \<open>2^63\<close> on.\<close>

definition dec_integer :: "64 word parser" where
  "dec_integer =
     pbind peek_major (\<lambda>major.
       if major = 0
       then pbind dec_unsigned (\<lambda>v. if unat v < 2 ^ 63 then preturn v else pfail (CborTypeMismatch 0 0))
       else if major = 1
       then pbind dec_negative (\<lambda>n. if unat n < 2 ^ 63 then preturn (- 1 - n)
              else pfail (CborTypeMismatch 1 1))
       else pfail (CborTypeMismatch 0 major))"

definition dec_map :: "u64 parser" where
  "dec_map = expect_major 5"

definition map_begin :: "u64 option parser" where
  "map_begin =
     pbind peek_byte (\<lambda>initial.
       if drop_bit 5 initial \<noteq> 5 then pfail (CborTypeMismatch 5 (drop_bit 5 initial))
       else if initial AND 31 = AI_INDEF then pbind (advance 1) (\<lambda>_. preturn None)
       else pbind dec_map (\<lambda>n. preturn (Some n)))"

definition dec_wrapped :: "bytes parser" where
  "dec_wrapped =
     pbind dec_tag (\<lambda>t. if t \<noteq> 24 then pfail (CborTypeMismatch 24 (ucast t)) else dec_bytes)"

definition dec_bool :: "bool parser" where
  "dec_bool =
     pbind read_byte (\<lambda>b.
       if b = push_bit 5 7 OR 20 then preturn False
       else if b = push_bit 5 7 OR 21 then preturn True
       else pfail (CborTypeMismatch 7 (drop_bit 5 b)))"

text \<open>
  \<open>core::str::from_utf8\<close>: no overlong forms, no surrogates, nothing above \<open>U+10FFFF\<close>.
\<close>

definition utf8_cont :: "u8 \<Rightarrow> bool" where
  "utf8_cont b \<longleftrightarrow> 0x80 \<le> b \<and> b \<le> 0xBF"

fun utf8_valid :: "bytes \<Rightarrow> bool" where
  "utf8_valid [] = True"
| "utf8_valid (a # bs) =
     (if a < 0x80 then utf8_valid bs
      else case bs of
          [] \<Rightarrow> False
        | b # cs \<Rightarrow>
            if 0xC2 \<le> a \<and> a \<le> 0xDF then utf8_cont b \<and> utf8_valid cs
            else case cs of
                [] \<Rightarrow> False
              | c # ds \<Rightarrow>
                  if 0xE0 \<le> a \<and> a \<le> 0xEF
                  then utf8_cont b \<and> utf8_cont c \<and> (a = 0xE0 \<longrightarrow> 0xA0 \<le> b) \<and> (a = 0xED \<longrightarrow> b \<le> 0x9F)
                       \<and> utf8_valid ds
                  else case ds of
                      [] \<Rightarrow> False
                    | e # es \<Rightarrow>
                        0xF0 \<le> a \<and> a \<le> 0xF4 \<and> utf8_cont b \<and> utf8_cont c \<and> utf8_cont e
                        \<and> (a = 0xF0 \<longrightarrow> 0x90 \<le> b) \<and> (a = 0xF4 \<longrightarrow> b \<le> 0x8F) \<and> utf8_valid es)"

definition dec_text :: "bytes parser" where
  "dec_text =
     pbind (expect_major 3) (\<lambda>len. pbind (read_exact len) (\<lambda>raw.
       if utf8_valid raw then preturn raw else pfail (CborTypeMismatch 3 2)))"

text \<open>
  The loop over the chunks of an indefinite-length string, up to the break. Every chunk takes at
  least its initial byte, so as many rounds as there are bytes left are enough; a round beyond
  them, which does not happen, would not return, and has the value \<open>Panic\<close>.
\<close>

fun chunk_loop :: "nat \<Rightarrow> bytes parser \<Rightarrow> bytes \<Rightarrow> bytes parser" where
  "chunk_loop 0 chunk assembled d = Panic"
| "chunk_loop (Suc n) chunk assembled d =
     and_then (peek_byte d) (\<lambda>(b, _).
       if b = BREAK then Ok (assembled, d\<lparr>dec_pos := dec_pos d + 1\<rparr>)
       else and_then (chunk d) (\<lambda>(bs, d'). chunk_loop n chunk (assembled @ bs) d'))"

definition owned :: "u8 \<Rightarrow> bytes parser \<Rightarrow> bytes parser" where
  "owned major definite d =
     and_then (peek_byte d) (\<lambda>(initial, _).
       if drop_bit 5 initial \<noteq> major then Err (CborTypeMismatch major (drop_bit 5 initial))
       else if initial AND 31 = AI_INDEF
       then chunk_loop (Suc (dec_remaining d)) definite [] (d\<lparr>dec_pos := dec_pos d + 1\<rparr>)
       else definite d)"

definition dec_bytes_owned :: "bytes parser" where
  "dec_bytes_owned = owned 2 dec_bytes"

definition dec_text_owned :: "bytes parser" where
  "dec_text_owned = owned 3 dec_text"

text \<open>\<open>for _ in 0..count\<close> with one item per round, and the loop up to a break.\<close>

primrec pmany :: "nat \<Rightarrow> 'a parser \<Rightarrow> 'a list parser" where
  "pmany 0 p = preturn []"
| "pmany (Suc n) p = pbind p (\<lambda>x. pbind (pmany n p) (\<lambda>xs. preturn (x # xs)))"

fun break_loop :: "nat \<Rightarrow> 'a parser \<Rightarrow> 'a list \<Rightarrow> 'a list parser" where
  "break_loop 0 p items d = Panic"
| "break_loop (Suc n) p items d =
     (if is_break d then Ok (items, d)
      else and_then (p d) (\<lambda>(x, d'). break_loop n p (items @ [x]) d'))"

definition decode_variable_len_array :: "'a parser \<Rightarrow> 'a list parser" where
  "decode_variable_len_array decode_item =
     pbind array_begin (\<lambda>count.
       case count of
         Some n \<Rightarrow> pmany (unat n) decode_item
       | None \<Rightarrow> (\<lambda>d. pbind (break_loop (Suc (dec_remaining d)) decode_item [])
                    (\<lambda>items. pbind consume_break (\<lambda>_. preturn items)) d))"

text \<open>\<open>CborDecode::from_cbor_bytes\<close>: the whole slice, nothing left over.\<close>

definition from_cbor_bytes :: "'a parser \<Rightarrow> bytes \<Rightarrow> (ledger_error, 'a) result" where
  "from_cbor_bytes decode_cbor bs =
     and_then (decode_cbor (decoder_new bs)) (\<lambda>(v, d).
       if \<not> dec_is_empty d then Err (CborTrailingBytes (dec_remaining d)) else Ok v)"


section \<open>What a parser reads\<close>

text \<open>
  \<open>decodes p bs v\<close>: wherever the bytes \<open>bs\<close> stand in a buffer (of at most \<open>isize::MAX\<close> bytes), \<open>p\<close>
  reads exactly them and returns \<open>v\<close>.
\<close>

definition decodes :: "'a parser \<Rightarrow> bytes \<Rightarrow> 'a \<Rightarrow> bool" where
  "decodes p bs v \<longleftrightarrow>
     (\<forall>pre rest. length pre + length bs + length rest < 2 ^ 63 \<longrightarrow>
        p \<lparr>dec_data = pre @ bs @ rest, dec_pos = length pre\<rparr>
          = Ok (v, \<lparr>dec_data = pre @ bs @ rest, dec_pos = length pre + length bs\<rparr>))"

named_theorems decodes_steps \<open>how a decoder reads its next field, for composing codecs\<close>

lemma decodesD:
  "decodes p bs v \<Longrightarrow> length pre + length bs + length rest < 2 ^ 63 \<Longrightarrow>
     p \<lparr>dec_data = pre @ bs @ rest, dec_pos = length pre\<rparr>
       = Ok (v, \<lparr>dec_data = pre @ bs @ rest, dec_pos = length pre + length bs\<rparr>)"
  by (simp add: decodes_def)

lemma decodes_bind:
  assumes "decodes p bs v" "decodes (f v) cs w"
  shows "decodes (pbind p f) (bs @ cs) w"
  unfolding decodes_def
proof (intro allI impI)
  fix pre rest :: bytes
  assume len: "length pre + length (bs @ cs) + length rest < 2 ^ 63"
  have "p \<lparr>dec_data = pre @ bs @ cs @ rest, dec_pos = length pre\<rparr>
      = Ok (v, \<lparr>dec_data = pre @ bs @ cs @ rest, dec_pos = length pre + length bs\<rparr>)"
    using decodesD [OF assms(1), of pre "cs @ rest"] len by simp
  moreover have "f v \<lparr>dec_data = (pre @ bs) @ cs @ rest, dec_pos = length (pre @ bs)\<rparr>
      = Ok (w, \<lparr>dec_data = (pre @ bs) @ cs @ rest, dec_pos = length (pre @ bs) + length cs\<rparr>)"
    using decodesD [OF assms(2), of "pre @ bs" rest] len by simp
  ultimately show "pbind p f \<lparr>dec_data = pre @ (bs @ cs) @ rest, dec_pos = length pre\<rparr>
      = Ok (w, \<lparr>dec_data = pre @ (bs @ cs) @ rest, dec_pos = length pre + length (bs @ cs)\<rparr>)"
    by (simp add: pbind_def add.assoc)
qed

lemma decodes_return [simp]: "decodes (preturn v) [] v"
  by (simp add: decodes_def preturn_def)

lemma decodes_bind_last: "decodes p bs v \<Longrightarrow> decodes (f v) [] w \<Longrightarrow> decodes (pbind p f) bs w"
  using decodes_bind [of p bs v f "[]" w] by simp

lemma decodes_peek_byte:
  "decodes (f b) (b # bs) w \<Longrightarrow> decodes (pbind peek_byte f) (b # bs) w"
  by (simp add: decodes_def pbind_def peek_byte_def nth_append)

lemma decodes_read_byte: "decodes read_byte [b] b"
  by (simp add: decodes_def read_byte_def pbind_def peek_byte_def advance_def preturn_def nth_append)

lemma decodes_read_exact:
  assumes "length bs = unat len"
  shows "decodes (read_exact len) bs bs"
  using assms by (simp add: decodes_def read_exact_def Let_def)


section \<open>Heads\<close>

text \<open>The initial byte: the major type in the upper three bits, the additional information below.\<close>

lemma head_byte:
  fixes m a :: u8
  assumes "m < 8" "a < 32"
  shows "drop_bit 5 (push_bit 5 m OR a) = m" "(push_bit 5 m OR a) AND 31 = a"
proof -
  have a: "unat a < 32" "unat m < 8" using assms by (simp_all add: word_less_nat_alt)
  have "drop_bit 5 a = 0" using a by (simp add: word_unat_eq_iff drop_bit_eq_div unat_div)
  moreover have "unat (push_bit 5 m) = unat m * 32"
    using a by (simp add: push_bit_eq_mult unat_word_ariths)
  then have "drop_bit 5 (push_bit 5 m) = m"
    by (simp add: word_unat_eq_iff drop_bit_eq_div unat_div)
  ultimately show "drop_bit 5 (push_bit 5 m OR a) = m" by (simp add: drop_bit_or)
  have "(31 :: u8) = mask 5" by (simp add: mask_eq_exp_minus_1)
  then have "(push_bit 5 m OR a) AND 31 = take_bit 5 (push_bit 5 m OR a)"
    by (simp add: take_bit_eq_mask)
  also have "\<dots> = take_bit 5 a" by (simp add: take_bit_or take_bit_push_bit)
  also have "\<dots> = a" using a by (simp add: word_unat_eq_iff take_bit_eq_mod unat_mod)
  finally show "(push_bit 5 m OR a) AND 31 = a" .
qed

lemma write_type_and_arg_Cons:
  assumes "m < 8"
  obtains a args where "write_type_and_arg m v = (push_bit 5 m OR a) # args" "a < 32" "a \<noteq> 31"
proof (cases "v < 24")
  case True
  have "unat v < 24" using True by (simp add: word_less_nat_alt)
  then have "unat (ucast v :: u8) < 24" by (simp add: unat_ucast_fits)
  then have "(ucast v :: u8) < 32" "(ucast v :: u8) \<noteq> 31" by (auto simp: word_less_nat_alt)
  with that [of "ucast v" "[]"] show ?thesis using True by (simp add: write_type_and_arg_def)
next
  case False
  let ?a = "if v \<le> 255 then 24 else if v \<le> 65535 then 25 else if v \<le> 4294967295 then 26 else 27"
  from that [of ?a "tl (write_type_and_arg m v)"] False show ?thesis
    by (simp add: write_type_and_arg_def Let_def split: if_splits)
qed

lemma read_argument_of:
  fixes m a :: u8
  assumes "m < 8" "a < 32"
  shows "read_argument (push_bit 5 m OR a) =
     (if a \<le> 23 then preturn (ucast a)
      else if a = 24 then pbind read_byte (\<lambda>b. preturn (ucast b))
      else if a = 25 then pbind (read_exact 2) (\<lambda>bs. preturn (of_nat (be_val bs)))
      else if a = 26 then pbind (read_exact 4) (\<lambda>bs. preturn (of_nat (be_val bs)))
      else if a = 27 then pbind (read_exact 8) (\<lambda>bs. preturn (of_nat (be_val bs)))
      else pfail (CborInvalidAdditionalInfo a))"
  by (simp add: read_argument_def Let_def head_byte(2) [OF assms])

lemma decodes_be_arg:
  assumes "unat n = k" "x < 256 ^ k"
  shows "decodes (pbind (read_exact n) (\<lambda>bs. preturn (of_nat (be_val bs) :: u64)))
           (be_bytes k x) (of_nat x)"
proof (rule decodes_bind_last)
  show "decodes (read_exact n) (be_bytes k x) (be_bytes k x)"
    by (rule decodes_read_exact) (simp add: assms(1))
  show "decodes (preturn (of_nat (be_val (be_bytes k x)) :: u64)) [] (of_nat x)"
    using assms(2) by (simp add: be_val_be_bytes decodes_return)
qed

text \<open>The argument is read back as it was written, whatever its width.\<close>

lemma decodes_head:
  assumes m: "m < 8"
  shows "decodes (expect_major m) (write_type_and_arg m v) v"
proof -
  have head: "decodes (expect_major m) ((push_bit 5 m OR a) # args) w"
    if "a < 32" "decodes (read_argument (push_bit 5 m OR a)) args w" for a args w
  proof -
    have "decodes (expect_major m) ([push_bit 5 m OR a] @ args) w"
      unfolding expect_major_def
      by (rule decodes_bind [OF decodes_read_byte]) (simp only: head_byte(1) [OF m that(1)] that(2) simp_thms if_False)
    then show ?thesis by simp
  qed
  consider "v < 24" | "\<not> v < 24" "v \<le> 255" | "\<not> v \<le> 255" "v \<le> 65535"
    | "\<not> v \<le> 65535" "v \<le> 4294967295" | "\<not> v \<le> 4294967295" by blast
  then show ?thesis
  proof cases
    case 1
    have v: "unat v < 24" using 1 by (simp add: word_less_nat_alt)
    then have u: "unat (ucast v :: u8) = unat v" by (simp add: unat_ucast_fits)
    then have "unat (ucast (ucast v :: u8) :: u64) = unat v" using v by (simp add: unat_ucast_fits)
    then have "ucast (ucast v :: u8) = v" by (simp add: word_unat_eq_iff)
    moreover have "(ucast v :: u8) < 32" "(ucast v :: u8) \<le> 23"
      using u v by (simp_all add: word_less_nat_alt word_le_nat_alt)
    ultimately show ?thesis using 1 head [of "ucast v" "[]" v]
      by (simp add: write_type_and_arg_def read_argument_of [OF m] decodes_return)
  next
    case 2
    have "unat v < 256" using 2 by (simp add: word_le_nat_alt)
    then have u: "unat (ucast v :: u8) = unat v" by (simp add: unat_ucast_fits)
    then have "unat (ucast (ucast v :: u8) :: u64) = unat v" by (simp add: unat_ucast_fits)
    then have "ucast (ucast v :: u8) = v" by (simp add: word_unat_eq_iff)
    then have "decodes (pbind read_byte (\<lambda>b. preturn (ucast b))) [ucast v :: u8] v"
      by (intro decodes_bind_last [OF decodes_read_byte]) (simp add: decodes_return)
    then show ?thesis using 2 head [of 24 "[ucast v]" v]
      by (simp add: write_type_and_arg_def read_argument_of [OF m])
  next
    case 3
    have u: "unat (ucast v :: u16) = unat v" using 3(2) by (simp add: unat_ucast_fits word_le_nat_alt)
    then have "decodes (pbind (read_exact 2) (\<lambda>bs. preturn (of_nat (be_val bs) :: u64)))
        (be_bytes 2 (unat (ucast v :: u16))) v"
      using decodes_be_arg [of 2 2 "unat v"] 3(2) by (simp add: word_le_nat_alt)
    moreover have "\<not> v < 24" using 3 by (auto simp: word_le_nat_alt word_less_nat_alt)
    ultimately show ?thesis using 3 head [of 25]
      by (simp add: write_type_and_arg_def read_argument_of [OF m])
  next
    case 4
    have u: "unat (ucast v :: u32) = unat v" using 4(2) by (simp add: unat_ucast_fits word_le_nat_alt)
    then have "decodes (pbind (read_exact 4) (\<lambda>bs. preturn (of_nat (be_val bs) :: u64)))
        (be_bytes 4 (unat (ucast v :: u32))) v"
      using decodes_be_arg [of 4 4 "unat v"] 4(2) by (simp add: word_le_nat_alt)
    moreover have "\<not> v < 24" "\<not> v \<le> 255" using 4 by (auto simp: word_le_nat_alt word_less_nat_alt)
    ultimately show ?thesis using 4 head [of 26]
      by (simp add: write_type_and_arg_def read_argument_of [OF m])
  next
    case 5
    have "decodes (pbind (read_exact 8) (\<lambda>bs. preturn (of_nat (be_val bs) :: u64)))
        (be_bytes 8 (unat v)) v"
      using decodes_be_arg [of 8 8 "unat v"] by simp
    moreover have "\<not> v < 24" "\<not> v \<le> 255" "\<not> v \<le> 65535"
      using 5 by (auto simp: word_le_nat_alt word_less_nat_alt)
    ultimately show ?thesis using 5 head [of 27]
      by (simp add: write_type_and_arg_def read_argument_of [OF m])
  qed
qed


section \<open>Round trips of the primitives\<close>

lemma decodes_unsigned: "decodes dec_unsigned (enc_unsigned v) v"
  and decodes_array: "decodes dec_array (enc_array v) v"
  and decodes_map: "decodes dec_map (enc_map v) v"
  and decodes_tag: "decodes dec_tag (enc_tag v) v"
  and decodes_negative: "decodes dec_negative (enc_negative v) v"
  by (simp_all add: dec_unsigned_def enc_unsigned_def dec_array_def enc_array_def dec_map_def
      enc_map_def dec_tag_def enc_tag_def dec_negative_def enc_negative_def decodes_head)

lemma decodes_sized:
  assumes "m < 8"
  shows "decodes (pbind (expect_major m) read_exact)
           (write_type_and_arg m (of_nat (length bs)) @ bs) bs"
proof (cases "length bs < 2 ^ 63")
  case True
  then have "unat (of_nat (length bs) :: u64) = length bs" by (simp add: unat_of_nat)
  then show ?thesis
    by (intro decodes_bind [OF decodes_head [OF assms]] decodes_read_exact) simp
next
  case False
  then show ?thesis by (simp add: decodes_def)
qed

lemma decodes_bytes: "decodes dec_bytes (enc_bytes bs) bs"
  unfolding dec_bytes_def enc_bytes_def by (rule decodes_sized) simp

lemma decodes_text:
  assumes "utf8_valid s"
  shows "decodes dec_text (enc_text s) s"
proof (cases "length s < 2 ^ 63")
  case True
  then have "unat (of_nat (length s) :: u64) = length s" by (simp add: unat_of_nat)
  then show ?thesis unfolding dec_text_def enc_text_def
    by (intro decodes_bind [OF decodes_head] decodes_bind_last [OF decodes_read_exact])
       (simp_all add: assms decodes_return)
next
  case False
  then show ?thesis by (simp add: decodes_def enc_text_def)
qed

lemma decodes_null: "decodes dec_null enc_null ()"
  unfolding dec_null_def enc_null_def
  by (rule decodes_bind_last [OF decodes_read_byte]) (simp add: decodes_return)

lemma decodes_bool: "decodes dec_bool (enc_bool b) b"
  unfolding dec_bool_def enc_bool_def
  by (rule decodes_bind_last [OF decodes_read_byte]) (cases b; simp add: decodes_return)

lemma decodes_wrapped: "decodes dec_wrapped (enc_wrapped bs) bs"
  unfolding dec_wrapped_def enc_wrapped_def
  by (rule decodes_bind [OF decodes_tag]) (simp add: decodes_bytes)

lemma decodes_pmany:
  "\<forall>v\<in>set vs. decodes p (enc v) v \<Longrightarrow> decodes (pmany (length vs) p) (concat (map enc vs)) vs"
proof (induction vs)
  case (Cons v vs)
  have "decodes (pbind p (\<lambda>x. pbind (pmany (length vs) p) (\<lambda>xs. preturn (x # xs))))
      (enc v @ concat (map enc vs)) (v # vs)"
    using Cons by (intro decodes_bind [of p "enc v" v] decodes_bind_last [of _ _ vs])
      (simp_all add: decodes_return)
  then show ?case by simp
qed (simp add: decodes_return)

text \<open>The major type of the next item, for the decoders that look ahead.\<close>

lemma decodes_peek_major:
  assumes "m < 8" "decodes (f m) (write_type_and_arg m v @ bs) w"
  shows "decodes (pbind peek_major f) (write_type_and_arg m v @ bs) w"
proof -
  obtain a args where w: "write_type_and_arg m v = (push_bit 5 m OR a) # args" "a < 32"
    using write_type_and_arg_Cons [OF assms(1), of v] by metis
  have eq: "pbind peek_major f = pbind peek_byte (\<lambda>b. f (drop_bit 5 b))"
    by (simp add: fun_eq_iff pbind_def peek_major_def preturn_def and_then_assoc split_def)
  have "f (drop_bit 5 (push_bit 5 m OR a)) = f m" by (simp only: head_byte(1) [OF assms(1) w(2)])
  then show ?thesis using assms(2) unfolding eq w(1) append_Cons
    by (intro decodes_peek_byte) (simp only:)
qed

lemma decodes_peek_major_last:
  assumes "m < 8" "decodes (f m) (write_type_and_arg m v) w"
  shows "decodes (pbind peek_major f) (write_type_and_arg m v) w"
  using decodes_peek_major [of m f v "[]" w] assms by simp

lemma enc_null_head: "enc_null = write_type_and_arg 7 22"
  by (simp add: enc_null_def write_type_and_arg_def)

lemma odd_lt_two: "q < 2 \<Longrightarrow> odd q \<longleftrightarrow> 0 < (q :: nat)"
  by (cases q) auto

lemma sint_nonneg_iff: "sint (v :: u64) \<ge> 0 \<longleftrightarrow> unat v < 2 ^ 63"
proof -
  have lt: "unat v div 2 ^ 63 < 2"
    using unat_u64_lt [of v] by (simp add: less_mult_imp_div_less)
  have "bit v 63 \<longleftrightarrow> bit (unat v) 63" by (simp add: bit_unsigned_iff)
  also have "\<dots> \<longleftrightarrow> odd (unat v div 2 ^ 63)" by (simp only: bit_iff_odd)
  also have "\<dots> \<longleftrightarrow> 0 < unat v div 2 ^ 63" by (rule odd_lt_two [OF lt])
  also have "\<dots> \<longleftrightarrow> 2 ^ 63 \<le> unat v" by (simp only: div_greater_zero_iff) simp
  finally have "bit v 63 \<longleftrightarrow> 2 ^ 63 \<le> unat v" .
  moreover have "bit v 63 \<longleftrightarrow> sint v < 0" using bit_last_iff [of v] by simp
  ultimately show ?thesis by linarith
qed

lemma decodes_integer: "decodes dec_integer (enc_integer v) v"
proof (cases "sint v \<ge> 0")
  case True
  then have v: "unat v < 2 ^ 63" by (simp add: sint_nonneg_iff)
  have "decodes (pbind dec_unsigned (\<lambda>v. if unat v < 2 ^ 63 then preturn v
      else pfail (CborTypeMismatch 0 0))) (enc_unsigned v) v"
    by (rule decodes_bind_last [OF decodes_unsigned]) (use v in \<open>simp add: decodes_return\<close>)
  then have "decodes dec_integer (write_type_and_arg 0 v) v"
    unfolding dec_integer_def enc_unsigned_def by (intro decodes_peek_major_last) simp_all
  then show ?thesis using True by (simp add: enc_integer_def enc_unsigned_def)
next
  case False
  then have "2 ^ 63 \<le> unat v" using sint_nonneg_iff [of v] by simp
  moreover have "unat (- 1 - v) = 2 ^ 64 - 1 - unat v"
    using unat_sub_le [of v "- 1"] by (simp add: unsigned_minus_1_eq_mask mask_eq_exp_minus_1)
  ultimately have n: "unat (- 1 - v) < 2 ^ 63" by simp
  have "decodes (pbind dec_negative (\<lambda>n. if unat n < 2 ^ 63 then preturn (- 1 - n)
      else pfail (CborTypeMismatch 1 1))) (enc_negative (- 1 - v)) v"
    by (rule decodes_bind_last [OF decodes_negative]) (use n in \<open>simp add: decodes_return\<close>)
  then have "decodes dec_integer (write_type_and_arg 1 (- 1 - v)) v"
    unfolding dec_integer_def enc_negative_def by (intro decodes_peek_major_last) simp_all
  then show ?thesis using False by (simp add: enc_integer_def enc_negative_def)
qed

lemmas primitive_steps [decodes_steps] =
  decodes_unsigned [THEN decodes_bind] decodes_unsigned [THEN decodes_bind_last]
  decodes_array [THEN decodes_bind] decodes_array [THEN decodes_bind_last]
  decodes_map [THEN decodes_bind] decodes_map [THEN decodes_bind_last]
  decodes_tag [THEN decodes_bind] decodes_bytes [THEN decodes_bind]
  decodes_bytes [THEN decodes_bind_last] decodes_text [THEN decodes_bind]
  decodes_text [THEN decodes_bind_last] decodes_bool [THEN decodes_bind]
  decodes_bool [THEN decodes_bind_last] decodes_null [THEN decodes_bind_last]
  decodes_integer [THEN decodes_bind_last]


section \<open>Codecs\<close>

text \<open>
  The contract of a type with \<open>CborEncode\<close> and \<open>CborDecode\<close>: the decoder reads back what the
  encoder wrote, for the values \<open>wf\<close> that Rust's types allow (fixed-size arrays, valid UTF-8). What
  follows holds for every codec: the whole-slice round trip, that no encoding is a prefix of
  another, and the sequences of encoded values.
\<close>

locale codec =
  fixes enc :: "'a \<Rightarrow> bytes" and decode :: "'a parser" and wf :: "'a \<Rightarrow> bool"
  assumes decodes_enc: "wf v \<Longrightarrow> decodes decode (enc v) v"
begin

lemma round_trip:
  assumes "wf v" "length (enc v) < 2 ^ 63"
  shows "from_cbor_bytes decode (enc v) = Ok v"
  using decodesD [OF decodes_enc [OF assms(1)], of "[]" "[]"] assms(2)
  by (simp add: from_cbor_bytes_def decoder_new_def dec_is_empty_def)

lemma trailing:
  assumes "wf v" "rest \<noteq> []" "length (enc v @ rest) < 2 ^ 63"
  shows "from_cbor_bytes decode (enc v @ rest) = Err (CborTrailingBytes (length rest))"
  using decodesD [OF decodes_enc [OF assms(1)], of "[]" rest] assms(2,3)
  by (simp add: from_cbor_bytes_def decoder_new_def dec_is_empty_def dec_remaining_def)

lemma prefix_free:
  assumes "wf v" "wf w" "enc v @ r = enc w @ s" "length (enc v @ r) < 2 ^ 63"
  shows "v = w \<and> r = s"
proof -
  have "decode \<lparr>dec_data = enc v @ r, dec_pos = 0\<rparr>
      = Ok (v, \<lparr>dec_data = enc v @ r, dec_pos = length (enc v)\<rparr>)"
    using decodesD [OF decodes_enc [OF assms(1)], of "[]" r] assms(4) by simp
  moreover have "decode \<lparr>dec_data = enc w @ s, dec_pos = 0\<rparr>
      = Ok (w, \<lparr>dec_data = enc w @ s, dec_pos = length (enc w)\<rparr>)"
    using decodesD [OF decodes_enc [OF assms(2)], of "[]" s] assms(3,4) by simp
  ultimately show ?thesis using assms(3) by simp
qed

lemma decodes_list:
  assumes "\<forall>v\<in>set vs. wf v" "length vs < 2 ^ 64"
  shows "decodes (pbind dec_array (\<lambda>n. pmany (unat n) decode))
           (enc_array (of_nat (length vs)) @ concat (map enc vs)) vs"
proof (rule decodes_bind [OF decodes_array])
  have "unat (of_nat (length vs) :: u64) = length vs" using assms(2) by (simp add: unat_of_nat)
  then show "decodes (pmany (unat (of_nat (length vs) :: u64)) decode) (concat (map enc vs)) vs"
    using assms(1) decodes_enc by (simp only:) (intro decodes_pmany, simp)
qed

end

interpretation unsigned_codec: codec enc_unsigned dec_unsigned "\<lambda>_. True"
  by unfold_locales (rule decodes_unsigned)

interpretation integer_codec: codec enc_integer dec_integer "\<lambda>_. True"
  by unfold_locales (rule decodes_integer)

interpretation bytes_codec: codec enc_bytes dec_bytes "\<lambda>_. True"
  by unfold_locales (rule decodes_bytes)

interpretation text_codec: codec enc_text dec_text utf8_valid
  by unfold_locales (rule decodes_text)

interpretation bool_codec: codec enc_bool dec_bool "\<lambda>_. True"
  by unfold_locales (rule decodes_bool)

end
