(* ===== verification/CborItems.thy ===== *)
theory CborItems
  imports Cbor
begin

text \<open>
  Reading over CBOR items without decoding them, \<open>src/crates/ledger/src/cbor.rs\<close>: \<open>skip\<close> and
  \<open>raw_value\<close>. The recursion of \<open>skip\<close> runs on fuel, three units per
  remaining byte, which is shown to be always enough; the grammar of the items it accepts is an
  inductive predicate of its own.
\<close>

section \<open>Model\<close>

text \<open>The \<open>?\<close> operator for a computation that may run out of fuel.\<close>

fun try_then :: "('e, 'a) result \<Rightarrow> ('a \<Rightarrow> ('e, 'b) result option) \<Rightarrow> ('e, 'b) result option" where
  "try_then (Ok x) f = f x"
| "try_then (Err e) f = Some (Err e)"
| "try_then Panic f = Some Panic"

definition fuel_then ::
    "('e, 'a) result option \<Rightarrow> ('a \<Rightarrow> ('e, 'b) result option) \<Rightarrow> ('e, 'b) result option" where
  "fuel_then m f = (case m of None \<Rightarrow> None | Some r \<Rightarrow> try_then r f)"

text \<open>
  One item; a number of items; and rounds of \<open>k\<close> items up to a break, with one item per round for
  strings and arrays and two for maps.
\<close>

fun skip_f :: "nat \<Rightarrow> decoder \<Rightarrow> (ledger_error, decoder) result option"
  and skip_items :: "nat \<Rightarrow> nat \<Rightarrow> decoder \<Rightarrow> (ledger_error, decoder) result option"
  and skip_until :: "nat \<Rightarrow> nat \<Rightarrow> decoder \<Rightarrow> (ledger_error, decoder) result option" where
  "skip_f 0 d = None"
| "skip_f (Suc n) d =
     try_then (read_byte d) (\<lambda>(initial, d1).
       let major = drop_bit 5 initial; ai = initial AND 31 in
       if major = 0 \<or> major = 1 then Some (map_ok snd (read_argument initial d1))
       else if major = 2 \<or> major = 3
       then (if ai = AI_INDEF then skip_until n 1 d1
             else Some (map_ok snd (pbind (read_argument initial) read_exact d1)))
       else if major = 4
       then (if ai = AI_INDEF then skip_until n 1 d1
             else try_then (read_argument initial d1) (\<lambda>(count, d2). skip_items n (unat count) d2))
       else if major = 5
       then (if ai = AI_INDEF then skip_until n 2 d1
             else try_then (read_argument initial d1) (\<lambda>(count, d2). skip_items n (2 * unat count) d2))
       else if major = 7
       then (if ai \<le> 23 then Some (Ok d1)
             else if ai = 24 then Some (map_ok snd (read_byte d1))
             else if ai = 25 then Some (map_ok snd (read_exact 2 d1))
             else if ai = 26 then Some (map_ok snd (read_exact 4 d1))
             else if ai = 27 then Some (map_ok snd (read_exact 8 d1))
             else Some (Err (CborInvalidAdditionalInfo ai)))
       else if major = 6
       then try_then (read_argument initial d1) (\<lambda>(_, d2). skip_f n d2)
       else Some (Err (CborInvalidAdditionalInfo major)))"
| "skip_items n 0 d = Some (Ok d)"
| "skip_items 0 (Suc c) d = None"
| "skip_items (Suc n) (Suc c) d = fuel_then (skip_f n d) (skip_items n c)"
| "skip_until 0 k d = None"
| "skip_until (Suc n) k d =
     try_then (peek_byte d) (\<lambda>(b, _).
       if b = BREAK then Some (Ok (d\<lparr>dec_pos := dec_pos d + 1\<rparr>))
       else fuel_then (skip_items n k d) (skip_until n k))"

definition skip_fuel :: "decoder \<Rightarrow> nat" where
  "skip_fuel d = 3 * dec_remaining d + 1"

definition skip :: "unit parser" where
  "skip d = (case skip_f (skip_fuel d) d of Some r \<Rightarrow> map_ok (\<lambda>d'. ((), d')) r | None \<Rightarrow> Panic)"

definition raw_value :: "bytes parser" where
  "raw_value d =
     and_then (skip d) (\<lambda>(_, d').
       map_ok (\<lambda>bs. (bs, d')) (dec_slice d' (dec_pos d) (dec_pos d')))"


section \<open>The items of RFC 8949, as accepted\<close>

text \<open>
  Heads in any of the five widths; strings, arrays and maps of definite length, or of indefinite
  length up to the break; tags; simple values and floats. The pieces of an indefinite string may be
  items of any kind here, as in the code.
\<close>

definition arg_len :: "u8 \<Rightarrow> nat" where
  "arg_len a = (if a < 24 then 0 else if a = 24 then 1 else if a = 25 then 2 else if a = 26 then 4 else 8)"

definition arg_val :: "u8 \<Rightarrow> bytes \<Rightarrow> u64" where
  "arg_val a args = (if a < 24 then ucast a else of_nat (be_val args))"

definition cbor_head :: "u8 \<Rightarrow> bytes \<Rightarrow> u64 \<Rightarrow> bool" where
  "cbor_head m bs v \<longleftrightarrow>
     (\<exists>a args. a < 28 \<and> bs = (push_bit 5 m OR a) # args \<and> length args = arg_len a \<and> v = arg_val a args)"

inductive cbor_item :: "bytes \<Rightarrow> bool" where
  integer: "m = 0 \<or> m = 1 \<Longrightarrow> cbor_head m bs v \<Longrightarrow> cbor_item bs"
| string: "m = 2 \<or> m = 3 \<Longrightarrow> cbor_head m h v \<Longrightarrow> length body = unat v \<Longrightarrow> cbor_item (h @ body)"
| string_indef: "m = 2 \<or> m = 3 \<Longrightarrow> \<forall>x\<in>set xs. cbor_item x
     \<Longrightarrow> cbor_item ((push_bit 5 m OR AI_INDEF) # concat xs @ [BREAK])"
| array: "cbor_head 4 h v \<Longrightarrow> length xs = unat v \<Longrightarrow> \<forall>x\<in>set xs. cbor_item x
     \<Longrightarrow> cbor_item (h @ concat xs)"
| array_indef: "\<forall>x\<in>set xs. cbor_item x
     \<Longrightarrow> cbor_item ((push_bit 5 4 OR AI_INDEF) # concat xs @ [BREAK])"
| map: "cbor_head 5 h v \<Longrightarrow> length xs = 2 * unat v \<Longrightarrow> \<forall>x\<in>set xs. cbor_item x
     \<Longrightarrow> cbor_item (h @ concat xs)"
| map_indef: "even (length xs) \<Longrightarrow> \<forall>x\<in>set xs. cbor_item x
     \<Longrightarrow> cbor_item ((push_bit 5 5 OR AI_INDEF) # concat xs @ [BREAK])"
| tag: "cbor_head 6 h v \<Longrightarrow> cbor_item x \<Longrightarrow> cbor_item (h @ x)"
| simple: "cbor_head 7 bs v \<Longrightarrow> cbor_item bs"

lemma initial_byte:
  fixes b :: u8
  shows "push_bit 5 (drop_bit 5 b) OR (b AND 31) = b" "drop_bit 5 b < 8" "b AND 31 < 32"
proof -
  have "(31 :: u8) = mask 5" by (simp add: mask_eq_exp_minus_1)
  then have and31: "b AND 31 = take_bit 5 b" by (simp add: take_bit_eq_mask)
  show "push_bit 5 (drop_bit 5 b) OR (b AND 31) = b"
    unfolding and31 by (rule bit_word_eqI) (auto simp: bit_simps)
  show "drop_bit 5 b < 8" using unat_u8_lt [of b]
    by (simp add: word_less_nat_alt drop_bit_eq_div unat_div)
  show "b AND 31 < 32" unfolding and31
    by (simp add: word_less_nat_alt take_bit_eq_mod unat_mod)
qed

lemma head_not_break:
  fixes m a :: u8
  assumes "m < 8" "a < 32" "m \<noteq> 7 \<or> a \<noteq> 31"
  shows "push_bit 5 m OR a \<noteq> BREAK"
proof
  assume e: "push_bit 5 m OR a = BREAK"
  have "drop_bit 5 BREAK = m" "BREAK AND 31 = a" using head_byte [OF assms(1,2)] unfolding e by auto
  then have "m = 7" "a = 31" by (simp_all add: BREAK_def)
  with assms(3) show False by simp
qed

lemma cbor_head_byte:
  assumes "cbor_head m (b # args) v" "m < 8"
  shows "drop_bit 5 b = m" "b AND 31 < 28"
proof -
  from assms(1) obtain a where a: "a < 28" "b = push_bit 5 m OR a" by (auto simp: cbor_head_def)
  then have "a < 32" by (auto simp: word_less_nat_alt)
  note hb = head_byte [OF assms(2) this]
  show "drop_bit 5 b = m" "b AND 31 < 28" unfolding a(2) hb by (rule refl, rule a(1))
qed

lemma cbor_head_first:
  assumes "cbor_head m bs v" "m < 8"
  shows "bs \<noteq> [] \<and> hd bs \<noteq> BREAK"
proof -
  from assms(1) obtain a args where a: "a < 28" "bs = (push_bit 5 m OR a) # args"
    by (auto simp: cbor_head_def)
  then have "a < 32" "a \<noteq> 31" by (auto simp: word_less_nat_alt)
  with a head_not_break [OF assms(2)] show ?thesis by simp
qed

text \<open>No item is empty or starts with the break, so the end of an indefinite item is unambiguous.\<close>

lemma cbor_item_first: "cbor_item bs \<Longrightarrow> bs \<noteq> [] \<and> hd bs \<noteq> BREAK"
proof (induction rule: cbor_item.induct)
  case (integer m bs v)
  then show ?case using cbor_head_first [of m bs v] by auto
next
  case (string m h v body)
  then show ?case using cbor_head_first [of m h v] by (auto simp: hd_append)
next
  case (string_indef m xs)
  then show ?case using head_not_break [of m AI_INDEF] by (auto simp: AI_INDEF_def)
next
  case (array h v xs)
  then show ?case using cbor_head_first [of 4 h v] by (auto simp: hd_append)
next
  case (array_indef xs)
  then show ?case using head_not_break [of 4 AI_INDEF] by (simp add: AI_INDEF_def)
next
  case (map h v xs)
  then show ?case using cbor_head_first [of 5 h v] by (auto simp: hd_append)
next
  case (map_indef xs)
  then show ?case using head_not_break [of 5 AI_INDEF] by (simp add: AI_INDEF_def)
next
  case (tag h v x)
  then show ?case using cbor_head_first [of 6 h v] by (auto simp: hd_append)
next
  case (simple bs v)
  then show ?case using cbor_head_first [of 7 bs v] by auto
qed


section \<open>Every item skipped is an item\<close>

definition dec_ok :: "decoder \<Rightarrow> bool" where
  "dec_ok d \<longleftrightarrow> dec_pos d \<le> length (dec_data d) \<and> length (dec_data d) < 2 ^ 63"

definition moves :: "decoder \<Rightarrow> decoder \<Rightarrow> bool" where
  "moves d d' \<longleftrightarrow> dec_data d' = dec_data d \<and> dec_pos d \<le> dec_pos d' \<and> dec_pos d' \<le> length (dec_data d)"

text \<open>The bytes between two positions.\<close>

definition span :: "decoder \<Rightarrow> decoder \<Rightarrow> bytes" where
  "span d d' = take (dec_pos d' - dec_pos d) (drop (dec_pos d) (dec_data d))"

lemma moves_refl: "dec_ok d \<Longrightarrow> moves d d"
  and moves_trans: "moves d d' \<Longrightarrow> moves d' d'' \<Longrightarrow> moves d d''"
  and moves_ok: "dec_ok d \<Longrightarrow> moves d d' \<Longrightarrow> dec_ok d'"
  by (auto simp: moves_def dec_ok_def)

lemma span_refl [simp]: "span d d = []"
  by (simp add: span_def)

lemma span_append:
  assumes "moves d d'" "moves d' d''"
  shows "span d d'' = span d d' @ span d' d''"
proof -
  obtain k l where k: "dec_pos d' = dec_pos d + k" "dec_pos d'' = dec_pos d + k + l"
    using assms unfolding moves_def by (metis add.assoc le_iff_add)
  have "dec_data d' = dec_data d" using assms(1) by (simp add: moves_def)
  then show ?thesis using k by (simp add: span_def take_add add.commute)
qed

lemma length_span: "moves d d' \<Longrightarrow> length (span d d') = dec_pos d' - dec_pos d"
  by (auto simp: span_def moves_def)

lemma read_byte_Ok:
  assumes "read_byte d = Ok (b, d')" "dec_ok d"
  shows "moves d d' \<and> span d d' = [b]"
  using assms
  by (auto simp: read_byte_def pbind_def peek_byte_def advance_def preturn_def moves_def span_def
      take_Suc hd_drop_conv_nth split: if_splits)

lemma read_exact_Ok:
  assumes "read_exact n d = Ok (bs, d')" "dec_ok d"
  shows "moves d d' \<and> span d d' = bs \<and> length bs = unat n"
proof (cases "dec_pos d + unat n < 2 ^ 64")
  case True
  with assms show ?thesis
    by (auto simp: read_exact_def moves_def span_def Let_def split: if_splits)
next
  case False
  have "dec_pos d < 2 ^ 63" using assms(2) by (simp add: dec_ok_def)
  moreover have "(2 :: nat) ^ 64 = 2 * 2 ^ 63" by simp
  moreover have "unat n < 2 ^ 64" by simp
  ultimately have "dec_pos d + unat n - 2 ^ 64 < 2 ^ 64" by arith
  with False have "(dec_pos d + unat n) mod 2 ^ 64 = dec_pos d + unat n - 2 ^ 64"
    by (simp add: le_mod_geq)
  moreover have "dec_pos d + unat n - 2 ^ 64 < dec_pos d"
    using False \<open>unat n < 2 ^ 64\<close> by arith
  ultimately show ?thesis using assms by (simp add: read_exact_def Let_def split: if_splits)
qed

lemma read_argument_Ok:
  assumes "read_argument b d = Ok (v, d')" "dec_ok d"
  shows "moves d d' \<and> cbor_head (drop_bit 5 b) (b # span d d') v"
proof -
  let ?a = "b AND 31"
  have b: "b = push_bit 5 (drop_bit 5 b) OR ?a" by (simp add: initial_byte(1))
  have *: "moves d d' \<and> ?a < 28 \<and> length (span d d') = arg_len ?a \<and> v = arg_val ?a (span d d')"
    using assms
    by (auto simp: read_argument_def Let_def pbind_def preturn_def pfail_def result_iffs arg_len_def
        arg_val_def moves_refl word_le_nat_alt word_less_nat_alt be_val_def
        dest!: read_byte_Ok read_exact_Ok split: if_splits)
  then show ?thesis unfolding cbor_head_def by (intro conjI exI [of _ ?a] exI [of _ "span d d'"]) (simp_all add: initial_byte(1))
qed

lemma try_then_eq_Ok: "try_then r f = Some (Ok y) \<longleftrightarrow> (\<exists>x. r = Ok x \<and> f x = Some (Ok y))"
  by (cases r) auto

lemma fuel_then_eq_Ok:
  "fuel_then m f = Some (Ok y) \<longleftrightarrow> (\<exists>x. m = Some (Ok x) \<and> f x = Some (Ok y))"
  by (auto simp: fuel_then_def try_then_eq_Ok split: option.splits)

lemma simple_head:
  assumes "b AND 31 < 28" "drop_bit 5 b = 7" "length args = arg_len (b AND 31)"
  shows "cbor_item (b # args)"
proof (rule cbor_item.simple)
  show "cbor_head 7 (b # args) (arg_val (b AND 31) args)"
    unfolding cbor_head_def using assms initial_byte(1) [of b]
    by (intro exI [of _ "b AND 31"] exI [of _ args]) simp
qed

text \<open>What one item, a number of items, and the rounds up to a break read.\<close>

definition item_read :: "decoder \<Rightarrow> decoder \<Rightarrow> bool" where
  "item_read d d' \<longleftrightarrow> moves d d' \<and> cbor_item (span d d')"

definition items_read :: "(nat \<Rightarrow> bool) \<Rightarrow> bytes \<Rightarrow> decoder \<Rightarrow> decoder \<Rightarrow> bool" where
  "items_read P e d d' \<longleftrightarrow> moves d d' \<and>
     (\<exists>xs. P (length xs) \<and> (\<forall>x\<in>set xs. cbor_item x) \<and> span d d' = concat xs @ e)"

lemma items_read_Cons:
  assumes "item_read d d1" "items_read (\<lambda>n. n = c) e d1 d'"
  shows "items_read (\<lambda>n. n = Suc c) e d d'"
proof -
  from assms obtain xs where xs: "length xs = c" "\<forall>x\<in>set xs. cbor_item x" "span d1 d' = concat xs @ e"
    by (auto simp: items_read_def)
  with assms show ?thesis unfolding items_read_def item_read_def
    by (intro conjI exI [of _ "span d d1 # xs"]) (auto intro: moves_trans simp: span_append)
qed

lemma items_read_rounds:
  assumes "items_read (\<lambda>n. n = k) [] d d1" "items_read (\<lambda>n. k dvd n) e d1 d'"
  shows "items_read (\<lambda>n. k dvd n) e d d'"
proof -
  from assms(1) obtain xs where xs: "length xs = k" "\<forall>x\<in>set xs. cbor_item x" "span d d1 = concat xs"
    by (auto simp: items_read_def)
  from assms(2) obtain ys where ys: "k dvd length ys" "\<forall>x\<in>set ys. cbor_item x" "span d1 d' = concat ys @ e"
    by (auto simp: items_read_def)
  show ?thesis using assms xs ys unfolding items_read_def
    by (intro conjI exI [of _ "xs @ ys"]) (auto intro: moves_trans simp: span_append)
qed

lemma indef_item:
  assumes "drop_bit 5 b = m" "m \<in> {2, 3, 4, 5}" "b AND 31 = AI_INDEF"
    and "items_read (\<lambda>n. (if m = 5 then 2 else 1) dvd n) [BREAK] d1 d'"
  shows "cbor_item (b # span d1 d')"
proof -
  from assms(4) obtain xs where xs: "(if m = 5 then 2 else 1) dvd length xs"
    "\<forall>x\<in>set xs. cbor_item x" "span d1 d' = concat xs @ [BREAK]" by (auto simp: items_read_def)
  have b: "b = push_bit 5 m OR AI_INDEF" using initial_byte(1) [of b] assms(1,3) by simp
  consider "m = 2 \<or> m = 3" | "m = 4" | "m = 5" using assms(2) by blast
  then show ?thesis unfolding b xs(3)
  proof cases
    case 1
    then show "cbor_item ((push_bit 5 m OR AI_INDEF) # concat xs @ [BREAK])"
      by (rule cbor_item.string_indef [OF _ xs(2)])
  next
    case 2
    show "cbor_item ((push_bit 5 m OR AI_INDEF) # concat xs @ [BREAK])"
      unfolding 2 by (rule cbor_item.array_indef [OF xs(2)])
  next
    case 3
    then have "even (length xs)" using xs(1) by simp
    then show "cbor_item ((push_bit 5 m OR AI_INDEF) # concat xs @ [BREAK])"
      unfolding 3 by (rule cbor_item.map_indef [OF _ xs(2)])
  qed
qed

text \<open>One step of \<open>skip\<close> after the initial byte, by the kind of item.\<close>

lemma item_from_head:
  assumes "dec_ok d" "read_byte d = Ok (b, d1)" "moves d1 d'" "cbor_item (b # span d1 d')"
  shows "item_read d d'"
proof -
  note rb = read_byte_Ok [OF assms(2,1)]
  from rb assms(3) have "span d d' = b # span d1 d'" using span_append [of d d1 d'] by simp
  with rb assms(3,4) show ?thesis by (auto simp: item_read_def intro: moves_trans)
qed

lemma counted_items:
  assumes ok: "dec_ok d1" and arg: "read_argument b d1 = Ok (v, d2)"
    and m: "drop_bit 5 b = 4 \<and> c = unat v \<or> drop_bit 5 b = 5 \<and> c = 2 * unat v"
    and items: "items_read (\<lambda>n. n = c) [] d2 d'"
  shows "moves d1 d' \<and> cbor_item (b # span d1 d')"
proof -
  note ra = read_argument_Ok [OF arg ok]
  from items obtain xs where xs: "length xs = c" "\<forall>x\<in>set xs. cbor_item x" "span d2 d' = concat xs"
    and mv: "moves d2 d'" by (auto simp: items_read_def)
  have "cbor_item ((b # span d1 d2) @ concat xs)"
    using m xs(1,2) ra cbor_item.array [of "b # span d1 d2" v xs] cbor_item.map [of "b # span d1 d2" v xs]
    by auto
  then show ?thesis using ra mv xs(3) span_append [of d1 d2 d'] moves_trans [of d1 d2 d'] by simp
qed

lemma string_item:
  assumes ok: "dec_ok d1" and arg: "read_argument b d1 = Ok (v, d2)"
    and re: "read_exact v d2 = Ok (bs, d')" and m: "drop_bit 5 b = 2 \<or> drop_bit 5 b = 3"
  shows "moves d1 d' \<and> cbor_item (b # span d1 d')"
proof -
  note ra = read_argument_Ok [OF arg ok]
  have "dec_ok d2" using ra ok moves_ok by blast
  note re = read_exact_Ok [OF re this]
  have "cbor_item ((b # span d1 d2) @ bs)" using m ra re by (intro cbor_item.string) auto
  then show ?thesis using ra re span_append [of d1 d2 d'] moves_trans [of d1 d2 d'] by simp
qed

lemma tagged_item:
  assumes ok: "dec_ok d1" and arg: "read_argument b d1 = Ok (v, d2)"
    and m: "drop_bit 5 b = 6" and it: "item_read d2 d'"
  shows "moves d1 d' \<and> cbor_item (b # span d1 d')"
proof -
  note ra = read_argument_Ok [OF arg ok]
  have "cbor_item ((b # span d1 d2) @ span d2 d')"
    using m ra it by (intro cbor_item.tag) (auto simp: item_read_def)
  then show ?thesis using ra it span_append [of d1 d2 d'] moves_trans [of d1 d2 d']
    by (simp add: item_read_def)
qed

lemma simple_payload:
  assumes "dec_ok d1" "drop_bit 5 b = 7"
    "(if b AND 31 \<le> 23 then Some (Ok d1)
      else if b AND 31 = 24 then Some (map_ok snd (read_byte d1))
      else if b AND 31 = 25 then Some (map_ok snd (read_exact 2 d1))
      else if b AND 31 = 26 then Some (map_ok snd (read_exact 4 d1))
      else if b AND 31 = 27 then Some (map_ok snd (read_exact 8 d1))
      else Some (Err (CborInvalidAdditionalInfo (b AND 31)))) = Some (Ok d')"
  shows "moves d1 d' \<and> cbor_item (b # span d1 d')"
proof -
  have "moves d1 d' \<and> b AND 31 < 28 \<and> length (span d1 d') = arg_len (b AND 31)"
    using assms
    by (auto simp: map_ok_eq_Ok_iff arg_len_def moves_refl word_le_nat_alt word_less_nat_alt
        dest!: read_byte_Ok read_exact_Ok split: if_splits)
  with simple_head [of b "span d1 d'"] assms(2) show ?thesis by blast
qed

lemma skip_item_step:
  assumes until: "\<And>k d d'. skip_until n k d = Some (Ok d') \<Longrightarrow> dec_ok d
        \<Longrightarrow> items_read (\<lambda>n. k dvd n) [BREAK] d d'"
    and items: "\<And>c d d'. skip_items n c d = Some (Ok d') \<Longrightarrow> dec_ok d
        \<Longrightarrow> items_read (\<lambda>k. k = c) [] d d'"
    and item: "\<And>d d'. skip_f n d = Some (Ok d') \<Longrightarrow> dec_ok d \<Longrightarrow> item_read d d'"
    and run: "skip_f (Suc n) d = Some (Ok d')" and ok: "dec_ok d"
  shows "item_read d d'"
proof -
  from run obtain b d1 where rb: "read_byte d = Ok (b, d1)" by (auto simp: try_then_eq_Ok)
  have ok1: "dec_ok d1" using read_byte_Ok [OF rb ok] ok moves_ok by blast
  define m where "m = drop_bit 5 b"
  note run = run [unfolded skip_f.simps rb try_then.simps prod.case m_def [symmetric] Let_def]
  have indef: "moves d1 d' \<and> cbor_item (b # span d1 d')"
    if "m \<in> {2, 3, 4, 5}" "b AND 31 = AI_INDEF" "skip_until n (if m = 5 then 2 else 1) d1 = Some (Ok d')"
    using until [OF that(3) ok1] indef_item [of b m d1 d'] that(1,2)
    by (simp add: m_def items_read_def)
  have counted: "moves d1 d' \<and> cbor_item (b # span d1 d')"
    if "m = 4 \<or> m = 5" "try_then (read_argument b d1)
        (\<lambda>(count, d2). skip_items n (if m = 5 then 2 * unat count else unat count) d2) = Some (Ok d')"
  proof -
    from that(2) obtain v d2 where arg: "read_argument b d1 = Ok (v, d2)"
      and it: "skip_items n (if m = 5 then 2 * unat v else unat v) d2 = Some (Ok d')"
      by (auto simp: try_then_eq_Ok)
    have "dec_ok d2" using read_argument_Ok [OF arg ok1] ok1 moves_ok by blast
    from counted_items [OF ok1 arg _ items [OF it this]] that(1) show ?thesis by (auto simp: m_def)
  qed
  consider "m = 0 \<or> m = 1" | "m = 2 \<or> m = 3" | "m = 4" | "m = 5" | "m = 6" | "m = 7"
    using run by (auto split: if_splits)
  then have "moves d1 d' \<and> cbor_item (b # span d1 d')"
  proof cases
    case 1
    then obtain v where arg: "read_argument b d1 = Ok (v, d')"
      using run by (auto simp: map_ok_eq_Ok_iff)
    from read_argument_Ok [OF arg ok1] 1 show ?thesis by (auto simp: m_def intro: cbor_item.integer)
  next
    case 2
    show ?thesis
    proof (cases "b AND 31 = AI_INDEF")
      case True
      with 2 run show ?thesis by (intro indef) (auto split: if_splits)
    next
      case False
      with 2 run obtain v d2 bs where arg: "read_argument b d1 = Ok (v, d2)"
        and re: "read_exact v d2 = Ok (bs, d')"
        by (auto simp: map_ok_eq_Ok_iff pbind_def and_then_eq_Ok_iff split: if_splits)
      from string_item [OF ok1 arg re] 2 show ?thesis by (simp add: m_def)
    qed
  next
    case 3
    with run indef counted show ?thesis by (cases "b AND 31 = AI_INDEF") simp_all
  next
    case 4
    with run indef counted show ?thesis by (cases "b AND 31 = AI_INDEF") simp_all
  next
    case 5
    with run obtain v d2 where arg: "read_argument b d1 = Ok (v, d2)"
      and it: "skip_f n d2 = Some (Ok d')" by (auto simp: try_then_eq_Ok)
    have "dec_ok d2" using read_argument_Ok [OF arg ok1] ok1 moves_ok by blast
    from tagged_item [OF ok1 arg _ item [OF it this]] 5 show ?thesis by (simp add: m_def)
  next
    case 6
    then show ?thesis using run simple_payload [OF ok1, of b d'] by (simp add: m_def)
  qed
  then show ?thesis using item_from_head [OF ok rb] by blast
qed

lemma skip_sound:
  "(\<forall>d d'. skip_f n d = Some (Ok d') \<longrightarrow> dec_ok d \<longrightarrow> item_read d d')
   \<and> (\<forall>c d d'. skip_items n c d = Some (Ok d') \<longrightarrow> dec_ok d \<longrightarrow> items_read (\<lambda>k. k = c) [] d d')
   \<and> (\<forall>k d d'. skip_until n k d = Some (Ok d') \<longrightarrow> dec_ok d \<longrightarrow> items_read (\<lambda>n. k dvd n) [BREAK] d d')"
proof (induction n)
  case 0
  have "items_read (\<lambda>k. k = c) [] d d'" if "skip_items 0 c d = Some (Ok d')" "dec_ok d" for c d d'
    using that by (cases c) (auto simp: items_read_def moves_refl)
  then show ?case by simp
next
  case (Suc n)
  then have item: "\<And>d d'. skip_f n d = Some (Ok d') \<Longrightarrow> dec_ok d \<Longrightarrow> item_read d d'"
    and items: "\<And>c d d'. skip_items n c d = Some (Ok d') \<Longrightarrow> dec_ok d \<Longrightarrow> items_read (\<lambda>k. k = c) [] d d'"
    and until: "\<And>k d d'. skip_until n k d = Some (Ok d') \<Longrightarrow> dec_ok d \<Longrightarrow> items_read (\<lambda>n. k dvd n) [BREAK] d d'"
    by blast+
  have "items_read (\<lambda>k. k = c) [] d d'" if "skip_items (Suc n) c d = Some (Ok d')" "dec_ok d" for c d d'
  proof (cases c)
    case 0
    with that show ?thesis by (auto simp: items_read_def moves_refl)
  next
    case (Suc c0)
    with that(1) obtain d1 where d1: "skip_f n d = Some (Ok d1)" "skip_items n c0 d1 = Some (Ok d')"
      by (auto simp: fuel_then_eq_Ok)
    have r: "item_read d d1" by (rule item [OF d1(1) that(2)])
    then have "dec_ok d1" using that(2) by (auto simp: item_read_def intro: moves_ok)
    from items_read_Cons [OF r items [OF d1(2) this]] Suc show ?thesis by simp
  qed
  moreover have "items_read (\<lambda>n. k dvd n) [BREAK] d d'"
    if "skip_until (Suc n) k d = Some (Ok d')" "dec_ok d" for k d d'
  proof (cases "peek_byte d = Ok (BREAK, d)")
    case True
    then have "moves d d' \<and> span d d' = [BREAK]"
      using that by (auto simp: peek_byte_def moves_def span_def take_Suc hd_drop_conv_nth
          split: if_splits)
    then show ?thesis unfolding items_read_def by (intro conjI exI [of _ "[]"]) simp_all
  next
    case False
    with that(1) obtain d1 where d1: "skip_items n k d = Some (Ok d1)" "skip_until n k d1 = Some (Ok d')"
      by (auto simp: try_then_eq_Ok fuel_then_eq_Ok peek_byte_def split: if_splits)
    have r: "items_read (\<lambda>j. j = k) [] d d1" by (rule items [OF d1(1) that(2)])
    then have "dec_ok d1" using that(2) by (auto simp: items_read_def intro: moves_ok)
    from items_read_rounds [OF r until [OF d1(2) this]] show ?thesis .
  qed
  moreover have "item_read d d'" if "skip_f (Suc n) d = Some (Ok d')" "dec_ok d" for d d'
    by (rule skip_item_step [OF until items item that])
  ultimately show ?case by blast
qed

lemmas skip_f_sound = skip_sound [THEN conjunct1, rule_format]
lemmas skip_items_sound = skip_sound [THEN conjunct2, THEN conjunct1, rule_format]


section \<open>The fuel is enough\<close>

text \<open>An item takes at least one byte.\<close>

lemma item_read_progress:
  assumes "item_read d d'"
  shows "dec_pos d < dec_pos d'"
proof -
  have "span d d' \<noteq> []" "moves d d'" using assms cbor_item_first by (auto simp: item_read_def)
  then show ?thesis using length_span [of d d'] by (cases "span d d'") auto
qed

lemma item_read_remaining:
  assumes "item_read d d'"
  shows "dec_remaining d' < dec_remaining d"
  using item_read_progress [OF assms] assms by (auto simp: item_read_def moves_def dec_remaining_def)

lemma moves_remaining: "moves d d' \<Longrightarrow> dec_remaining d' \<le> dec_remaining d"
  by (auto simp: moves_def dec_remaining_def)

lemma items_read_remaining:
  assumes "items_read (\<lambda>n. n = Suc c) [] d d'"
  shows "dec_remaining d' < dec_remaining d"
proof -
  from assms obtain xs where xs: "length xs = Suc c" "\<forall>x\<in>set xs. cbor_item x" "span d d' = concat xs"
    and mv: "moves d d'" by (auto simp: items_read_def)
  then have "0 < length (span d d')" using cbor_item_first by (cases xs) auto
  then show ?thesis unfolding length_span [OF mv] using mv by (auto simp: moves_def dec_remaining_def)
qed

lemma try_then_None: "try_then r f = None \<longleftrightarrow> (\<exists>x. r = Ok x \<and> f x = None)"
  by (cases r) auto

lemma fuel_then_None: "fuel_then m f = None \<longleftrightarrow> m = None \<or> (\<exists>x. m = Some (Ok x) \<and> f x = None)"
  by (auto simp: fuel_then_def try_then_None split: option.splits)

lemma skip_f_not_None:
  assumes until: "\<And>k d. 0 < k \<Longrightarrow> dec_ok d \<Longrightarrow> 3 * dec_remaining d + 3 \<le> n \<Longrightarrow> skip_until n k d \<noteq> None"
    and items: "\<And>c d. dec_ok d \<Longrightarrow> 3 * dec_remaining d + 2 \<le> n \<Longrightarrow> skip_items n c d \<noteq> None"
    and item: "\<And>d. dec_ok d \<Longrightarrow> 3 * dec_remaining d + 1 \<le> n \<Longrightarrow> skip_f n d \<noteq> None"
    and ok: "dec_ok d" and fuel: "3 * dec_remaining d + 1 \<le> Suc n"
  shows "skip_f (Suc n) d \<noteq> None"
proof
  assume none: "skip_f (Suc n) d = None"
  then obtain b d1 where rb: "read_byte d = Ok (b, d1)" by (auto simp: try_then_None)
  note mv = read_byte_Ok [OF rb ok]
  have "dec_remaining d1 + 1 = dec_remaining d"
    using mv length_span [of d d1] by (auto simp: moves_def dec_remaining_def)
  then have fuel1: "3 * dec_remaining d1 + 3 \<le> n" using fuel by simp
  have ok1: "dec_ok d1" using mv ok moves_ok by blast
  have u: "skip_until n 1 d1 \<noteq> None" "skip_until n 2 d1 \<noteq> None" using until ok1 fuel1 by auto
  have "skip_items n c d2 \<noteq> None \<and> skip_f n d2 \<noteq> None" if "read_argument b d1 = Ok (v, d2)" for v d2 c
  proof -
    note ra = read_argument_Ok [OF that ok1]
    have "dec_ok d2" "dec_remaining d2 \<le> dec_remaining d1" using ra ok1 moves_ok moves_remaining by blast+
    then show ?thesis using items [of d2] item [of d2] fuel1 by simp
  qed
  then have arg: "\<And>v d2 c. read_argument b d1 = Ok (v, d2) \<Longrightarrow> skip_items n c d2 \<noteq> None"
    "\<And>v d2. read_argument b d1 = Ok (v, d2) \<Longrightarrow> skip_f n d2 \<noteq> None" by blast+
  from none u show False
    by (auto simp: rb Let_def try_then_None simp del: not_None_eq split: if_splits dest: arg)
qed

lemma skip_fuel_enough:
  "(\<forall>d. dec_ok d \<longrightarrow> 3 * dec_remaining d + 1 \<le> n \<longrightarrow> skip_f n d \<noteq> None)
   \<and> (\<forall>c d. dec_ok d \<longrightarrow> 3 * dec_remaining d + 2 \<le> n \<longrightarrow> skip_items n c d \<noteq> None)
   \<and> (\<forall>k d. 0 < k \<longrightarrow> dec_ok d \<longrightarrow> 3 * dec_remaining d + 3 \<le> n \<longrightarrow> skip_until n k d \<noteq> None)"
proof (induction n)
  case (Suc n)
  then have item: "\<And>d. dec_ok d \<Longrightarrow> 3 * dec_remaining d + 1 \<le> n \<Longrightarrow> skip_f n d \<noteq> None"
    and items: "\<And>c d. dec_ok d \<Longrightarrow> 3 * dec_remaining d + 2 \<le> n \<Longrightarrow> skip_items n c d \<noteq> None"
    and until: "\<And>k d. 0 < k \<Longrightarrow> dec_ok d \<Longrightarrow> 3 * dec_remaining d + 3 \<le> n \<Longrightarrow> skip_until n k d \<noteq> None"
    by blast+
  have "skip_items (Suc n) c d \<noteq> None" if "dec_ok d" "3 * dec_remaining d + 2 \<le> Suc n" for c d
  proof (cases c)
    case (Suc c0)
    have "skip_items n c0 d1 \<noteq> None" if "skip_f n d = Some (Ok d1)" for d1
    proof -
      have r: "item_read d d1" by (rule skip_f_sound [OF that \<open>dec_ok d\<close>])
      then have "dec_ok d1" using \<open>dec_ok d\<close> by (auto simp: item_read_def intro: moves_ok)
      then show ?thesis using items item_read_remaining [OF r] \<open>3 * dec_remaining d + 2 \<le> Suc n\<close> by simp
    qed
    then show ?thesis using Suc item [of d] that by (simp add: fuel_then_None)
  qed simp
  moreover have "skip_until (Suc n) k d \<noteq> None"
    if "0 < k" "dec_ok d" "3 * dec_remaining d + 3 \<le> Suc n" for k d
  proof -
    have "skip_until n k d1 \<noteq> None" if "skip_items n k d = Some (Ok d1)" for d1
    proof -
      have r: "items_read (\<lambda>j. j = k) [] d d1" by (rule skip_items_sound [OF that \<open>dec_ok d\<close>])
      then have "dec_ok d1" using \<open>dec_ok d\<close> by (auto simp: items_read_def intro: moves_ok)
      moreover have "dec_remaining d1 < dec_remaining d"
        using items_read_remaining [of "k - 1" d d1] r \<open>0 < k\<close> by simp
      ultimately show ?thesis using until [OF \<open>0 < k\<close>] \<open>3 * dec_remaining d + 3 \<le> Suc n\<close> by simp
    qed
    then show ?thesis using items [of d k] that
      by (auto simp: try_then_None fuel_then_None peek_byte_def simp del: not_None_eq split: if_splits)
  qed
  ultimately show ?case using skip_f_not_None [OF until items item] by blast
qed simp

lemma skip_f_fuel: "dec_ok d \<Longrightarrow> skip_f (skip_fuel d) d \<noteq> None"
  using skip_fuel_enough [of "skip_fuel d"] by (simp add: skip_fuel_def)


section \<open>Every item is skipped\<close>

text \<open>The bytes \<open>bs\<close> stand between the positions of \<open>d\<close> and \<open>d'\<close>.\<close>

definition span_at :: "decoder \<Rightarrow> bytes \<Rightarrow> decoder \<Rightarrow> bool" where
  "span_at d bs d' \<longleftrightarrow> dec_ok d \<and> moves d d' \<and> span d d' = bs"

lemma span_at_end:
  assumes "span_at d bs d'"
  shows "d' = d\<lparr>dec_pos := dec_pos d + length bs\<rparr>"
proof -
  have "length bs = dec_pos d' - dec_pos d" "moves d d'"
    using assms length_span by (auto simp: span_at_def)
  then show ?thesis by (cases d; cases d') (simp add: moves_def)
qed

lemma span_at_append:
  assumes "span_at d (xs @ ys) d'"
  obtains dm where "span_at d xs dm" "span_at dm ys d'"
proof
  let ?dm = "d\<lparr>dec_pos := dec_pos d + length xs\<rparr>"
  have ok: "dec_ok d" "moves d d'" "span d d' = xs @ ys" using assms by (auto simp: span_at_def)
  have pos: "dec_pos d' = dec_pos d + (length xs + length ys)" using span_at_end [OF assms] by simp
  have mv: "moves d ?dm" "moves ?dm d'" using ok(2) pos by (auto simp: moves_def)
  have sp: "span d ?dm @ span ?dm d' = xs @ ys" using span_append [OF mv] ok(3) by simp
  have "length (span d ?dm) = length xs" using length_span [OF mv(1)] by simp
  then have "span d ?dm = xs" "span ?dm d' = ys" using sp by (simp_all add: append_eq_append_conv)
  then show "span_at d xs ?dm" "span_at ?dm ys d'"
    using ok(1) mv moves_ok [OF ok(1) mv(1)] by (auto simp: span_at_def)
qed

lemma span_at_Nil: "span_at d [] d' \<Longrightarrow> d' = d"
  using span_at_end [of d "[]" d'] by simp

lemma span_at_first:
  assumes "span_at d (b # bs) d'"
  shows "peek_byte d = Ok (b, d)"
proof -
  have mv: "moves d d'" and sp: "span d d' = b # bs" using assms by (auto simp: span_at_def)
  have "0 < dec_pos d' - dec_pos d" using length_span [OF mv] sp by simp
  then have lt: "dec_pos d < length (dec_data d)" using mv by (simp add: moves_def)
  have "hd (span d d') = dec_data d ! dec_pos d"
    using \<open>0 < dec_pos d' - dec_pos d\<close> lt by (simp add: span_def hd_take hd_drop_conv_nth)
  then show ?thesis using lt sp by (simp add: peek_byte_def)
qed

lemma span_at_byte:
  assumes "span_at d [b] d'"
  shows "read_byte d = Ok (b, d')"
  using span_at_first [OF assms] span_at_end [OF assms]
  by (simp add: read_byte_def pbind_def advance_def preturn_def)

lemma span_at_exact:
  assumes "span_at d bs d'" "length bs = unat n"
  shows "read_exact n d = Ok (bs, d')"
proof -
  have mv: "dec_ok d" "moves d d'" "span d d' = bs" using assms(1) by (auto simp: span_at_def)
  have d': "d' = d\<lparr>dec_pos := dec_pos d + unat n\<rparr>" using span_at_end [OF assms(1)] assms(2) by simp
  have le: "dec_pos d + unat n \<le> length (dec_data d)" using mv(2) d' by (simp add: moves_def)
  then have "(dec_pos d + unat n) mod 2 ^ 64 = dec_pos d + unat n" using mv(1) by (simp add: dec_ok_def)
  then show ?thesis using le mv(3) d' by (simp add: read_exact_def Let_def span_def)
qed

lemma span_at_argument:
  assumes "cbor_head m (b # args) v" "m < 8" "span_at d args d'"
  shows "read_argument b d = Ok (v, d') \<and> drop_bit 5 b = m \<and> b AND 31 < 28"
proof -
  from assms(1) obtain a where a: "a < 28" "b = push_bit 5 m OR a" "length args = arg_len a"
    "v = arg_val a args" by (auto simp: cbor_head_def)
  have a32: "a < 32" using a(1) by (auto simp: word_less_nat_alt)
  note hb = head_byte [OF assms(2) a32]
  note ra = read_argument_of [OF assms(2) a32, folded a(2)]
  have "a \<le> 23 \<or> a = 24 \<or> a = 25 \<or> a = 26 \<or> a = 27"
    using a(1) by (auto simp: word_less_nat_alt word_le_nat_alt word_unat_eq_iff)
  then have "read_argument b d = Ok (v, d')"
  proof (elim disjE)
    assume a23: "a \<le> 23"
    then have "a < 24" by (auto simp: word_less_nat_alt word_le_nat_alt)
    then show ?thesis using a(3,4) assms(3) span_at_Nil [of d d'] a23
      by (simp add: ra arg_len_def arg_val_def preturn_def)
  next
    assume a24: "a = 24"
    then obtain x where x: "args = [x]" using a(3) by (auto simp: arg_len_def length_Suc_conv)
    then have "read_byte d = Ok (x, d')" using assms(3) span_at_byte by simp
    then show ?thesis using a(4) a24 x by (simp add: ra pbind_def preturn_def arg_val_def be_val_def)
  next
    assume a25: "a = 25"
    then have "read_exact 2 d = Ok (args, d')" using a(3) by (intro span_at_exact [OF assms(3)]) (simp add: arg_len_def)
    then show ?thesis using a(4) a25 by (simp add: ra pbind_def preturn_def arg_val_def)
  next
    assume a26: "a = 26"
    then have "read_exact 4 d = Ok (args, d')" using a(3) by (intro span_at_exact [OF assms(3)]) (simp add: arg_len_def)
    then show ?thesis using a(4) a26 by (simp add: ra pbind_def preturn_def arg_val_def)
  next
    assume a27: "a = 27"
    then have "read_exact 8 d = Ok (args, d')" using a(3) by (intro span_at_exact [OF assms(3)]) (simp add: arg_len_def)
    then show ?thesis using a(4) a27 by (simp add: ra pbind_def preturn_def arg_val_def)
  qed
  then show ?thesis using hb a(1,2) by simp
qed

text \<open>\<open>x\<close> is skipped: with any fuel, \<open>skip\<close> runs out of it or stops right after \<open>x\<close>.\<close>

definition skipped :: "bytes \<Rightarrow> bool" where
  "skipped x \<longleftrightarrow> (\<forall>n d d'. span_at d x d' \<longrightarrow> skip_f n d \<in> {None, Some (Ok d')})"

lemma fuel_then_cases:
  "m \<in> {None, Some (Ok x)} \<Longrightarrow> f x \<in> {None, Some (Ok y)} \<Longrightarrow> fuel_then m f \<in> {None, Some (Ok y)}"
  by (auto simp: fuel_then_def)

lemma skip_items_skipped:
  "\<forall>x\<in>set xs. skipped x \<Longrightarrow> span_at d (concat xs) d'
     \<Longrightarrow> skip_items n (length xs) d \<in> {None, Some (Ok d')}"
proof (induction xs arbitrary: n d)
  case Nil
  then show ?case using span_at_Nil by auto
next
  case (Cons x xs)
  from Cons.prems(2) obtain dm where dm: "span_at d x dm" "span_at dm (concat xs) d'"
    by (auto elim: span_at_append)
  show ?case
  proof (cases n)
    case (Suc n0)
    have "skip_f n0 d \<in> {None, Some (Ok dm)}" using Cons.prems(1) dm(1) by (simp add: skipped_def)
    moreover have "skip_items n0 (length xs) dm \<in> {None, Some (Ok d')}"
      using Cons.IH [OF _ dm(2)] Cons.prems(1) by simp
    ultimately show ?thesis using fuel_then_cases Suc by simp
  qed simp
qed

lemma skip_until_skipped:
  assumes k: "0 < k"
  shows "k dvd length xs \<Longrightarrow> \<forall>x\<in>set xs. skipped x \<and> cbor_item x \<Longrightarrow> span_at d (concat xs @ [BREAK]) d'
     \<Longrightarrow> skip_until n k d \<in> {None, Some (Ok d')}"
proof (induction "length xs" arbitrary: xs n d rule: less_induct)
  case less
  show ?case
  proof (cases n)
    case (Suc n0)
    show ?thesis
    proof (cases xs)
      case Nil
      then have "peek_byte d = Ok (BREAK, d)" "d' = d\<lparr>dec_pos := dec_pos d + 1\<rparr>"
        using less.prems(3) span_at_first [of d BREAK "[]" d'] span_at_end [of d "[BREAK]" d'] by simp_all
      then show ?thesis using Suc by simp
    next
      case (Cons x ys)
      have len: "k \<le> length xs" using less.prems(1) k Cons by (simp add: dvd_imp_le)
      have split: "concat xs = concat (take k xs) @ concat (drop k xs)"
        by (metis append_take_drop_id concat_append)
      obtain dm where dm: "span_at d (concat (take k xs)) dm" "span_at dm (concat (drop k xs) @ [BREAK]) d'"
        using less.prems(3) unfolding split by (auto elim: span_at_append)
      obtain b bs where x: "x = b # bs" "b \<noteq> BREAK"
        using cbor_item_first [of x] less.prems(2) Cons by (cases x) auto
      have peek: "peek_byte d = Ok (b, d)"
        using less.prems(3) x(1) Cons by (intro span_at_first) simp
      have sk: "\<forall>x\<in>set (take k xs). skipped x" using less.prems(2) by (auto dest: in_set_takeD)
      have "skip_items n0 k d \<in> {None, Some (Ok dm)}"
        using skip_items_skipped [OF sk dm(1)] len by simp
      moreover have "length (drop k xs) < length xs" "k dvd length (drop k xs)"
        using k len less.prems(1) by simp_all
      then have "skip_until n0 k dm \<in> {None, Some (Ok d')}"
        using less.hyps [OF _ _ _ dm(2)] less.prems(2) by (auto dest: in_set_dropD)
      ultimately show ?thesis using Suc peek x(2) fuel_then_cases by simp
    qed
  qed simp
qed

text \<open>An item by its head and the continuation that \<open>skip\<close> takes after it.\<close>

lemma skipped_headI:
  assumes h: "cbor_head m h v" and m: "m < 8"
    and cont: "\<And>n b d1 d2 d'. drop_bit 5 b = m \<Longrightarrow> b AND 31 < 28 \<Longrightarrow> read_argument b d1 = Ok (v, d2)
        \<Longrightarrow> span_at d1 (tl h) d2 \<Longrightarrow> span_at d2 body d' \<Longrightarrow> read_byte d = Ok (b, d1)
        \<Longrightarrow> skip_f (Suc n) d \<in> {None, Some (Ok d')}"
    and at: "span_at d (h @ body) d'"
  shows "skip_f n d \<in> {None, Some (Ok d')}"
proof (cases n)
  case (Suc n0)
  obtain b args where b: "h = b # args" using cbor_head_first [OF h m] by (cases h) auto
  from span_at_append [OF at] obtain d2 where "span_at d h d2" "span_at d2 body d'" .
  then have d2: "span_at d ([b] @ args) d2" "span_at d2 body d'" using b by simp_all
  obtain d1 where d1: "span_at d [b] d1" "span_at d1 args d2" using d2(1) by (rule span_at_append)
  from span_at_argument [OF h [unfolded b] m d1(2)] show ?thesis
    using cont [of b d1 d2 d' n0] span_at_byte [OF d1(1)] d1(2) d2(2) b Suc by simp
qed simp

lemma skipped_indef:
  assumes m: "m \<in> {2, 3, 4, 5}" and xs: "\<forall>x\<in>set xs. skipped x \<and> cbor_item x"
    and dvd: "(if m = 5 then 2 else 1) dvd length xs"
  shows "skipped ((push_bit 5 m OR AI_INDEF) # concat xs @ [BREAK])"
  unfolding skipped_def
proof (intro allI impI)
  fix n d d'
  define b where "b = push_bit 5 m OR AI_INDEF"
  assume "span_at d ((push_bit 5 m OR AI_INDEF) # concat xs @ [BREAK]) d'"
  then have "span_at d ([b] @ concat xs @ [BREAK]) d'" by (simp add: b_def)
  then obtain d1 where d1: "span_at d [b] d1" "span_at d1 (concat xs @ [BREAK]) d'"
    by (rule span_at_append)
  have "m < 8" "AI_INDEF < 32" using m by (auto simp: word_less_nat_alt AI_INDEF_def)
  note hb = head_byte [OF this, folded b_def]
  show "skip_f n d \<in> {None, Some (Ok d')}"
  proof (cases n)
    case (Suc n0)
    have "skip_until n0 (if m = 5 then 2 else 1) d1 \<in> {None, Some (Ok d')}"
      by (rule skip_until_skipped [OF _ dvd xs d1(2)]) simp
    moreover have "skip_f n d = skip_until n0 (if m = 5 then 2 else 1) d1"
      using m unfolding Suc skip_f.simps span_at_byte [OF d1(1)] try_then.simps prod.case hb Let_def
      by (elim insertE emptyE) simp_all
    ultimately show ?thesis by (simp only:)
  qed simp
qed

lemma ai_not_indef: "b AND 31 < 28 \<Longrightarrow> b AND 31 \<noteq> AI_INDEF"
  by (auto simp: AI_INDEF_def)

lemma simple_payload_of:
  assumes "read_argument b d1 = Ok (v, d2)"
  shows "(if b AND 31 \<le> 23 then Some (Ok d1)
      else if b AND 31 = 24 then Some (map_ok snd (read_byte d1))
      else if b AND 31 = 25 then Some (map_ok snd (read_exact 2 d1))
      else if b AND 31 = 26 then Some (map_ok snd (read_exact 4 d1))
      else if b AND 31 = 27 then Some (map_ok snd (read_exact 8 d1))
      else Some (Err (CborInvalidAdditionalInfo (b AND 31)))) = Some (Ok d2)"
proof -
  have pb: "map_ok snd (p d1) = Ok d2" if "pbind p (\<lambda>b. preturn (f b)) d1 = Ok (v, d2)"
    for f and p :: "'a parser"
    using that by (cases "p d1") (auto simp: pbind_def preturn_def)
  show ?thesis using assms unfolding read_argument_def Let_def
    by (auto simp only: split: if_splits) (simp_all add: preturn_def pfail_def pb)
qed

lemma cbor_item_skipped: "cbor_item x \<Longrightarrow> skipped x"
proof (induction rule: cbor_item.induct)
  case (integer m bs v)
  then have m: "m < 8" by auto
  show ?case unfolding skipped_def
  proof (intro allI impI)
    fix n d d' assume "span_at d bs d'"
    then have "span_at d (bs @ []) d'" by simp
    from integer(2) m _ this show "skip_f n d \<in> {None, Some (Ok d')}"
      by (rule skipped_headI) (use integer(1) span_at_Nil in \<open>auto simp: Let_def\<close>)
  qed
next
  case (string m h v body)
  then have m: "m < 8" by auto
  show ?case unfolding skipped_def
  proof (intro allI impI)
    fix n d d' assume "span_at d (h @ body) d'"
    from string(2) m _ this show "skip_f n d \<in> {None, Some (Ok d')}"
      by (rule skipped_headI) (use string(1,3) span_at_exact in
          \<open>auto simp: Let_def pbind_def dest!: ai_not_indef\<close>)
  qed
next
  case (string_indef m xs)
  then show ?case by (intro skipped_indef) auto
next
  case (array h v xs)
  show ?case unfolding skipped_def
  proof (intro allI impI)
    fix n d d' assume "span_at d (h @ concat xs) d'"
    from array(1) _ _ this show "skip_f n d \<in> {None, Some (Ok d')}"
    proof (rule skipped_headI)
      fix n b d1 d2 d' assume "drop_bit 5 b = 4" "b AND 31 < 28" "read_argument b d1 = Ok (v, d2)"
        "span_at d2 (concat xs) d'" "read_byte d = Ok (b, d1)"
      moreover from this(4) have "skip_items n (unat v) d2 \<in> {None, Some (Ok d')}"
        using skip_items_skipped [of xs d2 d' n] array(2,3) by simp
      ultimately show "skip_f (Suc n) d \<in> {None, Some (Ok d')}"
        using ai_not_indef [of b] by (auto simp: Let_def)
    qed simp
  qed
next
  case (array_indef xs)
  then show ?case by (intro skipped_indef) auto
next
  case (map h v xs)
  show ?case unfolding skipped_def
  proof (intro allI impI)
    fix n d d' assume "span_at d (h @ concat xs) d'"
    from map(1) _ _ this show "skip_f n d \<in> {None, Some (Ok d')}"
    proof (rule skipped_headI)
      fix n b d1 d2 d' assume "drop_bit 5 b = 5" "b AND 31 < 28" "read_argument b d1 = Ok (v, d2)"
        "span_at d2 (concat xs) d'" "read_byte d = Ok (b, d1)"
      moreover from this(4) have "skip_items n (2 * unat v) d2 \<in> {None, Some (Ok d')}"
        using skip_items_skipped [of xs d2 d' n] map(2,3) by simp
      ultimately show "skip_f (Suc n) d \<in> {None, Some (Ok d')}"
        using ai_not_indef [of b] by (auto simp: Let_def)
    qed simp
  qed
next
  case (map_indef xs)
  then show ?case by (intro skipped_indef) auto
next
  case (tag h v x)
  show ?case unfolding skipped_def
  proof (intro allI impI)
    fix n d d' assume "span_at d (h @ x) d'"
    from tag(1) _ _ this show "skip_f n d \<in> {None, Some (Ok d')}"
      by (rule skipped_headI) (use tag(3) in \<open>auto simp: Let_def skipped_def\<close>)
  qed
next
  case (simple bs v)
  show ?case unfolding skipped_def
  proof (intro allI impI)
    fix n d d' assume "span_at d bs d'"
    then have "span_at d (bs @ []) d'" by simp
    from simple _ _ this show "skip_f n d \<in> {None, Some (Ok d')}"
      by (rule skipped_headI) (auto simp: Let_def simple_payload_of dest!: span_at_Nil)
  qed
qed

lemma skip_iff_item_read:
  assumes ok: "dec_ok d"
  shows "skip d = Ok ((), d') \<longleftrightarrow> item_read d d'"
proof -
  have "skip d = Ok ((), d') \<longleftrightarrow> skip_f (skip_fuel d) d = Some (Ok d')"
    by (auto simp: skip_def map_ok_eq_Ok_iff split: option.splits)
  also have "\<dots> \<longleftrightarrow> item_read d d'"
  proof
    assume "item_read d d'"
    then have "span_at d (span d d') d'" "skipped (span d d')"
      using ok cbor_item_skipped by (auto simp: item_read_def span_at_def)
    then have "skip_f (skip_fuel d) d \<in> {None, Some (Ok d')}" unfolding skipped_def by blast
    with skip_f_fuel [OF ok] show "skip_f (skip_fuel d) d = Some (Ok d')" by auto
  qed (rule skip_f_sound [OF _ ok])
  finally show ?thesis .
qed




section \<open>Parsers and positions\<close>

lemma span_at_split:
  assumes "span_at d bs d'"
  obtains pre rest where "dec_data d = pre @ bs @ rest" "length pre = dec_pos d"
    "length pre + length bs + length rest < 2 ^ 63"
proof -
  define data where "data = dec_data d"
  define rest where "rest = drop (length bs) (drop (dec_pos d) data)"
  have ok: "dec_pos d \<le> length data" "length data < 2 ^ 63" and sp: "span d d' = bs"
    using assms by (auto simp: span_at_def dec_ok_def data_def)
  have "dec_pos d' = dec_pos d + length bs" using span_at_end [OF assms] by simp
  then have "take (length bs) (drop (dec_pos d) data) = bs" using sp by (simp add: span_def data_def)
  then have "drop (dec_pos d) data = bs @ rest"
    unfolding rest_def by (metis append_take_drop_id)
  then have data: "data = take (dec_pos d) data @ bs @ rest" by (metis append_take_drop_id)
  have "length (take (dec_pos d) data) + length bs + length rest = length data"
    by (subst (2) data) simp
  with data ok that [of "take (dec_pos d) data" rest] show thesis by (simp add: data_def)
qed

lemma decodes_iff_span_at: "decodes p bs v \<longleftrightarrow> (\<forall>d d'. span_at d bs d' \<longrightarrow> p d = Ok (v, d'))"
proof (intro iffI allI impI)
  fix d d' assume dec: "decodes p bs v" and at: "span_at d bs d'"
  from at obtain pre rest where data: "dec_data d = pre @ bs @ rest" "length pre = dec_pos d"
    "length pre + length bs + length rest < 2 ^ 63" by (rule span_at_split)
  have d: "d = \<lparr>dec_data = pre @ bs @ rest, dec_pos = length pre\<rparr>" using data(1,2) by (cases d) simp
  have d': "d' = \<lparr>dec_data = pre @ bs @ rest, dec_pos = length pre + length bs\<rparr>"
    using span_at_end [OF at] d by simp
  show "p d = Ok (v, d')" unfolding d d' by (rule decodesD [OF dec data(3)])
next
  assume *: "\<forall>d d'. span_at d bs d' \<longrightarrow> p d = Ok (v, d')"
  show "decodes p bs v" unfolding decodes_def
  proof (intro allI impI)
    fix pre rest :: bytes
    assume "length pre + length bs + length rest < 2 ^ 63"
    then have "span_at \<lparr>dec_data = pre @ bs @ rest, dec_pos = length pre\<rparr> bs
        \<lparr>dec_data = pre @ bs @ rest, dec_pos = length pre + length bs\<rparr>"
      by (simp add: span_at_def dec_ok_def moves_def span_def)
    with * show "p \<lparr>dec_data = pre @ bs @ rest, dec_pos = length pre\<rparr>
        = Ok (v, \<lparr>dec_data = pre @ bs @ rest, dec_pos = length pre + length bs\<rparr>)" by blast
  qed
qed

lemma decodes_skip: "cbor_item x \<Longrightarrow> decodes skip x ()"
  unfolding decodes_iff_span_at
proof (intro allI impI)
  fix d d' assume "cbor_item x" "span_at d x d'"
  then show "skip d = Ok ((), d')"
    using skip_iff_item_read [of d d'] by (simp add: span_at_def item_read_def)
qed

lemma decodes_raw_value: "cbor_item x \<Longrightarrow> decodes raw_value x x"
  unfolding decodes_iff_span_at
proof (intro allI impI)
  fix d d' assume "cbor_item x" and at: "span_at d x d'"
  then have "skip d = Ok ((), d')" using decodes_skip by (simp add: decodes_iff_span_at)
  moreover have "moves d d'" "span d d' = x" using at by (auto simp: span_at_def)
  then have "dec_slice d' (dec_pos d) (dec_pos d') = Ok x"
    by (auto simp: dec_slice_def moves_def span_def)
  ultimately show "raw_value d = Ok (x, d')" by (simp add: raw_value_def)
qed

lemma decodes_cbor_head:
  assumes "cbor_head m h v" "m < 8"
  shows "decodes (expect_major m) h v"
proof -
  obtain b args where b: "h = b # args" using cbor_head_first [OF assms] by (cases h) auto
  have "decodes (read_argument b) args v" and m: "drop_bit 5 b = m"
  proof -
    show "decodes (read_argument b) args v" unfolding decodes_iff_span_at
      using span_at_argument [OF assms(1) [unfolded b] assms(2)] by blast
    show "drop_bit 5 b = m" using cbor_head_byte [OF assms(1) [unfolded b] assms(2)] by simp
  qed
  then have "decodes (expect_major m) ([b] @ args) v" unfolding expect_major_def
    by (intro decodes_bind [OF decodes_read_byte]) simp
  then show ?thesis by (simp add: b)
qed

end
