(* ===== verification/BlockSpans.thy ===== *)
theory BlockSpans
  imports CborItems
begin

text \<open>
  The byte spans of the transactions of a block, \<open>extract_block_tx_byte_spans\<close> in
  \<open>src/crates/ledger/src/cbor.rs\<close>. Fees and transaction ids depend on the bytes as the author of
  the block wrote them, so the spans must be slices of the input, whatever widths and definite or
  indefinite lengths the author chose.
\<close>

section \<open>Model\<close>






lemma and_then_cong [fundef_cong]:
  "m = m' \<Longrightarrow> (\<And>x. m' = Ok x \<Longrightarrow> f x = f' x) \<Longrightarrow> and_then m f = and_then m' f'"
  by (cases m') auto


text \<open>The envelope's content is shorter than the envelope: its start lies behind the first byte.\<close>

definition forward :: "decoder \<Rightarrow> decoder \<Rightarrow> bool" where
  "forward d d' \<longleftrightarrow> dec_data d' = dec_data d \<and> dec_pos d \<le> dec_pos d'"

lemma forward_trans: "forward d d' \<Longrightarrow> forward d' d'' \<Longrightarrow> forward d d''"
  by (auto simp: forward_def)











section \<open>The spans are the author's bytes\<close>













end
