(* ===== verification/LedgerCodecs.thy ===== *)
theory LedgerCodecs
  imports Cbor
begin

text \<open>
  The CBOR codecs of the ledger's core types, \<open>src/crates/ledger/src/cbor.rs\<close>, with the types
  they need from \<open>types.rs\<close>: points and tips, nonces, credentials and reward accounts, anchors,
  pool parameters with their relays, delegated representatives and all nineteen certificates. Every
  type is shown to meet the contract \<open>codec\<close>, from which its round trip follows.
\<close>

section \<open>Types\<close>

record reward_account =
  ra_network :: u8
  ra_credential :: stake_credential

record anchor =
  an_url :: bytes
  an_data_hash :: bytes

datatype relay =
    SingleHostAddr "u16 option" "bytes option" "bytes option"
  | SingleHostName "u16 option" bytes
  | MultiHostName bytes

record pool_metadata =
  pm_url :: bytes
  pm_metadata_hash :: bytes

record pool_params =
  pp_operator :: bytes
  pp_vrf_keyhash :: bytes
  pp_pledge :: u64
  pp_cost :: u64
  pp_margin :: unit_interval
  pp_reward_account :: reward_account
  pp_pool_owners :: "bytes list"
  pp_relays :: "relay list"
  pp_pool_metadata :: "pool_metadata option"

datatype drep = DRepKeyHash bytes | DRepScriptHash bytes | AlwaysAbstain | AlwaysNoConfidence

datatype mir_pot = Reserves | Treasury

datatype mir_target =
    StakeCredentials "(stake_credential \<times> 64 word) list"
  | SendToOppositePot u64

datatype dcert =
    AccountRegistration stake_credential
  | AccountUnregistration stake_credential
  | DelegationToStakePool stake_credential bytes
  | PoolRegistration pool_params
  | PoolRetirement bytes epoch_no
  | GenesisDelegation bytes bytes bytes
  | MoveInstantaneousReward mir_pot mir_target
  | AccountRegistrationDeposit stake_credential u64
  | AccountUnregistrationDeposit stake_credential u64
  | DelegationToDrep stake_credential drep
  | DelegationToStakePoolAndDrep stake_credential bytes drep
  | AccountRegistrationDelegationToStakePool stake_credential bytes u64
  | AccountRegistrationDelegationToDrep stake_credential drep u64
  | AccountRegistrationDelegationToStakePoolAndDrep stake_credential bytes drep u64
  | CommitteeAuthorization stake_credential stake_credential
  | CommitteeResignation stake_credential "anchor option"
  | DrepRegistration stake_credential u64 "anchor option"
  | DrepUnregistration stake_credential u64
  | DrepUpdate stake_credential "anchor option"

text \<open>The derived order of credentials: key hashes before script hashes, then by bytes.\<close>

instantiation stake_credential :: linorder
begin

fun less_eq_stake_credential :: "stake_credential \<Rightarrow> stake_credential \<Rightarrow> bool" where
  "less_eq_stake_credential (AddrKeyHash a) (AddrKeyHash b) \<longleftrightarrow> a \<le> b"
| "less_eq_stake_credential (AddrKeyHash a) (ScriptHash b) \<longleftrightarrow> True"
| "less_eq_stake_credential (ScriptHash a) (AddrKeyHash b) \<longleftrightarrow> False"
| "less_eq_stake_credential (ScriptHash a) (ScriptHash b) \<longleftrightarrow> a \<le> b"

definition less_stake_credential :: "stake_credential \<Rightarrow> stake_credential \<Rightarrow> bool" where
  "less_stake_credential a b \<longleftrightarrow> a \<le> b \<and> \<not> b \<le> a"

instance
proof
  fix x y z :: stake_credential
  show "x < y \<longleftrightarrow> x \<le> y \<and> \<not> y \<le> x" by (rule less_stake_credential_def)
  show "x \<le> x" by (cases x) simp_all
  show "x \<le> y \<Longrightarrow> y \<le> z \<Longrightarrow> x \<le> z" by (cases x; cases y; cases z) auto
  show "x \<le> y \<Longrightarrow> y \<le> x \<Longrightarrow> x = y" by (cases x; cases y) auto
  show "x \<le> y \<or> y \<le> x" by (cases x; cases y) auto
qed

end


section \<open>Encoders\<close>

fun encode_era :: "era \<Rightarrow> bytes" where
  "encode_era Byron = enc_unsigned 0"
| "encode_era Shelley = enc_unsigned 1"
| "encode_era Allegra = enc_unsigned 2"
| "encode_era Mary = enc_unsigned 3"
| "encode_era Alonzo = enc_unsigned 4"
| "encode_era Babbage = enc_unsigned 5"
| "encode_era Conway = enc_unsigned 6"

fun encode_point :: "point \<Rightarrow> bytes" where
  "encode_point Origin = enc_array 0"
| "encode_point (BlockPoint slot hash) = enc_array 2 @ enc_unsigned slot @ enc_bytes hash"

fun encode_tip :: "tip \<Rightarrow> bytes" where
  "encode_tip TipGenesis = enc_array 0"
| "encode_tip (Tip p bn) = enc_array 2 @ encode_point p @ enc_unsigned bn"

fun encode_nonce :: "nonce \<Rightarrow> bytes" where
  "encode_nonce Neutral = enc_array 0"
| "encode_nonce (Hash h) = enc_array 1 @ enc_bytes h"

fun encode_credential :: "stake_credential \<Rightarrow> bytes" where
  "encode_credential (AddrKeyHash h) = enc_array 2 @ enc_unsigned 0 @ enc_bytes h"
| "encode_credential (ScriptHash h) = enc_array 2 @ enc_unsigned 1 @ enc_bytes h"

fun cred_hash :: "stake_credential \<Rightarrow> bytes" where
  "cred_hash (AddrKeyHash h) = h"
| "cred_hash (ScriptHash h) = h"

fun is_key_hash :: "stake_credential \<Rightarrow> bool" where
  "is_key_hash (AddrKeyHash h) = True"
| "is_key_hash (ScriptHash h) = False"

definition reward_account_to_bytes :: "reward_account \<Rightarrow> bytes" where
  "reward_account_to_bytes ra =
     ((if is_key_hash (ra_credential ra) then 0xe0 else 0xf0) OR (ra_network ra AND 0x0f))
     # cred_hash (ra_credential ra)"

definition encode_reward_account :: "reward_account \<Rightarrow> bytes" where
  "encode_reward_account ra = enc_bytes (reward_account_to_bytes ra)"

definition encode_anchor :: "anchor \<Rightarrow> bytes" where
  "encode_anchor a = enc_array 2 @ enc_text (an_url a) @ enc_bytes (an_data_hash a)"

definition encode_unit_interval :: "unit_interval \<Rightarrow> bytes" where
  "encode_unit_interval u =
     enc_tag 30 @ enc_array 2 @ enc_unsigned (ui_numerator u) @ enc_unsigned (ui_denominator u)"

text \<open>An optional value is \<open>null\<close> when it is absent.\<close>

definition encode_opt :: "('a \<Rightarrow> bytes) \<Rightarrow> 'a option \<Rightarrow> bytes" where
  "encode_opt enc x = (case x of Some y \<Rightarrow> enc y | None \<Rightarrow> enc_null)"

fun encode_relay :: "relay \<Rightarrow> bytes" where
  "encode_relay (SingleHostAddr port ipv4 ipv6) =
     enc_array 4 @ enc_unsigned 0 @ encode_opt (\<lambda>p. enc_unsigned (ucast p)) port
     @ encode_opt enc_bytes ipv4 @ encode_opt enc_bytes ipv6"
| "encode_relay (SingleHostName port name) =
     enc_array 3 @ enc_unsigned 1 @ encode_opt (\<lambda>p. enc_unsigned (ucast p)) port @ enc_text name"
| "encode_relay (MultiHostName name) = enc_array 2 @ enc_unsigned 2 @ enc_text name"

definition encode_pool_metadata :: "pool_metadata \<Rightarrow> bytes" where
  "encode_pool_metadata pm = enc_array 2 @ enc_text (pm_url pm) @ enc_bytes (pm_metadata_hash pm)"

definition encode_pool_params_inline :: "pool_params \<Rightarrow> bytes" where
  "encode_pool_params_inline pp =
     enc_bytes (pp_operator pp) @ enc_bytes (pp_vrf_keyhash pp)
     @ enc_unsigned (pp_pledge pp) @ enc_unsigned (pp_cost pp)
     @ encode_unit_interval (pp_margin pp) @ encode_reward_account (pp_reward_account pp)
     @ (enc_array (of_nat (length (pp_pool_owners pp))) @ concat (map enc_bytes (pp_pool_owners pp)))
     @ (enc_array (of_nat (length (pp_relays pp))) @ concat (map encode_relay (pp_relays pp)))
     @ encode_opt encode_pool_metadata (pp_pool_metadata pp)"

definition encode_pool_params :: "pool_params \<Rightarrow> bytes" where
  "encode_pool_params pp = enc_array 9 @ encode_pool_params_inline pp"

fun encode_drep :: "drep \<Rightarrow> bytes" where
  "encode_drep (DRepKeyHash h) = enc_array 2 @ enc_unsigned 0 @ enc_bytes h"
| "encode_drep (DRepScriptHash h) = enc_array 2 @ enc_unsigned 1 @ enc_bytes h"
| "encode_drep AlwaysAbstain = enc_array 1 @ enc_unsigned 2"
| "encode_drep AlwaysNoConfidence = enc_array 1 @ enc_unsigned 3"

fun mir_pot_number :: "mir_pot \<Rightarrow> u64" where
  "mir_pot_number Reserves = 0"
| "mir_pot_number Treasury = 1"

fun encode_mir_target :: "mir_target \<Rightarrow> bytes" where
  "encode_mir_target (StakeCredentials m) =
     enc_map (of_nat (length m)) @ concat (map (\<lambda>(c, d). encode_credential c @ enc_integer d) m)"
| "encode_mir_target (SendToOppositePot coin) = enc_unsigned coin"

fun encode_dcert :: "dcert \<Rightarrow> bytes" where
  "encode_dcert (AccountRegistration c) = enc_array 2 @ enc_unsigned 0 @ encode_credential c"
| "encode_dcert (AccountUnregistration c) = enc_array 2 @ enc_unsigned 1 @ encode_credential c"
| "encode_dcert (DelegationToStakePool c pool) =
     enc_array 3 @ enc_unsigned 2 @ encode_credential c @ enc_bytes pool"
| "encode_dcert (PoolRegistration params) =
     enc_array 10 @ enc_unsigned 3 @ encode_pool_params_inline params"
| "encode_dcert (PoolRetirement pool epoch) =
     enc_array 3 @ enc_unsigned 4 @ enc_bytes pool @ enc_unsigned epoch"
| "encode_dcert (GenesisDelegation genesis deleg vrf) =
     enc_array 4 @ enc_unsigned 5 @ enc_bytes genesis @ enc_bytes deleg @ enc_bytes vrf"
| "encode_dcert (MoveInstantaneousReward pot target) =
     enc_array 2 @ enc_unsigned 6 @ enc_array 2 @ enc_unsigned (mir_pot_number pot)
     @ encode_mir_target target"
| "encode_dcert (AccountRegistrationDeposit c coin) =
     enc_array 3 @ enc_unsigned 7 @ encode_credential c @ enc_unsigned coin"
| "encode_dcert (AccountUnregistrationDeposit c coin) =
     enc_array 3 @ enc_unsigned 8 @ encode_credential c @ enc_unsigned coin"
| "encode_dcert (DelegationToDrep c drep) =
     enc_array 3 @ enc_unsigned 9 @ encode_credential c @ encode_drep drep"
| "encode_dcert (DelegationToStakePoolAndDrep c pool drep) =
     enc_array 4 @ enc_unsigned 10 @ encode_credential c @ enc_bytes pool @ encode_drep drep"
| "encode_dcert (AccountRegistrationDelegationToStakePool c pool coin) =
     enc_array 4 @ enc_unsigned 11 @ encode_credential c @ enc_bytes pool @ enc_unsigned coin"
| "encode_dcert (AccountRegistrationDelegationToDrep c drep coin) =
     enc_array 4 @ enc_unsigned 12 @ encode_credential c @ encode_drep drep @ enc_unsigned coin"
| "encode_dcert (AccountRegistrationDelegationToStakePoolAndDrep c pool drep coin) =
     enc_array 5 @ enc_unsigned 13 @ encode_credential c @ enc_bytes pool @ encode_drep drep
     @ enc_unsigned coin"
| "encode_dcert (CommitteeAuthorization cold hot) =
     enc_array 3 @ enc_unsigned 14 @ encode_credential cold @ encode_credential hot"
| "encode_dcert (CommitteeResignation cold a) =
     enc_array 3 @ enc_unsigned 15 @ encode_credential cold @ encode_opt encode_anchor a"
| "encode_dcert (DrepRegistration c coin a) =
     enc_array 4 @ enc_unsigned 16 @ encode_credential c @ enc_unsigned coin
     @ encode_opt encode_anchor a"
| "encode_dcert (DrepUnregistration c coin) =
     enc_array 3 @ enc_unsigned 17 @ encode_credential c @ enc_unsigned coin"
| "encode_dcert (DrepUpdate c a) =
     enc_array 3 @ enc_unsigned 18 @ encode_credential c @ encode_opt encode_anchor a"


section \<open>Decoders\<close>

text \<open>A byte string of fixed length, and an array of fixed length.\<close>

definition decode_fixed :: "nat \<Rightarrow> bytes parser" where
  "decode_fixed n =
     pbind dec_bytes (\<lambda>raw. if length raw = n then preturn raw else pfail (CborInvalidLength n (length raw)))"

definition decode_hash28 :: "bytes parser" where
  "decode_hash28 = decode_fixed 28"

definition decode_hash32 :: "bytes parser" where
  "decode_hash32 = decode_fixed 32"

definition with_array :: "nat \<Rightarrow> 'a parser \<Rightarrow> 'a parser" where
  "with_array n p =
     pbind dec_array (\<lambda>len. if len \<noteq> of_nat n then pfail (CborInvalidLength n (unat len)) else p)"

definition decode_era :: "era parser" where
  "decode_era =
     pbind dec_unsigned (\<lambda>tag.
       if tag = 0 then preturn Byron else if tag = 1 then preturn Shelley
       else if tag = 2 then preturn Allegra else if tag = 3 then preturn Mary
       else if tag = 4 then preturn Alonzo else if tag = 5 then preturn Babbage
       else if tag = 6 then preturn Conway
       else pfail (CborInvalidAdditionalInfo (ucast tag)))"

definition decode_point :: "point parser" where
  "decode_point =
     pbind dec_array (\<lambda>len.
       if len = 0 then preturn Origin
       else if len = 2
       then pbind dec_unsigned (\<lambda>slot. pbind decode_hash32 (\<lambda>hash. preturn (BlockPoint slot hash)))
       else pfail (CborInvalidLength 2 (unat len)))"

definition decode_tip :: "tip parser" where
  "decode_tip =
     pbind dec_array (\<lambda>len.
       if len = 0 then preturn TipGenesis
       else if len = 2
       then pbind decode_point (\<lambda>p. pbind dec_unsigned (\<lambda>bn. preturn (Tip p bn)))
       else pfail (CborInvalidLength 2 (unat len)))"

definition decode_nonce :: "nonce parser" where
  "decode_nonce =
     pbind dec_array (\<lambda>len.
       if len = 0 then preturn Neutral
       else if len = 1 then pbind decode_hash32 (\<lambda>h. preturn (Hash h))
       else pfail (CborInvalidLength 1 (unat len)))"

definition decode_credential :: "stake_credential parser" where
  "decode_credential =
     with_array 2 (pbind dec_unsigned (\<lambda>tag. pbind decode_hash28 (\<lambda>hash.
       if tag = 0 then preturn (AddrKeyHash hash)
       else if tag = 1 then preturn (ScriptHash hash)
       else pfail (CborInvalidAdditionalInfo (ucast tag)))))"

definition reward_account_from_bytes :: "bytes \<Rightarrow> reward_account option" where
  "reward_account_from_bytes bs =
     (if length bs \<noteq> 29 then None
      else let header = hd bs; network = header AND 0x0f; addr_type = drop_bit 4 header in
        if \<not> (network = 0 \<or> network = 1) then None
        else if addr_type = 0x0e then Some \<lparr>ra_network = network, ra_credential = AddrKeyHash (tl bs)\<rparr>
        else if addr_type = 0x0f then Some \<lparr>ra_network = network, ra_credential = ScriptHash (tl bs)\<rparr>
        else None)"

definition decode_reward_account :: "reward_account parser" where
  "decode_reward_account =
     pbind dec_bytes (\<lambda>raw. case reward_account_from_bytes raw of
         Some ra \<Rightarrow> preturn ra | None \<Rightarrow> pfail (CborInvalidLength 29 (length raw)))"

definition decode_anchor :: "anchor parser" where
  "decode_anchor =
     with_array 2 (pbind dec_text (\<lambda>url. pbind decode_hash32 (\<lambda>h.
       preturn \<lparr>an_url = url, an_data_hash = h\<rparr>)))"

definition decode_unit_interval :: "unit_interval parser" where
  "decode_unit_interval =
     pbind dec_tag (\<lambda>t. if t \<noteq> 30 then pfail (CborTypeMismatch 30 (ucast t))
       else with_array 2 (pbind dec_unsigned (\<lambda>n. pbind dec_unsigned (\<lambda>d.
         preturn \<lparr>ui_numerator = n, ui_denominator = d\<rparr>))))"

text \<open>The optional fields of a relay, a pool or a certificate: \<open>null\<close> or the value.\<close>

definition decode_opt :: "'a parser \<Rightarrow> 'a option parser" where
  "decode_opt p =
     pbind peek_major (\<lambda>m. if m = 7 then pbind dec_null (\<lambda>_. preturn None)
       else pbind p (\<lambda>x. preturn (Some x)))"

definition decode_optional_port :: "u16 option parser" where
  "decode_optional_port = decode_opt (pbind dec_unsigned (\<lambda>v. preturn (ucast v)))"

definition decode_optional_ipv4 :: "bytes option parser" where
  "decode_optional_ipv4 = decode_opt (decode_fixed 4)"

definition decode_optional_ipv6 :: "bytes option parser" where
  "decode_optional_ipv6 = decode_opt (decode_fixed 16)"

definition decode_relay :: "relay parser" where
  "decode_relay =
     pbind dec_array (\<lambda>len. pbind dec_unsigned (\<lambda>tag.
       if tag = 0
       then (if len \<noteq> 4 then pfail (CborInvalidLength 4 (unat len))
             else pbind decode_optional_port (\<lambda>port. pbind decode_optional_ipv4 (\<lambda>ipv4.
                  pbind decode_optional_ipv6 (\<lambda>ipv6. preturn (SingleHostAddr port ipv4 ipv6)))))
       else if tag = 1
       then (if len \<noteq> 3 then pfail (CborInvalidLength 3 (unat len))
             else pbind decode_optional_port (\<lambda>port. pbind dec_text (\<lambda>name.
                  preturn (SingleHostName port name))))
       else if tag = 2
       then (if len \<noteq> 2 then pfail (CborInvalidLength 2 (unat len))
             else pbind dec_text (\<lambda>name. preturn (MultiHostName name)))
       else pfail (CborTypeMismatch 2 (ucast tag))))"

definition decode_pool_metadata :: "pool_metadata parser" where
  "decode_pool_metadata =
     with_array 2 (pbind dec_text (\<lambda>url. pbind decode_hash32 (\<lambda>h.
       preturn \<lparr>pm_url = url, pm_metadata_hash = h\<rparr>)))"

definition decode_pool_params_inline :: "pool_params parser" where
  "decode_pool_params_inline =
     pbind decode_hash28 (\<lambda>operator. pbind decode_hash32 (\<lambda>vrf_keyhash.
     pbind dec_unsigned (\<lambda>pledge. pbind dec_unsigned (\<lambda>cost.
     pbind decode_unit_interval (\<lambda>margin. pbind decode_reward_account (\<lambda>reward_account.
     pbind (pbind dec_array_or_set (\<lambda>n. pmany (unat n) decode_hash28)) (\<lambda>pool_owners.
     pbind (pbind dec_array (\<lambda>n. pmany (unat n) decode_relay)) (\<lambda>relays.
     pbind (decode_opt decode_pool_metadata) (\<lambda>pool_metadata.
     preturn \<lparr>pp_operator = operator, pp_vrf_keyhash = vrf_keyhash, pp_pledge = pledge,
       pp_cost = cost, pp_margin = margin, pp_reward_account = reward_account,
       pp_pool_owners = pool_owners, pp_relays = relays, pp_pool_metadata = pool_metadata\<rparr>)))))))))"

definition decode_pool_params :: "pool_params parser" where
  "decode_pool_params = with_array 9 decode_pool_params_inline"

definition decode_drep :: "drep parser" where
  "decode_drep =
     pbind dec_array (\<lambda>len. pbind dec_unsigned (\<lambda>tag.
       if tag = 0 \<or> tag = 1
       then (if len \<noteq> 2 then pfail (CborInvalidLength 2 (unat len))
             else pbind decode_hash28 (\<lambda>hash.
               if tag = 0 then preturn (DRepKeyHash hash) else preturn (DRepScriptHash hash)))
       else if tag = 2
       then (if len \<noteq> 1 then pfail (CborInvalidLength 1 (unat len)) else preturn AlwaysAbstain)
       else if tag = 3
       then (if len \<noteq> 1 then pfail (CborInvalidLength 1 (unat len)) else preturn AlwaysNoConfidence)
       else pfail (CborTypeMismatch 3 (ucast tag))))"

definition decode_mir_target :: "mir_target parser" where
  "decode_mir_target =
     pbind peek_major (\<lambda>m.
       if m = 5
       then pbind dec_map (\<lambda>n.
            pbind (pmany (unat n) (pbind decode_credential (\<lambda>c. pbind dec_integer (\<lambda>d. preturn (c, d)))))
              (\<lambda>entries. preturn (StakeCredentials (fold (\<lambda>(c, d). btree_insert c d) entries []))))
       else pbind dec_unsigned (\<lambda>coin. preturn (SendToOppositePot coin)))"

definition decode_mir :: "dcert parser" where
  "decode_mir =
     pbind dec_array (\<lambda>_. pbind dec_unsigned (\<lambda>pot_raw.
       if pot_raw = 0
       then pbind decode_mir_target (\<lambda>t. preturn (MoveInstantaneousReward Reserves t))
       else if pot_raw = 1
       then pbind decode_mir_target (\<lambda>t. preturn (MoveInstantaneousReward Treasury t))
       else pfail (CborTypeMismatch 1 (ucast pot_raw))))"

definition decode_dcert :: "dcert parser" where
  "decode_dcert =
     pbind dec_array (\<lambda>_. pbind dec_unsigned (\<lambda>tag.
       if tag = 0 then pbind decode_credential (\<lambda>c. preturn (AccountRegistration c))
       else if tag = 1 then pbind decode_credential (\<lambda>c. preturn (AccountUnregistration c))
       else if tag = 2
       then pbind decode_credential (\<lambda>c. pbind decode_hash28 (\<lambda>pool. preturn (DelegationToStakePool c pool)))
       else if tag = 3 then pbind decode_pool_params_inline (\<lambda>params. preturn (PoolRegistration params))
       else if tag = 4
       then pbind decode_hash28 (\<lambda>pool. pbind dec_unsigned (\<lambda>epoch. preturn (PoolRetirement pool epoch)))
       else if tag = 5
       then pbind decode_hash28 (\<lambda>genesis. pbind decode_hash28 (\<lambda>deleg. pbind decode_hash32 (\<lambda>vrf.
            preturn (GenesisDelegation genesis deleg vrf))))
       else if tag = 6 then decode_mir
       else if tag = 7
       then pbind decode_credential (\<lambda>c. pbind dec_unsigned (\<lambda>coin. preturn (AccountRegistrationDeposit c coin)))
       else if tag = 8
       then pbind decode_credential (\<lambda>c. pbind dec_unsigned (\<lambda>coin. preturn (AccountUnregistrationDeposit c coin)))
       else if tag = 9
       then pbind decode_credential (\<lambda>c. pbind decode_drep (\<lambda>drep. preturn (DelegationToDrep c drep)))
       else if tag = 10
       then pbind decode_credential (\<lambda>c. pbind decode_hash28 (\<lambda>pool. pbind decode_drep (\<lambda>drep.
            preturn (DelegationToStakePoolAndDrep c pool drep))))
       else if tag = 11
       then pbind decode_credential (\<lambda>c. pbind decode_hash28 (\<lambda>pool. pbind dec_unsigned (\<lambda>coin.
            preturn (AccountRegistrationDelegationToStakePool c pool coin))))
       else if tag = 12
       then pbind decode_credential (\<lambda>c. pbind decode_drep (\<lambda>drep. pbind dec_unsigned (\<lambda>coin.
            preturn (AccountRegistrationDelegationToDrep c drep coin))))
       else if tag = 13
       then pbind decode_credential (\<lambda>c. pbind decode_hash28 (\<lambda>pool. pbind decode_drep (\<lambda>drep.
            pbind dec_unsigned (\<lambda>coin.
            preturn (AccountRegistrationDelegationToStakePoolAndDrep c pool drep coin)))))
       else if tag = 14
       then pbind decode_credential (\<lambda>cold. pbind decode_credential (\<lambda>hot. preturn (CommitteeAuthorization cold hot)))
       else if tag = 15
       then pbind decode_credential (\<lambda>cold. pbind (decode_opt decode_anchor) (\<lambda>a. preturn (CommitteeResignation cold a)))
       else if tag = 16
       then pbind decode_credential (\<lambda>c. pbind dec_unsigned (\<lambda>coin. pbind (decode_opt decode_anchor) (\<lambda>a.
            preturn (DrepRegistration c coin a))))
       else if tag = 17
       then pbind decode_credential (\<lambda>c. pbind dec_unsigned (\<lambda>coin. preturn (DrepUnregistration c coin)))
       else if tag = 18
       then pbind decode_credential (\<lambda>c. pbind (decode_opt decode_anchor) (\<lambda>a. preturn (DrepUpdate c a)))
       else pfail (CborTypeMismatch 18 (ucast tag))))"


section \<open>Round trips\<close>

fun wf_point :: "point \<Rightarrow> bool" where
  "wf_point Origin \<longleftrightarrow> True"
| "wf_point (BlockPoint slot hash) \<longleftrightarrow> length hash = 32"

fun wf_tip :: "tip \<Rightarrow> bool" where
  "wf_tip TipGenesis \<longleftrightarrow> True"
| "wf_tip (Tip p bn) \<longleftrightarrow> wf_point p"

fun wf_nonce :: "nonce \<Rightarrow> bool" where
  "wf_nonce Neutral \<longleftrightarrow> True"
| "wf_nonce (Hash h) \<longleftrightarrow> length h = 32"

definition wf_credential :: "stake_credential \<Rightarrow> bool" where
  "wf_credential c \<longleftrightarrow> length (cred_hash c) = 28"

definition wf_reward_account :: "reward_account \<Rightarrow> bool" where
  "wf_reward_account ra \<longleftrightarrow> (ra_network ra = 0 \<or> ra_network ra = 1) \<and> wf_credential (ra_credential ra)"

definition wf_anchor :: "anchor \<Rightarrow> bool" where
  "wf_anchor a \<longleftrightarrow> utf8_valid (an_url a) \<and> length (an_data_hash a) = 32"

definition wf_pool_metadata :: "pool_metadata \<Rightarrow> bool" where
  "wf_pool_metadata pm \<longleftrightarrow> utf8_valid (pm_url pm) \<and> length (pm_metadata_hash pm) = 32"

fun wf_relay :: "relay \<Rightarrow> bool" where
  "wf_relay (SingleHostAddr port ipv4 ipv6) \<longleftrightarrow>
     (\<forall>ip\<in>set_option ipv4. length ip = 4) \<and> (\<forall>ip\<in>set_option ipv6. length ip = 16)"
| "wf_relay (SingleHostName port name) \<longleftrightarrow> utf8_valid name"
| "wf_relay (MultiHostName name) \<longleftrightarrow> utf8_valid name"

definition wf_pool_params :: "pool_params \<Rightarrow> bool" where
  "wf_pool_params pp \<longleftrightarrow> length (pp_operator pp) = 28 \<and> length (pp_vrf_keyhash pp) = 32
     \<and> wf_reward_account (pp_reward_account pp)
     \<and> (\<forall>h\<in>set (pp_pool_owners pp). length h = 28) \<and> length (pp_pool_owners pp) < 2 ^ 64
     \<and> (\<forall>r\<in>set (pp_relays pp). wf_relay r) \<and> length (pp_relays pp) < 2 ^ 64
     \<and> (\<forall>pm\<in>set_option (pp_pool_metadata pp). wf_pool_metadata pm)"

fun wf_drep :: "drep \<Rightarrow> bool" where
  "wf_drep (DRepKeyHash h) \<longleftrightarrow> length h = 28"
| "wf_drep (DRepScriptHash h) \<longleftrightarrow> length h = 28"
| "wf_drep _ \<longleftrightarrow> True"

fun wf_mir_target :: "mir_target \<Rightarrow> bool" where
  "wf_mir_target (StakeCredentials m) \<longleftrightarrow>
     btree_ok m \<and> (\<forall>(c, d)\<in>set m. wf_credential c) \<and> length m < 2 ^ 64"
| "wf_mir_target (SendToOppositePot coin) \<longleftrightarrow> True"

fun wf_dcert :: "dcert \<Rightarrow> bool" where
  "wf_dcert (AccountRegistration c) \<longleftrightarrow> wf_credential c"
| "wf_dcert (AccountUnregistration c) \<longleftrightarrow> wf_credential c"
| "wf_dcert (DelegationToStakePool c pool) \<longleftrightarrow> wf_credential c \<and> length pool = 28"
| "wf_dcert (PoolRegistration params) \<longleftrightarrow> wf_pool_params params"
| "wf_dcert (PoolRetirement pool epoch) \<longleftrightarrow> length pool = 28"
| "wf_dcert (GenesisDelegation genesis deleg vrf) \<longleftrightarrow>
     length genesis = 28 \<and> length deleg = 28 \<and> length vrf = 32"
| "wf_dcert (MoveInstantaneousReward pot target) \<longleftrightarrow> wf_mir_target target"
| "wf_dcert (AccountRegistrationDeposit c coin) \<longleftrightarrow> wf_credential c"
| "wf_dcert (AccountUnregistrationDeposit c coin) \<longleftrightarrow> wf_credential c"
| "wf_dcert (DelegationToDrep c drep) \<longleftrightarrow> wf_credential c \<and> wf_drep drep"
| "wf_dcert (DelegationToStakePoolAndDrep c pool drep) \<longleftrightarrow>
     wf_credential c \<and> length pool = 28 \<and> wf_drep drep"
| "wf_dcert (AccountRegistrationDelegationToStakePool c pool coin) \<longleftrightarrow>
     wf_credential c \<and> length pool = 28"
| "wf_dcert (AccountRegistrationDelegationToDrep c drep coin) \<longleftrightarrow> wf_credential c \<and> wf_drep drep"
| "wf_dcert (AccountRegistrationDelegationToStakePoolAndDrep c pool drep coin) \<longleftrightarrow>
     wf_credential c \<and> length pool = 28 \<and> wf_drep drep"
| "wf_dcert (CommitteeAuthorization cold hot) \<longleftrightarrow> wf_credential cold \<and> wf_credential hot"
| "wf_dcert (CommitteeResignation cold a) \<longleftrightarrow> wf_credential cold \<and> (\<forall>x\<in>set_option a. wf_anchor x)"
| "wf_dcert (DrepRegistration c coin a) \<longleftrightarrow> wf_credential c \<and> (\<forall>x\<in>set_option a. wf_anchor x)"
| "wf_dcert (DrepUnregistration c coin) \<longleftrightarrow> wf_credential c"
| "wf_dcert (DrepUpdate c a) \<longleftrightarrow> wf_credential c \<and> (\<forall>x\<in>set_option a. wf_anchor x)"

lemma decodes_fixed: "length bs = n \<Longrightarrow> decodes (decode_fixed n) (enc_bytes bs) bs"
  unfolding decode_fixed_def by (auto intro!: decodes_steps)

lemma decodes_hash28: "length bs = 28 \<Longrightarrow> decodes decode_hash28 (enc_bytes bs) bs"
  and decodes_hash32: "length bs = 32 \<Longrightarrow> decodes decode_hash32 (enc_bytes bs) bs"
  by (simp_all add: decode_hash28_def decode_hash32_def decodes_fixed)

lemma decodes_with_array [decodes_steps]:
  "m = of_nat n \<Longrightarrow> decodes p bs v \<Longrightarrow> decodes (with_array n p) (enc_array m @ bs) v"
  unfolding with_array_def by (auto intro!: decodes_steps)

lemmas hash_steps [decodes_steps] =
  decodes_hash28 [THEN decodes_bind] decodes_hash28 [THEN decodes_bind_last]
  decodes_hash32 [THEN decodes_bind] decodes_hash32 [THEN decodes_bind_last]

lemma decodes_point: "wf_point p \<Longrightarrow> decodes decode_point (encode_point p) p"
  unfolding decode_point_def by (cases p) (auto intro!: decodes_steps)

lemmas point_steps [decodes_steps] =
  decodes_point [THEN decodes_bind] decodes_point [THEN decodes_bind_last]

lemma decodes_tip: "wf_tip t \<Longrightarrow> decodes decode_tip (encode_tip t) t"
  unfolding decode_tip_def by (cases t) (auto intro!: decodes_steps)

lemma decodes_nonce: "wf_nonce n \<Longrightarrow> decodes decode_nonce (encode_nonce n) n"
  unfolding decode_nonce_def by (cases n) (auto intro!: decodes_steps)

lemma decodes_era: "decodes decode_era (encode_era e) e"
  unfolding decode_era_def by (cases e) (auto intro!: decodes_steps)

lemma decodes_credential: "wf_credential c \<Longrightarrow> decodes decode_credential (encode_credential c) c"
  unfolding decode_credential_def wf_credential_def by (cases c) (auto intro!: decodes_steps)

lemma reward_account_round_trip:
  assumes "wf_reward_account ra"
  shows "reward_account_from_bytes (reward_account_to_bytes ra) = Some ra"
  using assms
  by (cases ra; cases "ra_credential ra")
     (auto simp: wf_reward_account_def wf_credential_def reward_account_from_bytes_def
        reward_account_to_bytes_def Let_def)

lemma decodes_reward_account:
  "wf_reward_account ra \<Longrightarrow> decodes decode_reward_account (encode_reward_account ra) ra"
  unfolding decode_reward_account_def encode_reward_account_def
  by (auto simp: reward_account_round_trip intro!: decodes_steps)

lemma decodes_anchor: "wf_anchor a \<Longrightarrow> decodes decode_anchor (encode_anchor a) a"
  unfolding decode_anchor_def encode_anchor_def wf_anchor_def
  by (cases a) (auto intro!: decodes_steps)

lemma decodes_unit_interval: "decodes decode_unit_interval (encode_unit_interval u) u"
  unfolding decode_unit_interval_def encode_unit_interval_def
  by (cases u) (auto intro!: decodes_steps)

lemma decodes_pool_metadata:
  "wf_pool_metadata pm \<Longrightarrow> decodes decode_pool_metadata (encode_pool_metadata pm) pm"
  unfolding decode_pool_metadata_def encode_pool_metadata_def wf_pool_metadata_def
  by (cases pm) (auto intro!: decodes_steps)

lemma decodes_drep: "wf_drep r \<Longrightarrow> decodes decode_drep (encode_drep r) r"
  unfolding decode_drep_def by (cases r) (auto intro!: decodes_steps)

lemmas record_steps [decodes_steps] =
  decodes_credential [THEN decodes_bind] decodes_credential [THEN decodes_bind_last]
  decodes_reward_account [THEN decodes_bind] decodes_unit_interval [THEN decodes_bind]
  decodes_drep [THEN decodes_bind] decodes_drep [THEN decodes_bind_last]

text \<open>An optional value is told from \<open>null\<close> by the major type it starts with.\<close>

definition starts_major :: "u8 \<Rightarrow> bytes \<Rightarrow> bool" where
  "starts_major m bs \<longleftrightarrow> m < 8 \<and> (\<exists>v r. bs = write_type_and_arg m v @ r)"

lemma decodes_peek_starts:
  "starts_major m bs \<Longrightarrow> decodes (f m) bs w \<Longrightarrow> decodes (pbind peek_major f) bs w"
  by (auto simp: starts_major_def intro: decodes_peek_major)

lemma starts_major_enc [simp]:
  "starts_major 0 (enc_unsigned v)" "starts_major 2 (enc_bytes bs)"
  "starts_major 4 (enc_array n)" "starts_major 4 (enc_array n @ bs)" "starts_major 5 (enc_map n @ bs)"
  "starts_major 7 enc_null"
  unfolding starts_major_def enc_unsigned_def enc_bytes_def enc_array_def enc_map_def enc_null_head
  by (auto intro: exI [of _ "[]"])

lemma decodes_opt:
  assumes "\<forall>y\<in>set_option x. decodes p (enc y) y \<and> starts_major m (enc y)" "m \<noteq> 7"
  shows "decodes (decode_opt p) (encode_opt enc x) x"
  unfolding decode_opt_def encode_opt_def
proof (cases x)
  case None
  show "decodes (pbind peek_major (\<lambda>m. if m = 7 then pbind dec_null (\<lambda>_. preturn None)
       else pbind p (\<lambda>x. preturn (Some x)))) (case x of Some y \<Rightarrow> enc y | None \<Rightarrow> enc_null) x"
    unfolding None by (rule decodes_peek_starts [of 7]) (auto intro!: decodes_steps)
next
  case (Some y)
  then have y: "decodes p (enc y) y" "starts_major m (enc y)" using assms(1) by simp_all
  show "decodes (pbind peek_major (\<lambda>m. if m = 7 then pbind dec_null (\<lambda>_. preturn None)
       else pbind p (\<lambda>x. preturn (Some x)))) (case x of Some y \<Rightarrow> enc y | None \<Rightarrow> enc_null) x"
    unfolding Some by (rule decodes_peek_starts [of m])
      (use y assms(2) in \<open>auto intro: decodes_bind_last\<close>)
qed

lemma decodes_port:
  "decodes decode_optional_port (encode_opt (\<lambda>p. enc_unsigned (ucast p)) port) port"
proof -
  have "ucast (ucast p :: u64) = p" for p :: u16
    by (rule bit_word_eqI) (auto simp: bit_simps)
  then show ?thesis unfolding decode_optional_port_def
    by (intro decodes_opt [where m = 0]) (auto intro!: decodes_steps)
qed

lemma decodes_ipv4: "\<forall>ip\<in>set_option x. length ip = 4 \<Longrightarrow> decodes decode_optional_ipv4 (encode_opt enc_bytes x) x"
  and decodes_ipv6: "\<forall>ip\<in>set_option x. length ip = 16 \<Longrightarrow> decodes decode_optional_ipv6 (encode_opt enc_bytes x) x"
  unfolding decode_optional_ipv4_def decode_optional_ipv6_def
  by (rule decodes_opt [where m = 2]; simp add: decodes_fixed)+

lemma decodes_opt_anchor:
  "\<forall>a\<in>set_option x. wf_anchor a \<Longrightarrow> decodes (decode_opt decode_anchor) (encode_opt encode_anchor x) x"
  by (rule decodes_opt [where m = 4]) (simp_all add: decodes_anchor, simp add: encode_anchor_def)

lemma decodes_opt_pool_metadata:
  "\<forall>a\<in>set_option x. wf_pool_metadata a
     \<Longrightarrow> decodes (decode_opt decode_pool_metadata) (encode_opt encode_pool_metadata x) x"
  by (rule decodes_opt [where m = 4]) (simp_all add: decodes_pool_metadata, simp add: encode_pool_metadata_def)

lemmas option_steps [decodes_steps] =
  decodes_port [THEN decodes_bind] decodes_ipv4 [THEN decodes_bind] decodes_ipv6 [THEN decodes_bind_last]
  decodes_opt_anchor [THEN decodes_bind_last] decodes_opt_pool_metadata [THEN decodes_bind_last]

lemma decodes_relay: "wf_relay r \<Longrightarrow> decodes decode_relay (encode_relay r) r"
  unfolding decode_relay_def by (cases r) (auto intro!: decodes_steps)

interpretation hash28_codec: codec enc_bytes decode_hash28 "\<lambda>h. length h = 28"
  by unfold_locales (rule decodes_hash28)

interpretation relay_codec: codec encode_relay decode_relay wf_relay
  by unfold_locales (rule decodes_relay)

text \<open>Pool owners are written as a plain array; the decoder also takes the tagged set of Conway.\<close>

lemma array_or_set_plain:
  assumes "decodes (pbind dec_array f) (enc_array n @ bs) v"
  shows "decodes (pbind dec_array_or_set f) (enc_array n @ bs) v"
proof -
  have "pbind dec_array_or_set f = pbind peek_major (\<lambda>m. if m = 6
      then (\<lambda>d. and_then (and_then (dec_tag d)
             (\<lambda>(t, d'). if t \<noteq> 258 then dec_array d else dec_array d')) (\<lambda>(x, d'). f x d'))
      else pbind dec_array f)"
    by (rule ext) (simp add: pbind_def dec_array_or_set_def peek_major_def peek_byte_def preturn_def)
  moreover have "decodes \<dots> (enc_array n @ bs) v"
    by (rule decodes_peek_starts [of 4]) (use assms in simp_all)
  ultimately show ?thesis by simp
qed

lemma decodes_pool_params_inline:
  assumes "wf_pool_params pp"
  shows "decodes decode_pool_params_inline (encode_pool_params_inline pp) pp"
proof -
  note wf = assms [unfolded wf_pool_params_def]
  have owners: "decodes (pbind dec_array_or_set (\<lambda>n. pmany (unat n) decode_hash28))
      (enc_array (of_nat (length (pp_pool_owners pp))) @ concat (map enc_bytes (pp_pool_owners pp)))
      (pp_pool_owners pp)"
    using wf by (intro array_or_set_plain hash28_codec.decodes_list) simp_all
  have relays: "decodes (pbind dec_array (\<lambda>n. pmany (unat n) decode_relay))
      (enc_array (of_nat (length (pp_relays pp))) @ concat (map encode_relay (pp_relays pp)))
      (pp_relays pp)"
    using wf by (intro relay_codec.decodes_list) simp_all
  show ?thesis
    unfolding decode_pool_params_inline_def encode_pool_params_inline_def
    by (intro decodes_steps decodes_bind [OF owners] decodes_bind [OF relays])
       (use wf in simp_all, cases pp, simp)
qed

lemmas pool_params_steps [decodes_steps] = decodes_pool_params_inline [THEN decodes_bind_last]

lemma decodes_pool_params: "wf_pool_params pp \<Longrightarrow> decodes decode_pool_params (encode_pool_params pp) pp"
  unfolding decode_pool_params_def encode_pool_params_def
  by (auto intro!: decodes_steps decodes_pool_params_inline)

lemma decodes_mir_target: "wf_mir_target t \<Longrightarrow> decodes decode_mir_target (encode_mir_target t) t"
proof (cases t)
  case (StakeCredentials m)
  assume wf: "wf_mir_target t"
  let ?p = "pbind decode_credential (\<lambda>c. pbind dec_integer (\<lambda>d. preturn (c, d)))"
  have len: "unat (of_nat (length m) :: u64) = length m"
    using wf StakeCredentials by (simp add: unat_of_nat)
  have "decodes ?p (case x of (c, d) \<Rightarrow> encode_credential c @ enc_integer d) x" if "x \<in> set m" for x
    using wf StakeCredentials that by (cases x) (auto intro!: decodes_steps)
  then have many: "decodes (pmany (unat (of_nat (length m) :: u64)) ?p)
      (concat (map (\<lambda>(c, d). encode_credential c @ enc_integer d) m)) m"
    unfolding len by (intro decodes_pmany) blast
  have "fold (\<lambda>(c, d). btree_insert c d) m [] = m"
    by (rule fold_btree_insert_rebuild) (use wf StakeCredentials in simp)
  then have "decodes (pbind dec_map (\<lambda>n. pbind (pmany (unat n) ?p)
      (\<lambda>entries. preturn (StakeCredentials (fold (\<lambda>(c, d). btree_insert c d) entries [])))))
      (encode_mir_target t) t"
    unfolding StakeCredentials encode_mir_target.simps
    by (intro decodes_bind [OF decodes_map] decodes_bind_last [OF many]) simp
  then show ?thesis unfolding decode_mir_target_def
    by (intro decodes_peek_starts [of 5]) (simp_all add: StakeCredentials)
next
  case (SendToOppositePot coin)
  then show ?thesis unfolding decode_mir_target_def
    by (intro decodes_peek_starts [of 0]) (auto intro!: decodes_steps)
qed

lemmas mir_steps [decodes_steps] = decodes_mir_target [THEN decodes_bind_last]

lemma decodes_mir:
  "wf_mir_target t \<Longrightarrow> decodes decode_mir
     (enc_array 2 @ enc_unsigned (mir_pot_number pot) @ encode_mir_target t) (MoveInstantaneousReward pot t)"
  unfolding decode_mir_def by (cases pot) (auto intro!: decodes_steps)

lemma decodes_dcert: "wf_dcert c \<Longrightarrow> decodes decode_dcert (encode_dcert c) c"
  unfolding decode_dcert_def by (cases c) (auto intro!: decodes_steps decodes_mir)

interpretation era_codec: codec encode_era decode_era "\<lambda>_. True"
  by unfold_locales (rule decodes_era)

interpretation point_codec: codec encode_point decode_point wf_point
  by unfold_locales (rule decodes_point)

interpretation tip_codec: codec encode_tip decode_tip wf_tip
  by unfold_locales (rule decodes_tip)

interpretation nonce_codec: codec encode_nonce decode_nonce wf_nonce
  by unfold_locales (rule decodes_nonce)

interpretation credential_codec: codec encode_credential decode_credential wf_credential
  by unfold_locales (rule decodes_credential)

interpretation reward_account_codec: codec encode_reward_account decode_reward_account wf_reward_account
  by unfold_locales (rule decodes_reward_account)

interpretation pool_params_codec: codec encode_pool_params decode_pool_params wf_pool_params
  by unfold_locales (rule decodes_pool_params)

interpretation drep_codec: codec encode_drep decode_drep wf_drep
  by unfold_locales (rule decodes_drep)

interpretation dcert_codec: codec encode_dcert decode_dcert wf_dcert
  by unfold_locales (rule decodes_dcert)

text \<open>
  C35. Certificates survive the wire: each of the nineteen certificates, with all that it contains
  (pool parameters, relays, credentials, anchors, reward maps), is decoded to itself from its
  encoding; bytes after it are reported; and no encoding is the beginning of another, so a sequence
  of certificates splits in one way only.
\<close>

theorem dcert_round_trip:
  assumes "wf_dcert c" "length (encode_dcert c @ rest) < 2 ^ 63"
  shows "from_cbor_bytes decode_dcert (encode_dcert c @ rest)
      = (if rest = [] then Ok c else Err (CborTrailingBytes (length rest)))
    \<and> (\<forall>c' rest'. wf_dcert c' \<longrightarrow> encode_dcert c @ rest = encode_dcert c' @ rest' \<longrightarrow> c' = c \<and> rest' = rest)"
proof (intro conjI allI impI)
  show "from_cbor_bytes decode_dcert (encode_dcert c @ rest)
      = (if rest = [] then Ok c else Err (CborTrailingBytes (length rest)))"
    using dcert_codec.round_trip [OF assms(1)] dcert_codec.trailing [OF assms(1), of rest] assms(2) by auto
next
  fix c' rest' assume "wf_dcert c'" and eq: "encode_dcert c @ rest = encode_dcert c' @ rest'"
  from dcert_codec.prefix_free [OF assms(1) \<open>wf_dcert c'\<close> eq assms(2)] show "c' = c" "rest' = rest"
    by simp_all
qed

lemma dcert_round_trip_witness:
  "from_cbor_bytes decode_dcert (encode_dcert (DrepRegistration (ScriptHash (replicate 28 7)) 500
      (Some \<lparr>an_url = [104, 105], an_data_hash = replicate 32 9\<rparr>)) @ [])
   = Ok (DrepRegistration (ScriptHash (replicate 28 7)) 500
      (Some \<lparr>an_url = [104, 105], an_data_hash = replicate 32 9\<rparr>))"
proof -
  let ?c = "DrepRegistration (ScriptHash (replicate 28 7)) 500
      (Some \<lparr>an_url = [104, 105], an_data_hash = replicate 32 9\<rparr>)"
  have "wf_dcert ?c" by (simp add: wf_credential_def wf_anchor_def)
  moreover have "length (encode_dcert ?c @ []) < 2 ^ 63"
    by (simp add: encode_opt_def encode_anchor_def enc_array_def enc_unsigned_def enc_bytes_def
        enc_text_def write_type_and_arg_def)
  ultimately show ?thesis using dcert_round_trip [of ?c "[]"] by simp
qed

text \<open>
  The decoder reads the length of a certificate's array but does not compare it with the fields it
  takes: this registration announces 23 elements and has two.
\<close>

lemma dcert_length_unchecked:
  assumes "wf_credential c" "length (encode_credential c) < 2 ^ 60"
  shows "from_cbor_bytes decode_dcert (enc_array 23 @ enc_unsigned 0 @ encode_credential c)
     = Ok (AccountRegistration c)"
proof -
  let ?bs = "enc_array 23 @ enc_unsigned 0 @ encode_credential c"
  have d: "decodes decode_dcert ?bs (AccountRegistration c)"
    unfolding decode_dcert_def using assms(1) by (auto intro!: decodes_steps)
  have "length ?bs < 2 ^ 63" using assms(2) by (simp add: enc_array_def enc_unsigned_def write_type_and_arg_def)
  from decodesD [OF d, of "[]" "[]"] this show ?thesis
    by (simp add: from_cbor_bytes_def decoder_new_def dec_is_empty_def)
qed

end
