(* ===== verification/Stores.thy ===== *)
theory Stores
  imports Types
begin

text \<open>
  The storage interfaces of \<open>src/crates/storage\<close>. Each Rust trait (\<open>ImmutableStore\<close>,
  \<open>VolatileStore\<close>, \<open>LedgerStore\<close>) is a record with one field for each method; a method that
  takes \<open>&mut self\<close> gives back the new store with its result. The in-memory stores are lists and
  are the reference for the contract of each trait: a store meets the contract when, through an
  abstraction to the list of its entries, every method does what the in-memory store does. The
  contracts are the locales \<open>immutable_store\<close>, \<open>volatile_store\<close> and \<open>ledger_store\<close>.
\<close>

section \<open>The traits\<close>

record ('i, 'tx) immutable_ops =
  io_append_block :: "'i \<Rightarrow> 'tx block \<Rightarrow> 'i \<times> (storage_error, unit) result"
  io_get_tip :: "'i \<Rightarrow> point"
  io_get_block :: "'i \<Rightarrow> header_hash \<Rightarrow> 'tx block option"
  io_contains_block :: "'i \<Rightarrow> header_hash \<Rightarrow> bool"
  io_suffix_after :: "'i \<Rightarrow> point \<Rightarrow> (storage_error, 'tx block list) result"
  io_len :: "'i \<Rightarrow> nat"
  io_trim_before_slot :: "'i \<Rightarrow> slot_no \<Rightarrow> 'i \<times> (storage_error, nat) result"
  io_trim_after_slot :: "'i \<Rightarrow> slot_no \<Rightarrow> 'i \<times> (storage_error, nat) result"

record ('v, 'tx) volatile_ops =
  vo_add_block :: "'v \<Rightarrow> 'tx block \<Rightarrow> 'v \<times> (storage_error, unit) result"
  vo_get_block :: "'v \<Rightarrow> header_hash \<Rightarrow> 'tx block option"
  vo_prefix_up_to :: "'v \<Rightarrow> point \<Rightarrow> (storage_error, 'tx block list) result"
  vo_prune_up_to :: "'v \<Rightarrow> point \<Rightarrow> 'v \<times> (storage_error, unit) result"
  vo_rollback_to :: "'v \<Rightarrow> point \<Rightarrow> 'v"
  vo_tip :: "'v \<Rightarrow> point"
  vo_suffix_after :: "'v \<Rightarrow> point \<Rightarrow> 'tx block list"
  vo_garbage_collect :: "'v \<Rightarrow> slot_no \<Rightarrow> 'v \<times> nat"
  vo_block_count :: "'v \<Rightarrow> nat"

record 'l ledger_ops =
  lo_save_snapshot :: "'l \<Rightarrow> slot_no \<Rightarrow> bytes \<Rightarrow> 'l \<times> (storage_error, unit) result"
  lo_latest_snapshot :: "'l \<Rightarrow> (slot_no \<times> bytes) option"
  lo_latest_snapshot_before_or_at :: "'l \<Rightarrow> slot_no \<Rightarrow> (slot_no \<times> bytes) option"
  lo_truncate_after :: "'l \<Rightarrow> slot_no option \<Rightarrow> 'l \<times> (storage_error, unit) result"
  lo_retain_latest :: "'l \<Rightarrow> nat \<Rightarrow> 'l \<times> (storage_error, unit) result"
  lo_count :: "'l \<Rightarrow> nat"


section \<open>The in-memory stores\<close>

definition last_point :: "'tx block list \<Rightarrow> point" where
  "last_point bs = (if bs = [] then Origin else point_for_block (last bs))"

subsection \<open>Immutable\<close>

definition im_append_block ::
    "'tx block list \<Rightarrow> 'tx block \<Rightarrow> 'tx block list \<times> (storage_error, unit) result" where
  "im_append_block bs b =
     (if list_ex (\<lambda>x. blk_hash x = blk_hash b) bs then (bs, Err (DuplicateBlock (blk_hash b)))
      else (bs @ [b], Ok ()))"

definition im_get_block :: "'tx block list \<Rightarrow> header_hash \<Rightarrow> 'tx block option" where
  "im_get_block bs h = List.find (\<lambda>b. blk_hash b = h) bs"

definition im_contains_block :: "'tx block list \<Rightarrow> header_hash \<Rightarrow> bool" where
  "im_contains_block bs h \<longleftrightarrow> list_ex (\<lambda>b. blk_hash b = h) bs"

fun im_resolve_suffix_start :: "'tx block list \<Rightarrow> point \<Rightarrow> (storage_error, nat) result" where
  "im_resolve_suffix_start bs Origin = Ok 0"
| "im_resolve_suffix_start bs (BlockPoint slot hash) =
     (if bs = [] then Ok 0
      else if slot < blk_slot (hd bs) then Ok 0
      else case position (\<lambda>b. blk_hash b = hash) bs of
          Some pos \<Rightarrow> Ok (pos + 1)
        | None \<Rightarrow> if slot > blk_slot (last bs) then Ok (length bs) else Err PointNotFound)"

definition im_suffix_after ::
    "'tx block list \<Rightarrow> point \<Rightarrow> (storage_error, 'tx block list) result" where
  "im_suffix_after bs p = map_ok (\<lambda>start. drop start bs) (im_resolve_suffix_start bs p)"

definition im_get_block_by_slot :: "'tx block list \<Rightarrow> slot_no \<Rightarrow> 'tx block option" where
  "im_get_block_by_slot bs slot = List.find (\<lambda>b. blk_slot b = slot) bs"

definition im_trim_before_slot ::
    "'tx block list \<Rightarrow> slot_no \<Rightarrow> 'tx block list \<times> (storage_error, nat) result" where
  "im_trim_before_slot bs slot =
     (let bs' = filter (\<lambda>b. blk_slot b \<ge> slot) bs in (bs', Ok (length bs - length bs')))"

definition im_trim_after_slot ::
    "'tx block list \<Rightarrow> slot_no \<Rightarrow> 'tx block list \<times> (storage_error, nat) result" where
  "im_trim_after_slot bs slot =
     (let bs' = filter (\<lambda>b. blk_slot b \<le> slot) bs in (bs', Ok (length bs - length bs')))"

definition in_memory_immutable :: "('tx block list, 'tx) immutable_ops" where
  "in_memory_immutable =
     \<lparr>io_append_block = im_append_block, io_get_tip = last_point, io_get_block = im_get_block,
      io_contains_block = im_contains_block, io_suffix_after = im_suffix_after, io_len = length,
      io_trim_before_slot = im_trim_before_slot, io_trim_after_slot = im_trim_after_slot\<rparr>"

subsection \<open>Volatile\<close>

definition vm_add_block ::
    "'tx block list \<Rightarrow> 'tx block \<Rightarrow> 'tx block list \<times> (storage_error, unit) result" where
  "vm_add_block bs b =
     (if list_ex (\<lambda>x. blk_hash x = blk_hash b) bs then (bs, Err (DuplicateBlock (blk_hash b)))
      else (bs @ [b], Ok ()))"

definition vm_get_block :: "'tx block list \<Rightarrow> header_hash \<Rightarrow> 'tx block option" where
  "vm_get_block bs h = List.find (\<lambda>b. blk_hash b = h) bs"

fun vm_prefix_up_to :: "'tx block list \<Rightarrow> point \<Rightarrow> (storage_error, 'tx block list) result" where
  "vm_prefix_up_to bs Origin = Ok []"
| "vm_prefix_up_to bs (BlockPoint s hash) =
     and_then (ok_or (position (\<lambda>b. blk_hash b = hash) bs) PointNotFound)
       (\<lambda>pos. Ok (take (pos + 1) bs))"

fun vm_prune_up_to ::
    "'tx block list \<Rightarrow> point \<Rightarrow> 'tx block list \<times> (storage_error, unit) result" where
  "vm_prune_up_to bs Origin = (bs, Ok ())"
| "vm_prune_up_to bs (BlockPoint s hash) =
     (case position (\<lambda>b. blk_hash b = hash) bs of
        Some pos \<Rightarrow> (drop (pos + 1) bs, Ok ())
      | None \<Rightarrow> (bs, Err PointNotFound))"

fun vm_rollback_to :: "'tx block list \<Rightarrow> point \<Rightarrow> 'tx block list" where
  "vm_rollback_to bs Origin = []"
| "vm_rollback_to bs (BlockPoint s hash) =
     (case position (\<lambda>b. blk_hash b = hash) bs of
        Some pos \<Rightarrow> take (pos + 1) bs
      | None \<Rightarrow> bs)"

fun vm_suffix_after :: "'tx block list \<Rightarrow> point \<Rightarrow> 'tx block list" where
  "vm_suffix_after bs Origin = bs"
| "vm_suffix_after bs (BlockPoint s hash) =
     (case position (\<lambda>b. blk_hash b = hash) bs of
        Some pos \<Rightarrow> if pos + 1 < length bs then drop (pos + 1) bs else []
      | None \<Rightarrow> [])"

definition vm_garbage_collect :: "'tx block list \<Rightarrow> slot_no \<Rightarrow> 'tx block list \<times> nat" where
  "vm_garbage_collect bs slot =
     (let bs' = filter (\<lambda>b. blk_slot b \<ge> slot) bs in (bs', length bs - length bs'))"

definition in_memory_volatile :: "('tx block list, 'tx) volatile_ops" where
  "in_memory_volatile =
     \<lparr>vo_add_block = vm_add_block, vo_get_block = vm_get_block,
      vo_prefix_up_to = vm_prefix_up_to, vo_prune_up_to = vm_prune_up_to,
      vo_rollback_to = vm_rollback_to, vo_tip = last_point, vo_suffix_after = vm_suffix_after,
      vo_garbage_collect = vm_garbage_collect, vo_block_count = length\<rparr>"

subsection \<open>Ledger snapshots\<close>

type_synonym snapshots = "(slot_no \<times> bytes) list"

definition lm_save_snapshot ::
    "snapshots \<Rightarrow> slot_no \<Rightarrow> bytes \<Rightarrow> snapshots \<times> (storage_error, unit) result" where
  "lm_save_snapshot ss slot data =
     (case position (\<lambda>(s, _). s = slot) ss of
        Some i \<Rightarrow> (ss[i := (slot, data)], Ok ())
      | None \<Rightarrow> (sort_key fst (ss @ [(slot, data)]), Ok ()))"

definition lm_latest_snapshot :: "snapshots \<Rightarrow> (slot_no \<times> bytes) option" where
  "lm_latest_snapshot ss = (if ss = [] then None else Some (last ss))"

definition lm_latest_snapshot_before_or_at ::
    "snapshots \<Rightarrow> slot_no \<Rightarrow> (slot_no \<times> bytes) option" where
  "lm_latest_snapshot_before_or_at ss slot = List.find (\<lambda>(s, _). s \<le> slot) (rev ss)"

fun lm_truncate_after ::
    "snapshots \<Rightarrow> slot_no option \<Rightarrow> snapshots \<times> (storage_error, unit) result" where
  "lm_truncate_after ss (Some slot) = (filter (\<lambda>(s, _). s \<le> slot) ss, Ok ())"
| "lm_truncate_after ss None = ([], Ok ())"

definition lm_retain_latest ::
    "snapshots \<Rightarrow> nat \<Rightarrow> snapshots \<times> (storage_error, unit) result" where
  "lm_retain_latest ss n =
     (if n = 0 then ([], Ok ())
      else if length ss > n then (drop (length ss - n) ss, Ok ())
      else (ss, Ok ()))"

definition in_memory_ledger :: "snapshots ledger_ops" where
  "in_memory_ledger =
     \<lparr>lo_save_snapshot = lm_save_snapshot, lo_latest_snapshot = lm_latest_snapshot,
      lo_latest_snapshot_before_or_at = lm_latest_snapshot_before_or_at,
      lo_truncate_after = lm_truncate_after, lo_retain_latest = lm_retain_latest,
      lo_count = length\<rparr>"


section \<open>The contracts\<close>

text \<open>
  An operation on a store implements one on lists: it keeps the store's invariant, its new state
  is abstracted to the new list, and the results agree.
\<close>

definition implements :: "('s \<Rightarrow> bool) \<Rightarrow> ('s \<Rightarrow> 't) \<Rightarrow> 's \<times> 'r \<Rightarrow> 't \<times> 'r \<Rightarrow> bool" where
  "implements ok \<alpha> x y \<longleftrightarrow> ok (fst x) \<and> \<alpha> (fst x) = fst y \<and> snd x = snd y"

lemma implementsE:
  assumes "implements ok \<alpha> x y"
  obtains s r where "x = (s, r)" "ok s" "y = (\<alpha> s, r)"
  using assms by (cases x, cases y) (auto simp: implements_def)

lemma implements_id [simp]: "implements ok (\<lambda>s. s) x x \<longleftrightarrow> ok (fst x)"
  by (simp add: implements_def)

definition hashes_ok :: "'tx block list \<Rightarrow> bool" where
  "hashes_ok bs \<longleftrightarrow> distinct (map blk_hash bs) \<and> (\<forall>b\<in>set bs. is_hash32 (blk_hash b))"

definition slots_increase :: "'tx block list \<Rightarrow> bool" where
  "slots_increase bs \<longleftrightarrow> sorted_wrt (<) (map blk_slot bs)"

definition snapshots_ok :: "snapshots \<Rightarrow> bool" where
  "snapshots_ok ss \<longleftrightarrow> sorted (map fst ss) \<and> distinct (map fst ss)"

locale immutable_store =
  fixes I :: "('i, 'tx) immutable_ops" and i_inv :: "'i \<Rightarrow> bool" and i_abs :: "'i \<Rightarrow> 'tx block list"
  assumes i_hashes: "i_inv i \<Longrightarrow> hashes_ok (i_abs i)"
    and i_append: "i_inv i \<Longrightarrow> is_hash32 (blk_hash b) \<Longrightarrow>
      implements i_inv i_abs (io_append_block I i b) (im_append_block (i_abs i) b)"
    and i_tip: "i_inv i \<Longrightarrow> io_get_tip I i = last_point (i_abs i)"
    and i_get: "i_inv i \<Longrightarrow> io_get_block I i h = im_get_block (i_abs i) h"
    and i_contains: "i_inv i \<Longrightarrow> io_contains_block I i h = im_contains_block (i_abs i) h"
    and i_suffix: "i_inv i \<Longrightarrow> io_suffix_after I i p = im_suffix_after (i_abs i) p"
    and i_len: "i_inv i \<Longrightarrow> io_len I i = length (i_abs i)"
    and i_trim_before:
      "i_inv i \<Longrightarrow> implements i_inv i_abs (io_trim_before_slot I i s) (im_trim_before_slot (i_abs i) s)"
    and i_trim_after:
      "i_inv i \<Longrightarrow> implements i_inv i_abs (io_trim_after_slot I i s) (im_trim_after_slot (i_abs i) s)"

locale volatile_store =
  fixes V :: "('v, 'tx) volatile_ops" and v_inv :: "'v \<Rightarrow> bool" and v_abs :: "'v \<Rightarrow> 'tx block list"
  assumes v_hashes: "v_inv v \<Longrightarrow> hashes_ok (v_abs v)"
    and v_add: "v_inv v \<Longrightarrow> is_hash32 (blk_hash b) \<Longrightarrow>
      implements v_inv v_abs (vo_add_block V v b) (vm_add_block (v_abs v) b)"
    and v_get: "v_inv v \<Longrightarrow> vo_get_block V v h = vm_get_block (v_abs v) h"
    and v_prefix: "v_inv v \<Longrightarrow> vo_prefix_up_to V v p = vm_prefix_up_to (v_abs v) p"
    and v_prune: "v_inv v \<Longrightarrow> implements v_inv v_abs (vo_prune_up_to V v p) (vm_prune_up_to (v_abs v) p)"
    and v_rollback:
      "v_inv v \<Longrightarrow> v_inv (vo_rollback_to V v p) \<and> v_abs (vo_rollback_to V v p) = vm_rollback_to (v_abs v) p"
    and v_tip: "v_inv v \<Longrightarrow> vo_tip V v = last_point (v_abs v)"
    and v_suffix: "v_inv v \<Longrightarrow> vo_suffix_after V v p = vm_suffix_after (v_abs v) p"
    and v_gc: "v_inv v \<Longrightarrow> implements v_inv v_abs (vo_garbage_collect V v s) (vm_garbage_collect (v_abs v) s)"
    and v_count: "v_inv v \<Longrightarrow> vo_block_count V v = length (v_abs v)"

locale ledger_store =
  fixes L :: "'l ledger_ops" and l_inv :: "'l \<Rightarrow> bool" and l_abs :: "'l \<Rightarrow> snapshots"
  assumes l_sorted: "l_inv l \<Longrightarrow> snapshots_ok (l_abs l)"
    and l_save: "l_inv l \<Longrightarrow> implements l_inv l_abs (lo_save_snapshot L l s d) (lm_save_snapshot (l_abs l) s d)"
    and l_latest: "l_inv l \<Longrightarrow> lo_latest_snapshot L l = lm_latest_snapshot (l_abs l)"
    and l_latest_at:
      "l_inv l \<Longrightarrow> lo_latest_snapshot_before_or_at L l s = lm_latest_snapshot_before_or_at (l_abs l) s"
    and l_truncate:
      "l_inv l \<Longrightarrow> implements l_inv l_abs (lo_truncate_after L l so) (lm_truncate_after (l_abs l) so)"
    and l_retain: "l_inv l \<Longrightarrow> implements l_inv l_abs (lo_retain_latest L l n) (lm_retain_latest (l_abs l) n)"
    and l_count: "l_inv l \<Longrightarrow> lo_count L l = length (l_abs l)"


section \<open>The in-memory stores meet the contracts\<close>

lemma list_ex_hash_iff: "list_ex (\<lambda>x. blk_hash x = h) bs \<longleftrightarrow> h \<in> blk_hash ` set bs"
  by (auto simp: list_ex_iff image_iff)

lemma hashes_ok_sublists:
  assumes "hashes_ok bs"
  shows "hashes_ok (take n bs)" "hashes_ok (drop n bs)" "hashes_ok (filter P bs)"
  using assms by (auto simp: hashes_ok_def distinct_map_filter simp flip: take_map drop_map
      dest: in_set_takeD in_set_dropD)

lemma hashes_ok_disjoint:
  "hashes_ok (xs @ ys) \<Longrightarrow> x \<in> set xs \<Longrightarrow> y \<in> set ys \<Longrightarrow> blk_hash y \<noteq> blk_hash x"
  by (simp add: hashes_ok_def) (metis IntI empty_iff imageI)

lemma hashes_ok_Nil [simp]: "hashes_ok []"
  by (simp add: hashes_ok_def)

lemma hashes_ok_snoc:
  "hashes_ok bs \<Longrightarrow> is_hash32 (blk_hash b) \<Longrightarrow> \<not> list_ex (\<lambda>x. blk_hash x = blk_hash b) bs \<Longrightarrow>
     hashes_ok (bs @ [b])"
  by (auto simp: hashes_ok_def list_ex_iff)

lemmas hashes_ok_intros = hashes_ok_sublists hashes_ok_snoc

interpretation mem_immutable: immutable_store in_memory_immutable hashes_ok "\<lambda>bs. bs"
  by unfold_locales
    (auto simp: in_memory_immutable_def im_append_block_def im_trim_before_slot_def
      im_trim_after_slot_def Let_def intro!: hashes_ok_intros)

lemma vm_prune_hashes: "hashes_ok bs \<Longrightarrow> hashes_ok (fst (vm_prune_up_to bs p))"
  by (cases p) (auto intro!: hashes_ok_intros split: option.splits)

lemma vm_rollback_hashes: "hashes_ok bs \<Longrightarrow> hashes_ok (vm_rollback_to bs p)"
  by (cases p) (auto intro!: hashes_ok_intros split: option.splits)

interpretation mem_volatile: volatile_store in_memory_volatile hashes_ok "\<lambda>bs. bs"
  by unfold_locales
    (auto simp: in_memory_volatile_def vm_add_block_def vm_garbage_collect_def Let_def
      intro!: hashes_ok_intros vm_prune_hashes vm_rollback_hashes)

lemma snapshots_ok_Nil [simp]: "snapshots_ok []"
  by (simp add: snapshots_ok_def)

lemma snapshots_ok_sublists:
  assumes "snapshots_ok ss"
  shows "snapshots_ok (drop n ss)" "snapshots_ok (filter P ss)"
  using assms by (simp_all add: snapshots_ok_def distinct_map_filter sorted_wrt_drop
      sorted_filter flip: drop_map)

lemma snapshots_ok_update:
  assumes "snapshots_ok ss" "i < length ss" "fst (ss ! i) = s"
  shows "snapshots_ok (ss[i := (s, d)])"
proof -
  have "map fst (ss[i := (s, d)]) = map fst ss"
    using assms(2,3) by (simp add: map_update list_update_same_conv)
  with assms(1) show ?thesis by (simp only: snapshots_ok_def)
qed

lemma snapshots_ok_save: "snapshots_ok ss \<Longrightarrow> snapshots_ok (fst (lm_save_snapshot ss s d))"
proof (cases "position (\<lambda>(x, _). x = s) ss")
  case None
  assume ss: "snapshots_ok ss"
  from None have "s \<notin> fst ` set ss" by auto
  with ss have "distinct (map fst (ss @ [(s, d)]))" by (simp add: snapshots_ok_def)
  then have "distinct (map fst (sort_key fst (ss @ [(s, d)])))"
    by (simp only: distinct_map distinct_sort set_sort simp_thms)
  then have "snapshots_ok (sort_key fst (ss @ [(s, d)]))" by (simp add: snapshots_ok_def)
  then show ?thesis by (simp only: lm_save_snapshot_def None option.case fst_conv)
next
  case (Some i)
  assume ss: "snapshots_ok ss"
  from position_SomeD [OF Some] have "i < length ss" "fst (ss ! i) = s" by (auto split: prod.splits)
  with Some snapshots_ok_update [OF ss] show ?thesis by (simp add: lm_save_snapshot_def)
qed

lemma snapshots_ok_truncate: "snapshots_ok ss \<Longrightarrow> snapshots_ok (fst (lm_truncate_after ss so))"
  by (cases so) (auto intro: snapshots_ok_sublists)

interpretation mem_ledger: ledger_store in_memory_ledger snapshots_ok "\<lambda>ss. ss"
  by unfold_locales
    (auto simp: in_memory_ledger_def lm_retain_latest_def intro: snapshots_ok_save
      snapshots_ok_truncate snapshots_ok_sublists)

end
