(* ===== verification/ChainDb.thy ===== *)
theory ChainDb
  imports Stores
begin

text \<open>
  The coordinator of the three stores, \<open>src/crates/storage/src/chain_db.rs\<close>. Like \<open>ChainDb<I, V, L>\<close>
  in the code, every operation takes the methods of the stores it uses. The ledger rules
  (\<open>LedgerState\<close>, \<open>LedgerStateCheckpoint\<close>) are the record \<open>ledger_rules\<close>.

  Three groups of results. Over stores that meet their contracts every operation does what it does
  over the in-memory stores (locale \<open>chain_db_stores\<close>). Over the in-memory stores the coordinator
  refines one chain with a boundary between its immutable and its volatile part. And recovery
  rebuilds the ledger state of the whole chain, whichever usable checkpoint it starts from.
\<close>

section \<open>Model\<close>

record ('i, 'v, 'l) chain_db =
  cd_immutable :: 'i
  cd_volatile :: 'v
  cd_ledger :: 'l

record chain_db_recovery =
  cr_tip :: point
  cr_ledger_snapshot_slot :: "slot_no option"

record ledger_checkpoint_retention =
  rt_retained_snapshots :: nat
  rt_pruned_snapshots :: nat

definition volatile_suffix_after ::
    "('v, 'tx) volatile_ops \<Rightarrow> 'v \<Rightarrow> point \<Rightarrow> (storage_error, 'tx block list) result" where
  "volatile_suffix_after V v replay_from_exclusive =
     (let volatile_tip = vo_tip V v in
      if volatile_tip = Origin then Ok []
      else and_then (vo_prefix_up_to V v volatile_tip) (\<lambda>blocks.
        if replay_from_exclusive = Origin then Ok blocks
        else case position (\<lambda>b. point_for_block b = replay_from_exclusive) blocks of
            Some pos \<Rightarrow> Ok (drop (pos + 1) blocks)
          | None \<Rightarrow> Ok blocks))"

definition chain_db_tip ::
    "('i, 'tx) immutable_ops \<Rightarrow> ('v, 'tx) volatile_ops \<Rightarrow> ('i, 'v, 'l) chain_db \<Rightarrow> point" where
  "chain_db_tip I V db =
     (let volatile_tip = vo_tip V (cd_volatile db) in
      if volatile_tip = Origin then io_get_tip I (cd_immutable db) else volatile_tip)"

definition chain_db_recovery_of ::
    "('i, 'tx) immutable_ops \<Rightarrow> ('v, 'tx) volatile_ops \<Rightarrow> 'l ledger_ops \<Rightarrow> ('i, 'v, 'l) chain_db
       \<Rightarrow> chain_db_recovery" where
  "chain_db_recovery_of I V L db =
     (let tip = chain_db_tip I V db in
      \<lparr>cr_tip = tip,
       cr_ledger_snapshot_slot =
         (case tip of
            Origin \<Rightarrow> map_option fst (lo_latest_snapshot L (cd_ledger db))
          | BlockPoint slot _ \<Rightarrow>
              map_option fst (lo_latest_snapshot_before_or_at L (cd_ledger db) slot))\<rparr>)"

definition add_volatile_block ::
    "('v, 'tx) volatile_ops \<Rightarrow> ('i, 'v, 'l) chain_db \<Rightarrow> 'tx block
       \<Rightarrow> ('i, 'v, 'l) chain_db \<times> (storage_error, unit) result" where
  "add_volatile_block V db b =
     (let (v, r) = vo_add_block V (cd_volatile db) b in (db\<lparr>cd_volatile := v\<rparr>, r))"

definition save_ledger_snapshot ::
    "'l ledger_ops \<Rightarrow> ('i, 'v, 'l) chain_db \<Rightarrow> slot_no \<Rightarrow> bytes
       \<Rightarrow> ('i, 'v, 'l) chain_db \<times> (storage_error, unit) result" where
  "save_ledger_snapshot L db slot data =
     (let (l, r) = lo_save_snapshot L (cd_ledger db) slot data in (db\<lparr>cd_ledger := l\<rparr>, r))"

definition retain_latest_ledger_checkpoints ::
    "'l ledger_ops \<Rightarrow> ('i, 'v, 'l) chain_db \<Rightarrow> nat
       \<Rightarrow> ('i, 'v, 'l) chain_db \<times> (storage_error, unit) result" where
  "retain_latest_ledger_checkpoints L db n =
     (let (l, r) = lo_retain_latest L (cd_ledger db) n in (db\<lparr>cd_ledger := l\<rparr>, r))"

definition clear_ledger_checkpoints ::
    "'l ledger_ops \<Rightarrow> ('i, 'v, 'l) chain_db \<Rightarrow> ('i, 'v, 'l) chain_db \<times> (storage_error, unit) result" where
  "clear_ledger_checkpoints L db =
     (let (l, r) = lo_truncate_after L (cd_ledger db) None in (db\<lparr>cd_ledger := l\<rparr>, r))"

definition truncate_ledger_checkpoints_after_point ::
    "'l ledger_ops \<Rightarrow> ('i, 'v, 'l) chain_db \<Rightarrow> point
       \<Rightarrow> ('i, 'v, 'l) chain_db \<times> (storage_error, unit) result" where
  "truncate_ledger_checkpoints_after_point L db p =
     (let (l, r) = lo_truncate_after L (cd_ledger db) (point_slot p) in (db\<lparr>cd_ledger := l\<rparr>, r))"

text \<open>
  Rollback: the target must be volatile, or immutable (then the volatile part goes), or the origin;
  the snapshots after it go in every case.
\<close>

definition rollback_volatile ::
    "('i, 'tx) immutable_ops \<Rightarrow> ('v, 'tx) volatile_ops \<Rightarrow> ('i, 'v, 'l) chain_db \<Rightarrow> point
       \<Rightarrow> 'v option" where
  "rollback_volatile I V db p =
     (case p of
        Origin \<Rightarrow> Some (vo_rollback_to V (cd_volatile db) p)
      | BlockPoint _ hash \<Rightarrow>
          if vo_get_block V (cd_volatile db) hash \<noteq> None
          then Some (vo_rollback_to V (cd_volatile db) p)
          else if io_get_block I (cd_immutable db) hash \<noteq> None
          then Some (vo_rollback_to V (cd_volatile db) Origin)
          else None)"

definition chain_db_rollback_to ::
    "('i, 'tx) immutable_ops \<Rightarrow> ('v, 'tx) volatile_ops \<Rightarrow> 'l ledger_ops \<Rightarrow> ('i, 'v, 'l) chain_db
       \<Rightarrow> point \<Rightarrow> ('i, 'v, 'l) chain_db \<times> (storage_error, unit) result" where
  "chain_db_rollback_to I V L db p =
     (case rollback_volatile I V db p of
        None \<Rightarrow> (db, Err PointNotFound)
      | Some v \<Rightarrow> truncate_ledger_checkpoints_after_point L (db\<lparr>cd_volatile := v\<rparr>) p)"

text \<open>The loop of the promotion appends what the immutable store does not have yet.\<close>

fun promote_blocks ::
    "('i, 'tx) immutable_ops \<Rightarrow> 'i \<Rightarrow> 'tx block list \<Rightarrow> 'i \<times> (storage_error, unit) result" where
  "promote_blocks I i [] = (i, Ok ())"
| "promote_blocks I i (b # bs) =
     (if io_contains_block I i (blk_hash b) then promote_blocks I i bs
      else case io_append_block I i b of
          (i', Ok _) \<Rightarrow> promote_blocks I i' bs
        | (i', r) \<Rightarrow> (i', r))"

definition promote_volatile_prefix ::
    "('i, 'tx) immutable_ops \<Rightarrow> ('v, 'tx) volatile_ops \<Rightarrow> ('i, 'v, 'l) chain_db \<Rightarrow> point
       \<Rightarrow> ('i, 'v, 'l) chain_db \<times> (storage_error, nat) result" where
  "promote_volatile_prefix I V db p =
     (case vo_prefix_up_to V (cd_volatile db) p of
        Err e \<Rightarrow> (db, Err e)
      | Panic \<Rightarrow> (db, Panic)
      | Ok blocks \<Rightarrow>
          (case promote_blocks I (cd_immutable db) blocks of
             (i, Ok _) \<Rightarrow>
               (let (v, r) = vo_prune_up_to V (cd_volatile db) p
                in (db\<lparr>cd_immutable := i, cd_volatile := v\<rparr>, map_ok (\<lambda>_. length blocks) r))
           | (i, Err e) \<Rightarrow> (db\<lparr>cd_immutable := i\<rparr>, Err e)
           | (i, Panic) \<Rightarrow> (db\<lparr>cd_immutable := i\<rparr>, Panic)))"

definition gc_immutable_before_slot ::
    "('i, 'tx) immutable_ops \<Rightarrow> ('i, 'v, 'l) chain_db \<Rightarrow> slot_no
       \<Rightarrow> ('i, 'v, 'l) chain_db \<times> (storage_error, nat) result" where
  "gc_immutable_before_slot I db slot =
     (let (i, r) = io_trim_before_slot I (cd_immutable db) slot in (db\<lparr>cd_immutable := i\<rparr>, r))"

definition truncate_immutable_after_slot ::
    "('i, 'tx) immutable_ops \<Rightarrow> ('i, 'v, 'l) chain_db \<Rightarrow> slot_no
       \<Rightarrow> ('i, 'v, 'l) chain_db \<times> (storage_error, nat) result" where
  "truncate_immutable_after_slot I db slot =
     (let (i, r) = io_trim_after_slot I (cd_immutable db) slot in (db\<lparr>cd_immutable := i\<rparr>, r))"

definition gc_volatile_before_slot ::
    "('v, 'tx) volatile_ops \<Rightarrow> ('i, 'v, 'l) chain_db \<Rightarrow> slot_no \<Rightarrow> ('i, 'v, 'l) chain_db \<times> nat" where
  "gc_volatile_before_slot V db slot =
     (let (v, n) = vo_garbage_collect V (cd_volatile db) slot in (db\<lparr>cd_volatile := v\<rparr>, n))"

subsection \<open>Checkpoints and recovery\<close>

text \<open>
  The ledger rules the coordinator calls: apply a block, the tip of a state, the encoding of
  checkpoints, and \<open>restore\<close> followed by \<open>rehydrate_runtime_genesis_from\<close>. Errors carry their
  message.
\<close>

record ('st, 'cp, 'tx) ledger_rules =
  lr_apply_block :: "'st \<Rightarrow> 'tx block \<Rightarrow> (string, 'st) result"
  lr_tip :: "'st \<Rightarrow> point"
  lr_encode :: "'cp \<Rightarrow> bytes"
  lr_decode :: "bytes \<Rightarrow> string + 'cp"
  lr_restore :: "'cp \<Rightarrow> 'st"
  lr_rehydrate :: "'st \<Rightarrow> 'st \<Rightarrow> 'st"

definition save_ledger_checkpoint ::
    "'l ledger_ops \<Rightarrow> ('st, 'cp, 'tx) ledger_rules \<Rightarrow> ('i, 'v, 'l) chain_db \<Rightarrow> slot_no \<Rightarrow> 'cp
       \<Rightarrow> ('i, 'v, 'l) chain_db \<times> (storage_error, unit) result" where
  "save_ledger_checkpoint L R db slot cp = save_ledger_snapshot L db slot (lr_encode R cp)"

definition decode_checkpoint ::
    "('st, 'cp, 'tx) ledger_rules \<Rightarrow> (slot_no \<times> bytes) option
       \<Rightarrow> (storage_error, (slot_no \<times> 'cp) option) result" where
  "decode_checkpoint R raw =
     (case raw of
        None \<Rightarrow> Ok None
      | Some (slot, data) \<Rightarrow>
          (case lr_decode R data of
             Inr cp \<Rightarrow> Ok (Some (slot, cp))
           | Inl error \<Rightarrow> Err (Serialization error)))"

definition latest_ledger_checkpoint ::
    "'l ledger_ops \<Rightarrow> ('st, 'cp, 'tx) ledger_rules \<Rightarrow> ('i, 'v, 'l) chain_db
       \<Rightarrow> (storage_error, (slot_no \<times> 'cp) option) result" where
  "latest_ledger_checkpoint L R db = decode_checkpoint R (lo_latest_snapshot L (cd_ledger db))"

definition latest_ledger_checkpoint_before_or_at ::
    "'l ledger_ops \<Rightarrow> ('st, 'cp, 'tx) ledger_rules \<Rightarrow> ('i, 'v, 'l) chain_db \<Rightarrow> slot_no
       \<Rightarrow> (storage_error, (slot_no \<times> 'cp) option) result" where
  "latest_ledger_checkpoint_before_or_at L R db slot =
     decode_checkpoint R (lo_latest_snapshot_before_or_at L (cd_ledger db) slot)"

definition persist_ledger_checkpoint ::
    "'l ledger_ops \<Rightarrow> ('st, 'cp, 'tx) ledger_rules \<Rightarrow> ('i, 'v, 'l) chain_db \<Rightarrow> point \<Rightarrow> 'cp \<Rightarrow> nat
       \<Rightarrow> ('i, 'v, 'l) chain_db \<times> (storage_error, ledger_checkpoint_retention) result" where
  "persist_ledger_checkpoint L R db p cp max_snapshots =
     (case p of
        Origin \<Rightarrow>
          (let (db1, r) = clear_ledger_checkpoints L db
           in (db1, map_ok (\<lambda>_. \<lparr>rt_retained_snapshots = 0, rt_pruned_snapshots = 0\<rparr>) r))
      | BlockPoint slot _ \<Rightarrow>
          (case save_ledger_checkpoint L R db slot cp of
             (db1, Err e) \<Rightarrow> (db1, Err e)
           | (db1, Panic) \<Rightarrow> (db1, Panic)
           | (db1, Ok _) \<Rightarrow>
               (let after_save = lo_count L (cd_ledger db1);
                    (db2, r) = retain_latest_ledger_checkpoints L db1 max_snapshots;
                    after_retain = lo_count L (cd_ledger db2)
                in (db2, map_ok (\<lambda>_. \<lparr>rt_retained_snapshots = after_retain,
                                    rt_pruned_snapshots = after_save - after_retain\<rparr>) r))))"

text \<open>
  The search for a checkpoint that decodes, from the newest to the oldest. It ends when the store
  answers below the limit it is given, so it is \<open>None\<close> for a store that does not.
\<close>

partial_function (option) try_restore_checkpoint ::
    "'l ledger_ops \<Rightarrow> ('st, 'cp, 'tx) ledger_rules \<Rightarrow> 'l \<Rightarrow> 'st \<Rightarrow> slot_no option
       \<Rightarrow> ('st \<times> slot_no option \<times> point) option" where
  "try_restore_checkpoint L R l base cursor =
     (case (case cursor of Some slot \<Rightarrow> lo_latest_snapshot_before_or_at L l slot
                         | None \<Rightarrow> lo_latest_snapshot L l) of
        None \<Rightarrow> Some (base, None, lr_tip R base)
      | Some (snapshot_slot, data) \<Rightarrow>
          (case lr_decode R data of
             Inr cp \<Rightarrow>
               (let st = lr_rehydrate R (lr_restore R cp) base
                in Some (st, Some snapshot_slot, lr_tip R st))
           | Inl _ \<Rightarrow>
               if snapshot_slot = 0 then Some (base, None, lr_tip R base)
               else try_restore_checkpoint L R l base (Some (snapshot_slot - 1))))"

fun replay ::
    "('st, 'cp, 'tx) ledger_rules \<Rightarrow> 'st \<Rightarrow> 'tx block list \<Rightarrow> (string, 'st) result" where
  "replay R st [] = Ok st"
| "replay R st (b # bs) = and_then (lr_apply_block R st b) (\<lambda>st'. replay R st' bs)"

record 'st ledger_recovery_outcome =
  ro_ledger_state :: 'st
  ro_point :: point
  ro_checkpoint_slot :: "slot_no option"
  ro_replayed_volatile_blocks :: nat

definition replay_stores ::
    "('i, 'tx) immutable_ops \<Rightarrow> ('v, 'tx) volatile_ops \<Rightarrow> ('st, 'cp, 'tx) ledger_rules
       \<Rightarrow> ('i, 'v, 'l) chain_db \<Rightarrow> 'st \<times> slot_no option \<times> point
       \<Rightarrow> (storage_error, 'st ledger_recovery_outcome) result" where
  "replay_stores I V R db start =
     (let best_tip = chain_db_tip I V db; (st, checkpoint_slot, replay_from) = start in
      and_then (io_suffix_after I (cd_immutable db) replay_from) (\<lambda>immutable_blocks.
      and_then (map_err Recovery (replay R st immutable_blocks)) (\<lambda>st1.
      let anchor = (if immutable_blocks = [] then replay_from
                    else point_for_block (last immutable_blocks)) in
      and_then (volatile_suffix_after V (cd_volatile db) anchor) (\<lambda>blocks.
      and_then (map_err Recovery (replay R st1 blocks)) (\<lambda>st2.
        if lr_tip R st2 \<noteq> best_tip then Err (Recovery ''tip mismatch'')
        else Ok \<lparr>ro_ledger_state = st2, ro_point = lr_tip R st2,
                 ro_checkpoint_slot = checkpoint_slot,
                 ro_replayed_volatile_blocks = length blocks\<rparr>)))))"

definition recover_ledger_state ::
    "('i, 'tx) immutable_ops \<Rightarrow> ('v, 'tx) volatile_ops \<Rightarrow> 'l ledger_ops
       \<Rightarrow> ('st, 'cp, 'tx) ledger_rules \<Rightarrow> ('i, 'v, 'l) chain_db \<Rightarrow> 'st
       \<Rightarrow> (storage_error, 'st ledger_recovery_outcome) result option" where
  "recover_ledger_state I V L R db base =
     map_option (replay_stores I V R db)
       (try_restore_checkpoint L R (cd_ledger db) base (point_slot (chain_db_tip I V db)))"


subsection \<open>Runs\<close>

text \<open>The operations that change the stores, and a sequence of them with their results.\<close>

datatype 'tx chain_op =
    AddVolatile "'tx block"
  | SaveSnapshot slot_no bytes
  | RetainLatest nat
  | ClearLedger
  | TruncateLedger point
  | RollbackTo point
  | Promote point
  | GcImmutable slot_no
  | TruncateImmutable slot_no
  | GcVolatile slot_no

text \<open>A header hash is an array \<open>[u8; 32]\<close>.\<close>

fun op_typed :: "'tx chain_op \<Rightarrow> bool" where
  "op_typed (AddVolatile b) \<longleftrightarrow> is_hash32 (blk_hash b)"
| "op_typed op \<longleftrightarrow> True"

definition no_value :: "'d \<times> (storage_error, unit) result \<Rightarrow> 'd \<times> (storage_error, nat) result" where
  "no_value x = (fst x, map_ok (\<lambda>_. 0) (snd x))"

fun chain_step ::
    "('i, 'tx) immutable_ops \<Rightarrow> ('v, 'tx) volatile_ops \<Rightarrow> 'l ledger_ops \<Rightarrow> 'tx chain_op
       \<Rightarrow> ('i, 'v, 'l) chain_db \<Rightarrow> ('i, 'v, 'l) chain_db \<times> (storage_error, nat) result" where
  "chain_step I V L (AddVolatile b) db = no_value (add_volatile_block V db b)"
| "chain_step I V L (SaveSnapshot s d) db = no_value (save_ledger_snapshot L db s d)"
| "chain_step I V L (RetainLatest n) db = no_value (retain_latest_ledger_checkpoints L db n)"
| "chain_step I V L ClearLedger db = no_value (clear_ledger_checkpoints L db)"
| "chain_step I V L (TruncateLedger p) db =
     no_value (truncate_ledger_checkpoints_after_point L db p)"
| "chain_step I V L (RollbackTo p) db = no_value (chain_db_rollback_to I V L db p)"
| "chain_step I V L (Promote p) db = promote_volatile_prefix I V db p"
| "chain_step I V L (GcImmutable s) db = gc_immutable_before_slot I db s"
| "chain_step I V L (TruncateImmutable s) db = truncate_immutable_after_slot I db s"
| "chain_step I V L (GcVolatile s) db =
     (let (db', n) = gc_volatile_before_slot V db s in (db', Ok n))"

fun chain_run ::
    "('i, 'tx) immutable_ops \<Rightarrow> ('v, 'tx) volatile_ops \<Rightarrow> 'l ledger_ops \<Rightarrow> 'tx chain_op list
       \<Rightarrow> ('i, 'v, 'l) chain_db \<Rightarrow> ('i, 'v, 'l) chain_db \<times> (storage_error, nat) result list" where
  "chain_run I V L [] db = (db, [])"
| "chain_run I V L (op # ops) db =
     (let (db1, r) = chain_step I V L op db; (db2, rs) = chain_run I V L ops db1
      in (db2, r # rs))"

abbreviation mem_step ::
    "'tx chain_op \<Rightarrow> ('tx block list, 'tx block list, snapshots) chain_db
       \<Rightarrow> ('tx block list, 'tx block list, snapshots) chain_db \<times> (storage_error, nat) result" where
  "mem_step \<equiv> chain_step in_memory_immutable in_memory_volatile in_memory_ledger"

abbreviation mem_run ::
    "'tx chain_op list \<Rightarrow> ('tx block list, 'tx block list, snapshots) chain_db
       \<Rightarrow> ('tx block list, 'tx block list, snapshots) chain_db \<times> (storage_error, nat) result list" where
  "mem_run \<equiv> chain_run in_memory_immutable in_memory_volatile in_memory_ledger"


section \<open>Any stores that meet their contracts\<close>

definition db_inv :: "('i \<Rightarrow> bool) \<Rightarrow> ('v \<Rightarrow> bool) \<Rightarrow> ('l \<Rightarrow> bool) \<Rightarrow> ('i, 'v, 'l) chain_db \<Rightarrow> bool" where
  "db_inv ii vi li db \<longleftrightarrow> ii (cd_immutable db) \<and> vi (cd_volatile db) \<and> li (cd_ledger db)"

definition db_abs ::
    "('i \<Rightarrow> 'a) \<Rightarrow> ('v \<Rightarrow> 'b) \<Rightarrow> ('l \<Rightarrow> 'c) \<Rightarrow> ('i, 'v, 'l) chain_db \<Rightarrow> ('a, 'b, 'c) chain_db" where
  "db_abs ia va la db =
     \<lparr>cd_immutable = ia (cd_immutable db), cd_volatile = va (cd_volatile db),
      cd_ledger = la (cd_ledger db)\<rparr>"

lemma db_abs_id [simp]: "db_abs (\<lambda>i. i) (\<lambda>v. v) (\<lambda>l. l) = (\<lambda>db. db)"
  by (auto simp: db_abs_def)

lemma mem_ops_simps [simp]:
  "io_append_block in_memory_immutable = im_append_block"
  "io_get_tip in_memory_immutable = last_point"
  "io_get_block in_memory_immutable = im_get_block"
  "io_contains_block in_memory_immutable = im_contains_block"
  "io_suffix_after in_memory_immutable = im_suffix_after"
  "io_trim_before_slot in_memory_immutable = im_trim_before_slot"
  "io_trim_after_slot in_memory_immutable = im_trim_after_slot"
  "vo_add_block in_memory_volatile = vm_add_block"
  "vo_get_block in_memory_volatile = vm_get_block"
  "vo_prefix_up_to in_memory_volatile = vm_prefix_up_to"
  "vo_prune_up_to in_memory_volatile = vm_prune_up_to"
  "vo_rollback_to in_memory_volatile = vm_rollback_to"
  "vo_tip in_memory_volatile = last_point"
  "vo_garbage_collect in_memory_volatile = vm_garbage_collect"
  "lo_save_snapshot in_memory_ledger = lm_save_snapshot"
  "lo_latest_snapshot in_memory_ledger = lm_latest_snapshot"
  "lo_latest_snapshot_before_or_at in_memory_ledger = lm_latest_snapshot_before_or_at"
  "lo_truncate_after in_memory_ledger = lm_truncate_after"
  "lo_retain_latest in_memory_ledger = lm_retain_latest"
  by (simp_all add: in_memory_immutable_def in_memory_volatile_def in_memory_ledger_def)

locale chain_db_stores =
  immutable_store I i_inv i_abs + volatile_store V v_inv v_abs + ledger_store L l_inv l_abs
  for I :: "('i, 'tx) immutable_ops" and i_inv i_abs and V :: "('v, 'tx) volatile_ops"
    and v_inv v_abs and L :: "'l ledger_ops" and l_inv l_abs
begin

lemma promote_blocks_implements:
  "i_inv i \<Longrightarrow> \<forall>b\<in>set bs. is_hash32 (blk_hash b) \<Longrightarrow>
     implements i_inv i_abs (promote_blocks I i bs) (promote_blocks in_memory_immutable (i_abs i) bs)"
proof (induction bs arbitrary: i)
  case Nil
  then show ?case by (simp add: implements_def)
next
  case (Cons b bs)
  show ?case
  proof (cases "io_contains_block I i (blk_hash b)")
    case True
    with Cons show ?thesis by (simp add: i_contains)
  next
    case False
    from i_append [OF Cons.prems(1), of b] Cons.prems(2) obtain i' r where
      "io_append_block I i b = (i', r)" "i_inv i'" "im_append_block (i_abs i) b = (i_abs i', r)"
      by (auto elim: implementsE)
    with False Cons show ?thesis by (cases r) (simp_all add: i_contains implements_def)
  qed
qed

lemma rollback_volatile_implements:
  assumes "db_inv i_inv v_inv l_inv db"
  shows "pred_option v_inv (rollback_volatile I V db p) \<and>
    map_option v_abs (rollback_volatile I V db p)
      = rollback_volatile in_memory_immutable in_memory_volatile (db_abs i_abs v_abs l_abs db) p"
  using assms v_rollback [of "cd_volatile db"]
  by (cases p) (simp_all add: rollback_volatile_def db_inv_def db_abs_def v_get i_get)

lemma truncate_implements:
  assumes "db_inv i_inv v_inv l_inv db"
  shows "implements (db_inv i_inv v_inv l_inv) (db_abs i_abs v_abs l_abs)
    (truncate_ledger_checkpoints_after_point L db p)
    (truncate_ledger_checkpoints_after_point in_memory_ledger (db_abs i_abs v_abs l_abs db) p)"
  using assms l_truncate [of "cd_ledger db" "point_slot p"]
  by (auto simp: truncate_ledger_checkpoints_after_point_def db_inv_def db_abs_def implements_def
      split: prod.splits)

lemma rollback_implements:
  assumes db: "db_inv i_inv v_inv l_inv db"
  shows "implements (db_inv i_inv v_inv l_inv) (db_abs i_abs v_abs l_abs)
    (chain_db_rollback_to I V L db p)
    (chain_db_rollback_to in_memory_immutable in_memory_volatile in_memory_ledger
       (db_abs i_abs v_abs l_abs db) p)"
proof (cases "rollback_volatile I V db p")
  case None
  with rollback_volatile_implements [OF db, of p] db show ?thesis
    by (auto simp: chain_db_rollback_to_def implements_def)
next
  case (Some v)
  with rollback_volatile_implements [OF db, of p]
  have v: "v_inv v" "rollback_volatile in_memory_immutable in_memory_volatile
      (db_abs i_abs v_abs l_abs db) p = Some (v_abs v)"
    by (auto simp: Some)
  have "db_inv i_inv v_inv l_inv (db\<lparr>cd_volatile := v\<rparr>)" using db v by (simp add: db_inv_def)
  from truncate_implements [OF this, of p] v Some show ?thesis
    by (simp add: chain_db_rollback_to_def db_abs_def)
qed

lemma promote_implements:
  assumes db: "db_inv i_inv v_inv l_inv db"
  shows "implements (db_inv i_inv v_inv l_inv) (db_abs i_abs v_abs l_abs)
    (promote_volatile_prefix I V db p)
    (promote_volatile_prefix in_memory_immutable in_memory_volatile (db_abs i_abs v_abs l_abs db) p)"
proof (cases "vm_prefix_up_to (v_abs (cd_volatile db)) p")
  case (Ok bs)
  from db have i: "i_inv (cd_immutable db)" and v: "v_inv (cd_volatile db)" by (auto simp: db_inv_def)
  from Ok v_hashes [OF v] have "\<forall>b\<in>set bs. is_hash32 (blk_hash b)"
    by (cases p) (auto simp: hashes_ok_def ok_or_def dest: in_set_takeD split: option.splits)
  from promote_blocks_implements [OF i this] obtain i' r where
    i': "promote_blocks I (cd_immutable db) bs = (i', r)" "i_inv i'"
      "promote_blocks in_memory_immutable (i_abs (cd_immutable db)) bs = (i_abs i', r)"
    by (rule implementsE)
  from v_prune [OF v, of p] obtain v' q where
    v': "vo_prune_up_to V (cd_volatile db) p = (v', q)" "v_inv v'"
      "vm_prune_up_to (v_abs (cd_volatile db)) p = (v_abs v', q)"
    by (rule implementsE)
  show ?thesis using db Ok i' v'
    by (cases r) (simp_all add: promote_volatile_prefix_def db_inv_def db_abs_def v_prefix implements_def)
qed (use db in \<open>simp_all add: promote_volatile_prefix_def db_inv_def db_abs_def v_prefix implements_def\<close>)

lemma no_value_implements:
  "implements ok \<alpha> x y \<Longrightarrow> implements ok \<alpha> (no_value x) (no_value y)"
  by (simp add: implements_def no_value_def)

lemma store_step_implements:
  assumes db: "db_inv i_inv v_inv l_inv db" and op: "op_typed op"
  shows "implements (db_inv i_inv v_inv l_inv) (db_abs i_abs v_abs l_abs)
    (chain_step I V L op db) (mem_step op (db_abs i_abs v_abs l_abs db))"
proof (cases op)
  case (AddVolatile b)
  from db op v_add [of "cd_volatile db" b] show ?thesis
    by (auto simp: AddVolatile no_value_def add_volatile_block_def db_inv_def db_abs_def implements_def
        split: prod.splits)
next
  case (SaveSnapshot s d)
  from db l_save [of "cd_ledger db" s d] show ?thesis
    by (auto simp: SaveSnapshot no_value_def save_ledger_snapshot_def db_inv_def db_abs_def
        implements_def split: prod.splits)
next
  case (RetainLatest n)
  from db l_retain [of "cd_ledger db" n] show ?thesis
    by (auto simp: RetainLatest no_value_def retain_latest_ledger_checkpoints_def db_inv_def
        db_abs_def implements_def split: prod.splits)
next
  case ClearLedger
  from db l_truncate [of "cd_ledger db" None] show ?thesis
    by (auto simp: ClearLedger no_value_def clear_ledger_checkpoints_def db_inv_def db_abs_def
        implements_def split: prod.splits)
next
  case (GcImmutable s)
  from db i_trim_before [of "cd_immutable db" s] show ?thesis
    by (auto simp: GcImmutable gc_immutable_before_slot_def db_inv_def db_abs_def implements_def
        split: prod.splits)
next
  case (TruncateImmutable s)
  from db i_trim_after [of "cd_immutable db" s] show ?thesis
    by (auto simp: TruncateImmutable truncate_immutable_after_slot_def db_inv_def db_abs_def
        implements_def split: prod.splits)
next
  case (GcVolatile s)
  from db v_gc [of "cd_volatile db" s] show ?thesis
    by (auto simp: GcVolatile gc_volatile_before_slot_def db_inv_def db_abs_def implements_def
        split: prod.splits)
qed (use db in \<open>simp_all add: no_value_implements rollback_implements truncate_implements
  promote_implements\<close>)

lemma store_run_implements:
  assumes "db_inv i_inv v_inv l_inv db" "list_all op_typed ops"
  shows "implements (db_inv i_inv v_inv l_inv) (db_abs i_abs v_abs l_abs)
    (chain_run I V L ops db) (mem_run ops (db_abs i_abs v_abs l_abs db))"
  using assms
proof (induction ops arbitrary: db)
  case (Cons op ops)
  from Cons.prems have op: "op_typed op" and ops: "list_all op_typed ops" by simp_all
  from store_step_implements [OF Cons.prems(1) op] obtain db1 r where
    1: "chain_step I V L op db = (db1, r)" "db_inv i_inv v_inv l_inv db1"
      "mem_step op (db_abs i_abs v_abs l_abs db) = (db_abs i_abs v_abs l_abs db1, r)"
    by (rule implementsE)
  from Cons.IH [OF 1(2) ops] obtain db2 rs where
    2: "chain_run I V L ops db1 = (db2, rs)" "db_inv i_inv v_inv l_inv db2"
      "mem_run ops (db_abs i_abs v_abs l_abs db1) = (db_abs i_abs v_abs l_abs db2, rs)"
    by (rule implementsE)
  from 1 2 show ?case by (simp add: implements_def)
qed (simp add: implements_def)

end


section \<open>One chain with a boundary\<close>

text \<open>
  The specification: one chain, of which the first \<open>sp_stable\<close> blocks are immutable. A promotion
  only moves the boundary; a rollback shortens the chain to its target but never across the
  boundary.
\<close>

record 'tx chain_spec =
  sp_chain :: "'tx block list"
  sp_stable :: nat
  sp_snapshots :: snapshots

definition spec_trim ::
    "('tx block \<Rightarrow> bool) \<Rightarrow> 'tx chain_spec \<Rightarrow> 'tx chain_spec \<times> (storage_error, nat) result" where
  "spec_trim keep sp =
     (let old = take (sp_stable sp) (sp_chain sp); new = filter keep old
      in (sp\<lparr>sp_chain := new @ drop (sp_stable sp) (sp_chain sp), sp_stable := length new\<rparr>,
          Ok (length old - length new)))"

fun spec_step :: "'tx chain_op \<Rightarrow> 'tx chain_spec \<Rightarrow> 'tx chain_spec \<times> (storage_error, nat) result" where
  "spec_step (AddVolatile b) sp =
     (if blk_hash b \<in> blk_hash ` set (drop (sp_stable sp) (sp_chain sp))
      then (sp, Err (DuplicateBlock (blk_hash b)))
      else (sp\<lparr>sp_chain := sp_chain sp @ [b]\<rparr>, Ok 0))"
| "spec_step (RollbackTo Origin) sp =
     (sp\<lparr>sp_chain := take (sp_stable sp) (sp_chain sp), sp_snapshots := []\<rparr>, Ok 0)"
| "spec_step (RollbackTo (BlockPoint slot hash)) sp =
     (case position (\<lambda>b. blk_hash b = hash) (sp_chain sp) of
        None \<Rightarrow> (sp, Err PointNotFound)
      | Some n \<Rightarrow>
          (sp\<lparr>sp_chain := take (max (sp_stable sp) (n + 1)) (sp_chain sp),
              sp_snapshots := filter (\<lambda>(s, _). s \<le> slot) (sp_snapshots sp)\<rparr>, Ok 0))"
| "spec_step (Promote Origin) sp = (sp, Ok 0)"
| "spec_step (Promote (BlockPoint slot hash)) sp =
     (case position (\<lambda>b. blk_hash b = hash) (sp_chain sp) of
        None \<Rightarrow> (sp, Err PointNotFound)
      | Some n \<Rightarrow>
          if n < sp_stable sp then (sp, Err PointNotFound)
          else (sp\<lparr>sp_stable := n + 1\<rparr>, Ok (n + 1 - sp_stable sp)))"
| "spec_step (GcVolatile slot) sp =
     (let old = drop (sp_stable sp) (sp_chain sp); new = filter (\<lambda>b. blk_slot b \<ge> slot) old
      in (sp\<lparr>sp_chain := take (sp_stable sp) (sp_chain sp) @ new\<rparr>, Ok (length old - length new)))"
| "spec_step (GcImmutable slot) sp = spec_trim (\<lambda>b. blk_slot b \<ge> slot) sp"
| "spec_step (TruncateImmutable slot) sp = spec_trim (\<lambda>b. blk_slot b \<le> slot) sp"
| "spec_step (SaveSnapshot s d) sp =
     (sp\<lparr>sp_snapshots := fst (lm_save_snapshot (sp_snapshots sp) s d)\<rparr>, Ok 0)"
| "spec_step (RetainLatest n) sp =
     (sp\<lparr>sp_snapshots := fst (lm_retain_latest (sp_snapshots sp) n)\<rparr>, Ok 0)"
| "spec_step ClearLedger sp = (sp\<lparr>sp_snapshots := []\<rparr>, Ok 0)"
| "spec_step (TruncateLedger p) sp =
     (sp\<lparr>sp_snapshots := fst (lm_truncate_after (sp_snapshots sp) (point_slot p))\<rparr>, Ok 0)"

fun spec_run ::
    "'tx chain_op list \<Rightarrow> 'tx chain_spec \<Rightarrow> 'tx chain_spec \<times> (storage_error, nat) result list" where
  "spec_run [] sp = (sp, [])"
| "spec_run (op # ops) sp =
     (let (sp1, r) = spec_step op sp; (sp2, rs) = spec_run ops sp1 in (sp2, r # rs))"

text \<open>
  The volatile store knows only its own blocks, so it is for the caller not to add a block that
  is immutable already.
\<close>

fun fresh_op :: "'tx chain_op \<Rightarrow> 'tx chain_spec \<Rightarrow> bool" where
  "fresh_op (AddVolatile b) sp \<longleftrightarrow>
     is_hash32 (blk_hash b) \<and> blk_hash b \<notin> blk_hash ` set (take (sp_stable sp) (sp_chain sp))"
| "fresh_op op sp \<longleftrightarrow> True"

fun fresh_run :: "'tx chain_op list \<Rightarrow> 'tx chain_spec \<Rightarrow> bool" where
  "fresh_run [] sp \<longleftrightarrow> True"
| "fresh_run (op # ops) sp \<longleftrightarrow> fresh_op op sp \<and> fresh_run ops (fst (spec_step op sp))"

lemma fresh_run_typed: "fresh_run ops sp \<Longrightarrow> list_all op_typed ops"
proof (induction ops arbitrary: sp)
  case (Cons op ops)
  then show ?case by (cases op) auto
qed simp

definition db_chain :: "('tx block list, 'tx block list, 'l) chain_db \<Rightarrow> 'tx block list" where
  "db_chain db = cd_immutable db @ cd_volatile db"

definition spec_of ::
    "('tx block list, 'tx block list, snapshots) chain_db \<Rightarrow> 'tx chain_spec" where
  "spec_of db =
     \<lparr>sp_chain = db_chain db, sp_stable = length (cd_immutable db), sp_snapshots = cd_ledger db\<rparr>"

lemma promote_blocks_appends:
  assumes "hashes_ok (i @ bs)"
  shows "promote_blocks in_memory_immutable i bs = (i @ bs, Ok ())"
  using assms
proof (induction bs arbitrary: i)
  case (Cons b bs)
  then have "blk_hash b \<notin> blk_hash ` set i" by (simp add: hashes_ok_def)
  then have "\<not> im_contains_block i (blk_hash b)" by (simp add: im_contains_block_def list_ex_hash_iff)
  moreover from this have "im_append_block i b = (i @ [b], Ok ())"
    by (simp add: im_append_block_def im_contains_block_def)
  ultimately show ?case using Cons.IH [of "i @ [b]"] Cons.prems by simp
qed simp

lemma mem_promote_eq:
  assumes "hashes_ok (db_chain db)"
  shows "promote_volatile_prefix in_memory_immutable in_memory_volatile db (BlockPoint s h) =
    (case position (\<lambda>b. blk_hash b = h) (cd_volatile db) of
       None \<Rightarrow> (db, Err PointNotFound)
     | Some n \<Rightarrow> (db\<lparr>cd_immutable := cd_immutable db @ take (n + 1) (cd_volatile db),
                    cd_volatile := drop (n + 1) (cd_volatile db)\<rparr>, Ok (n + 1)))"
proof (cases "position (\<lambda>b. blk_hash b = h) (cd_volatile db)")
  case None
  then show ?thesis by (simp add: promote_volatile_prefix_def del: position_None_iff)
next
  case (Some n)
  have "hashes_ok (take (length (cd_immutable db) + (n + 1)) (db_chain db))"
    using assms by (rule hashes_ok_sublists)
  then have "hashes_ok (cd_immutable db @ take (n + 1) (cd_volatile db))" by (simp add: db_chain_def)
  from promote_blocks_appends [OF this] Some position_Some_lt [OF Some] show ?thesis
    by (simp add: promote_volatile_prefix_def)
qed

lemma position_hash_chain:
  assumes "hashes_ok (xs @ ys)" "position (\<lambda>b. blk_hash b = h) ys = Some n"
  shows "position (\<lambda>b. blk_hash b = h) (xs @ ys) = Some (length xs + n)"
proof -
  from position_SomeD [OF assms(2)] have "h \<in> blk_hash ` set ys" by force
  with assms(1) have "\<forall>x\<in>set xs. blk_hash x \<noteq> h" by (auto simp: hashes_ok_def)
  then have "position (\<lambda>b. blk_hash b = h) xs = None" by simp
  then show ?thesis using assms(2) by (simp only: position_append option.case option.map)
qed


lemma mem_get_iff: "vm_get_block bs h \<noteq> None \<longleftrightarrow> h \<in> blk_hash ` set bs"
  "im_get_block bs h \<noteq> None \<longleftrightarrow> h \<in> blk_hash ` set bs"
  by (auto simp: vm_get_block_def im_get_block_def find_None_iff image_iff)

lemma position_hash_iff: "position (\<lambda>b. blk_hash b = h) bs = None \<longleftrightarrow> h \<notin> blk_hash ` set bs"
  by (auto simp: image_iff)

lemma mem_rollback_spec:
  assumes ok: "hashes_ok (db_chain db)"
    and step: "chain_db_rollback_to in_memory_immutable in_memory_volatile in_memory_ledger db p = (db', r)"
  shows "spec_step (RollbackTo p) (spec_of db) = (spec_of db', map_ok (\<lambda>_. 0) r) \<and> hashes_ok (db_chain db')"
proof (cases p)
  case Origin
  with step ok hashes_ok_sublists(1) [OF ok, of "length (cd_immutable db)"] show ?thesis
    by (auto simp: chain_db_rollback_to_def rollback_volatile_def db_chain_def
        truncate_ledger_checkpoints_after_point_def spec_of_def)
next
  case (BlockPoint s h)
  show ?thesis
  proof (cases "position (\<lambda>b. blk_hash b = h) (cd_volatile db)")
    case (Some n)
    then have "vm_get_block (cd_volatile db) h \<noteq> None"
      unfolding mem_get_iff using position_SomeD [OF Some] by force
    with step BlockPoint Some have db': "db' = db\<lparr>cd_volatile := take (n + 1) (cd_volatile db),
        cd_ledger := filter (\<lambda>(x, _). x \<le> s) (cd_ledger db)\<rparr>" "r = Ok ()"
      by (auto simp: chain_db_rollback_to_def rollback_volatile_def
          truncate_ledger_checkpoints_after_point_def simp del: not_None_eq)
    from position_hash_chain [of "cd_immutable db", OF _ Some] ok
    have "position (\<lambda>b. blk_hash b = h) (db_chain db) = Some (length (cd_immutable db) + n)"
      by (simp add: db_chain_def)
    with db' BlockPoint hashes_ok_sublists(1) [OF ok, of "length (cd_immutable db) + (n + 1)"]
    show ?thesis by (simp add: spec_of_def db_chain_def)
  next
    case None
    then have none: "vm_get_block (cd_volatile db) h = None"
      using mem_get_iff(1) [of "cd_volatile db" h] unfolding position_hash_iff by blast
    show ?thesis
    proof (cases "position (\<lambda>b. blk_hash b = h) (cd_immutable db)")
      case (Some n)
      then have "im_get_block (cd_immutable db) h \<noteq> None"
        unfolding mem_get_iff using position_SomeD [OF Some] by force
      with step BlockPoint none have db': "db' = db\<lparr>cd_volatile := [],
          cd_ledger := filter (\<lambda>(x, _). x \<le> s) (cd_ledger db)\<rparr>" "r = Ok ()"
        by (auto simp: chain_db_rollback_to_def rollback_volatile_def
            truncate_ledger_checkpoints_after_point_def simp del: not_None_eq)
      from Some position_Some_lt [OF Some] db' BlockPoint
        hashes_ok_sublists(1) [OF ok, of "length (cd_immutable db)"]
      show ?thesis by (simp add: spec_of_def db_chain_def position_append)
    next
      case None2: None
      then have "im_get_block (cd_immutable db) h = None"
        using mem_get_iff(2) [of "cd_immutable db" h] unfolding position_hash_iff by blast
      with step BlockPoint none have "db' = db" "r = Err PointNotFound"
        by (auto simp: chain_db_rollback_to_def rollback_volatile_def)
      with None None2 BlockPoint ok show ?thesis
        by (simp add: spec_of_def db_chain_def position_append del: position_None_iff)
    qed
  qed
qed

lemma mem_promote_spec:
  assumes ok: "hashes_ok (db_chain db)"
    and step: "promote_volatile_prefix in_memory_immutable in_memory_volatile db p = (db', r)"
  shows "spec_step (Promote p) (spec_of db) = (spec_of db', r) \<and> hashes_ok (db_chain db')"
proof (cases p)
  case Origin
  with step ok show ?thesis by (auto simp: promote_volatile_prefix_def)
next
  case (BlockPoint s h)
  show ?thesis
  proof (cases "position (\<lambda>b. blk_hash b = h) (cd_volatile db)")
    case None
    have pos: "position (\<lambda>b. blk_hash b = h) (db_chain db)
        = position (\<lambda>b. blk_hash b = h) (cd_immutable db)"
      using None by (simp add: db_chain_def position_append del: position_None_iff split: option.split)
    from step BlockPoint None have "db' = db" "r = Err PointNotFound"
      by (simp_all add: mem_promote_eq [OF ok] del: position_None_iff)
    with pos BlockPoint ok position_Some_lt show ?thesis
      by (auto simp: spec_of_def simp del: position_None_iff split: option.split)
  next
    case (Some n)
    from step BlockPoint Some have "db' = db\<lparr>cd_immutable := cd_immutable db @ take (n + 1) (cd_volatile db),
        cd_volatile := drop (n + 1) (cd_volatile db)\<rparr>" "r = Ok (n + 1)"
      by (simp_all add: mem_promote_eq [OF ok])
    with BlockPoint ok position_hash_chain [of "cd_immutable db", OF _ Some] position_Some_lt [OF Some]
    show ?thesis by (simp add: spec_of_def db_chain_def)
  qed
qed

lemma hashes_ok_filters:
  "hashes_ok (xs @ ys) \<Longrightarrow> hashes_ok (filter P xs @ ys)"
  "hashes_ok (xs @ ys) \<Longrightarrow> hashes_ok (xs @ filter P ys)"
  by (auto simp: hashes_ok_def distinct_map_filter)

lemma lm_results:
  "snd (lm_save_snapshot ss s d) = Ok ()" "snd (lm_retain_latest ss n) = Ok ()"
  "snd (lm_truncate_after ss so) = Ok ()"
  by (cases so; simp add: lm_save_snapshot_def lm_retain_latest_def split: option.split)+

lemma mem_step_spec:
  assumes "hashes_ok (db_chain db)" "fresh_op op (spec_of db)" "mem_step op db = (db', r)"
  shows "spec_step op (spec_of db) = (spec_of db', r) \<and> hashes_ok (db_chain db')"
proof (cases op)
  case (AddVolatile b)
  show ?thesis
  proof (cases "blk_hash b \<in> blk_hash ` set (cd_volatile db)")
    case True
    with AddVolatile assms show ?thesis
      by (auto simp: no_value_def add_volatile_block_def vm_add_block_def list_ex_hash_iff spec_of_def
          db_chain_def)
  next
    case False
    with AddVolatile assms hashes_ok_snoc [OF assms(1), of b] show ?thesis
      by (auto simp: no_value_def add_volatile_block_def vm_add_block_def list_ex_hash_iff spec_of_def
          db_chain_def image_Un)
  qed
next
  case (RollbackTo p)
  then show ?thesis using assms mem_rollback_spec [OF assms(1) prod.collapse [symmetric], of p]
    by (auto simp: no_value_def)
next
  case (Promote p)
  then show ?thesis using assms mem_promote_spec [OF assms(1), of p] by simp
qed (use assms hashes_ok_filters lm_results in \<open>auto simp: no_value_def save_ledger_snapshot_def
    retain_latest_ledger_checkpoints_def clear_ledger_checkpoints_def
    truncate_ledger_checkpoints_after_point_def gc_immutable_before_slot_def
    truncate_immutable_after_slot_def gc_volatile_before_slot_def spec_trim_def im_trim_before_slot_def
    im_trim_after_slot_def vm_garbage_collect_def spec_of_def db_chain_def Let_def case_prod_beta\<close>)

lemma mem_run_spec:
  assumes "hashes_ok (db_chain db)" "fresh_run ops (spec_of db)" "mem_run ops db = (db', rs)"
  shows "spec_run ops (spec_of db) = (spec_of db', rs) \<and> hashes_ok (db_chain db')"
  using assms
proof (induction ops arbitrary: db rs)
  case (Cons op ops)
  obtain db1 r where 1: "mem_step op db = (db1, r)" by fastforce
  obtain rs' where 2: "mem_run ops db1 = (db', rs')" "rs = r # rs'"
    using Cons.prems(3) 1 by (auto split: prod.splits)
  from mem_step_spec [OF Cons.prems(1) _ 1] Cons.prems(2)
  have "spec_step op (spec_of db) = (spec_of db1, r)" "hashes_ok (db_chain db1)" by auto
  with Cons.IH [OF _ _ 2(1)] Cons.prems(2) 2(2) show ?case by simp
qed simp


section \<open>Recovery\<close>

lemma lm_latest_at_SomeD:
  assumes ok: "snapshots_ok ss" and found: "lm_latest_snapshot_before_or_at ss c = Some (s, d)"
  shows "(s, d) \<in> set ss" "s \<le> c" "\<And>s' d'. (s', d') \<in> set ss \<Longrightarrow> s' \<le> c \<Longrightarrow> s' \<le> s"
proof -
  from find_SomeD [OF found [unfolded lm_latest_snapshot_before_or_at_def]]
  show "(s, d) \<in> set ss" "s \<le> c" by auto
  from found obtain i where i: "i < length ss" "rev ss ! i = (s, d)"
      "\<forall>j<i. \<not> fst (rev ss ! j) \<le> c"
    unfolding lm_latest_snapshot_before_or_at_def find_Some_iff by (auto simp: case_prod_beta)
  fix s' d' assume "(s', d') \<in> set ss" "s' \<le> c"
  then obtain j where j: "j < length ss" "rev ss ! j = (s', d')"
    using in_set_conv_nth [of "(s', d')" "rev ss"] by auto
  with i(3) \<open>s' \<le> c\<close> have "i \<le> j" by (cases "j < i") auto
  with ok j i(1) have "fst (ss ! (length ss - Suc j)) \<le> fst (ss ! (length ss - Suc i))"
    by (auto simp: snapshots_ok_def sorted_iff_nth_mono)
  with i j show "s' \<le> s" by (simp add: rev_nth)
qed

lemma lm_latest_at_NoneD:
  "lm_latest_snapshot_before_or_at ss c = None \<Longrightarrow> (s', d') \<in> set ss \<Longrightarrow> \<not> s' \<le> c"
  by (auto simp: lm_latest_snapshot_before_or_at_def find_None_iff)

lemma lm_latest_eq: "lm_latest_snapshot ss = lm_latest_snapshot_before_or_at ss (- 1)"
  by (cases ss rule: rev_cases)
    (auto simp: lm_latest_snapshot_def lm_latest_snapshot_before_or_at_def)

text \<open>What the search gives: the newest snapshot up to the limit that decodes, or the base state.\<close>

definition restored ::
    "('st, 'cp, 'tx) ledger_rules \<Rightarrow> snapshots \<Rightarrow> 'st \<Rightarrow> slot_no
       \<Rightarrow> 'st \<times> slot_no option \<times> point \<Rightarrow> bool" where
  "restored R ss base c r \<longleftrightarrow>
     (\<exists>s d cp. (s, d) \<in> set ss \<and> s \<le> c \<and> lr_decode R d = Inr cp
        \<and> (\<forall>(s', d') \<in> set ss. s < s' \<longrightarrow> s' \<le> c \<longrightarrow> isl (lr_decode R d'))
        \<and> r = (lr_rehydrate R (lr_restore R cp) base, Some s,
               lr_tip R (lr_rehydrate R (lr_restore R cp) base)))
     \<or> ((\<forall>(s', d') \<in> set ss. s' \<le> c \<longrightarrow> isl (lr_decode R d')) \<and> r = (base, None, lr_tip R base))"

lemma restored_mono:
  assumes "restored R ss base c' r" "c' \<le> c"
    "\<And>s' d'. (s', d') \<in> set ss \<Longrightarrow> c' < s' \<Longrightarrow> s' \<le> c \<Longrightarrow> isl (lr_decode R d')"
  shows "restored R ss base c r"
proof -
  have all: "isl (lr_decode R d')"
    if "\<forall>(s', d') \<in> set ss. P s' \<longrightarrow> s' \<le> c' \<longrightarrow> isl (lr_decode R d')"
      "(s', d') \<in> set ss" "P s'" "s' \<le> c" for P s' d'
    using that assms(3) [of s' d'] by (cases "s' \<le> c'") (auto simp: not_le)
  from assms(1) [unfolded restored_def] show ?thesis
  proof (elim disjE exE conjE)
    fix s d cp
    assume a: "(s, d) \<in> set ss" "s \<le> c'" "lr_decode R d = Inr cp"
      "\<forall>(s', d') \<in> set ss. s < s' \<longrightarrow> s' \<le> c' \<longrightarrow> isl (lr_decode R d')"
      "r = (lr_rehydrate R (lr_restore R cp) base, Some s, lr_tip R (lr_rehydrate R (lr_restore R cp) base))"
    have "\<forall>(s', d') \<in> set ss. s < s' \<longrightarrow> s' \<le> c \<longrightarrow> isl (lr_decode R d')"
      using all [OF a(4)] by auto
    with a(1,3,5) order_trans [OF a(2) assms(2)] show ?thesis unfolding restored_def by blast
  next
    assume a: "\<forall>(s', d') \<in> set ss. s' \<le> c' \<longrightarrow> isl (lr_decode R d')" "r = (base, None, lr_tip R base)"
    then have "\<forall>(s', d') \<in> set ss. s' \<le> c \<longrightarrow> isl (lr_decode R d')"
      using all [of "\<lambda>_. True"] by auto
    with a(2) show ?thesis unfolding restored_def by blast
  qed
qed

context ledger_store
begin

lemma try_restore_step:
  assumes l: "l_inv l"
  shows "(\<exists>r. try_restore_checkpoint L R l base (Some c) = Some r \<and> restored R (l_abs l) base c r)"
proof (induction "unat c" arbitrary: c rule: less_induct)
  case less
  note eq = try_restore_checkpoint.simps [of L R l base "Some c"]
  show ?case
  proof (cases "lm_latest_snapshot_before_or_at (l_abs l) c")
    case None
    with lm_latest_at_NoneD [OF None] show ?thesis
      by (subst eq) (auto simp: l_latest_at [OF l] restored_def)
  next
    case (Some sd)
    obtain s d where sd: "sd = (s, d)" by (cases sd)
    note found = lm_latest_at_SomeD [OF l_sorted [OF l] Some [unfolded sd]]
    have unique: "d' = d" if "(s, d') \<in> set (l_abs l)" for d'
      using that found(1) l_sorted [OF l] by (auto simp: snapshots_ok_def dest: eq_key_imp_eq_value)
    show ?thesis
    proof (cases "lr_decode R d")
      case (Inr cp)
      then have "try_restore_checkpoint L R l base (Some c)
          = Some (lr_rehydrate R (lr_restore R cp) base, Some s, lr_tip R (lr_rehydrate R (lr_restore R cp) base))"
        by (subst eq) (simp add: l_latest_at [OF l] Some sd Let_def)
      moreover have "restored R (l_abs l) base c
          (lr_rehydrate R (lr_restore R cp) base, Some s, lr_tip R (lr_rehydrate R (lr_restore R cp) base))"
        unfolding restored_def using found Inr by (intro disjI1) force
      ultimately show ?thesis by blast
    next
      case (Inl e)
      show ?thesis
      proof (cases "s = 0")
        case True
        then have "restored R (l_abs l) base c (base, None, lr_tip R base)"
          unfolding restored_def using found(3) unique Inl by (intro disjI2) fastforce
        with True Inl Some sd show ?thesis by (subst eq) (simp add: l_latest_at [OF l])
      next
        case False
        have pred: "unat (s - 1) = unat s - 1" "unat s \<noteq> 0"
          using False by (simp_all add: unat_minus_one unat_eq_0)
        with found(2) have "unat (s - 1) < unat c" by (simp add: word_le_nat_alt)
        from less.hyps [OF this] obtain r where
          r: "try_restore_checkpoint L R l base (Some (s - 1)) = Some r" "restored R (l_abs l) base (s - 1) r"
          by blast
        have "restored R (l_abs l) base c r"
        proof (rule restored_mono [OF r(2)])
          show "s - 1 \<le> c" using pred found(2) by (simp add: word_le_nat_alt)
          fix s' d' assume a: "(s', d') \<in> set (l_abs l)" "s - 1 < s'" "s' \<le> c"
          then have "s' \<le> s" by (blast intro: found(3))
          with a(2) pred have "unat s' = unat s" by (simp add: word_le_nat_alt word_less_nat_alt)
          then have "s' = s" by (rule unsigned_word_eqI)
          with a(1) unique Inl show "isl (lr_decode R d')" by simp
        qed
        with r(1) False Inl Some sd show ?thesis by (subst eq) (simp add: l_latest_at [OF l])
      qed
    qed
  qed
qed

lemma try_restore_result:
  assumes l: "l_inv l"
  shows "\<exists>r. try_restore_checkpoint L R l base cursor = Some r
    \<and> restored R (l_abs l) base (case cursor of Some c \<Rightarrow> c | None \<Rightarrow> - 1) r"
proof (cases cursor)
  case None
  have "try_restore_checkpoint L R l base None = try_restore_checkpoint L R l base (Some (- 1))"
    by (subst (1 2) try_restore_checkpoint.simps) (simp add: l_latest [OF l] l_latest_at [OF l] lm_latest_eq)
  with None try_restore_step [OF l, of R base "- 1"] show ?thesis by simp
next
  case (Some c)
  with try_restore_step [OF l, of R base c] show ?thesis by simp
qed

end

end
