(* ===== verification/LedgerRecovery.thy ===== *)
theory LedgerRecovery
  imports ChainDb
begin

text \<open>
  Recovery of the ledger state, \<open>ChainDb::recover_ledger_state\<close>: from the newest checkpoint that
  decodes, over the rest of the immutable chain and the volatile chain. The checkpoints that the node
  persists are states of its chain; rollbacks drop the ones that are not any more. So recovery gives
  the state of the whole chain, the same as a replay from genesis.
\<close>

section \<open>Replay\<close>

lemma replay_append:
  "replay R st (xs @ ys) = and_then (replay R st xs) (\<lambda>st'. replay R st' ys)"
  by (induction xs arbitrary: st) (simp_all add: and_then_assoc)

text \<open>\<open>LedgerState::apply_block\<close> ends by setting the tip to the point of the block.\<close>

definition tracks_tip :: "('st, 'cp, 'tx) ledger_rules \<Rightarrow> bool" where
  "tracks_tip R \<longleftrightarrow> (\<forall>st b st'. lr_apply_block R st b = Ok st' \<longrightarrow> lr_tip R st' = point_for_block b)"

lemma replay_tip:
  assumes "tracks_tip R" "replay R st xs = Ok st'"
  shows "lr_tip R st' = (if xs = [] then lr_tip R st else point_for_block (last xs))"
proof (cases xs rule: rev_cases)
  case (snoc ys y)
  with assms show ?thesis by (auto simp: replay_append and_then_eq_Ok_iff tracks_tip_def)
qed (use assms in simp)

text \<open>The point after the first \<open>k\<close> blocks of a chain.\<close>

definition point_at :: "'tx block list \<Rightarrow> nat \<Rightarrow> point" where
  "point_at bs k = last_point (take k bs)"

lemma point_at_Suc: "k < length bs \<Longrightarrow> point_at bs (Suc k) = point_for_block (bs ! k)"
  by (simp add: point_at_def last_point_def take_Suc_conv_app_nth)

lemma point_at_0 [simp]: "point_at bs 0 = Origin"
  by (simp add: point_at_def last_point_def)

lemma position_nth_hash:
  assumes "hashes_ok bs" "k < length bs"
  shows "position (\<lambda>b. blk_hash b = blk_hash (bs ! k)) bs = Some k"
proof -
  have "bs = take k bs @ bs ! k # drop (Suc k) bs" using assms(2) by (rule id_take_nth_drop)
  moreover have "\<forall>x\<in>set (take k bs). blk_hash x \<noteq> blk_hash (bs ! k)"
    using assms by (auto simp: hashes_ok_def distinct_conv_nth in_set_conv_nth)
  ultimately show ?thesis
    using position_appendI [of "take k bs" "\<lambda>b. blk_hash b = blk_hash (bs ! k)" "bs ! k" "drop (Suc k) bs"]
      assms(2) by simp
qed

lemma slots_increase_nth:
  "slots_increase bs \<Longrightarrow> i < j \<Longrightarrow> j < length bs \<Longrightarrow> blk_slot (bs ! i) < blk_slot (bs ! j)"
  by (simp add: slots_increase_def sorted_wrt_iff_nth_less)

lemma slots_le_nth:
  "slots_increase bs \<Longrightarrow> i \<le> j \<Longrightarrow> j < length bs \<Longrightarrow> blk_slot (bs ! i) \<le> blk_slot (bs ! j)"
  using slots_increase_nth [of bs i j] by (cases "i = j") auto

lemma hd_nth: "xs \<noteq> [] \<Longrightarrow> (xs @ ys) ! 0 = hd xs"
  by (cases xs) auto

lemma immutable_suffix_at:
  assumes ok: "hashes_ok (xs @ ys)" and slots: "slots_increase (xs @ ys)" and k: "k \<le> length (xs @ ys)"
  shows "im_suffix_after xs (point_at (xs @ ys) k) = Ok (drop k xs)"
proof (cases k)
  case 0
  then show ?thesis by (simp add: im_suffix_after_def)
next
  case (Suc n)
  with k have n: "n < length (xs @ ys)" by simp
  define b where "b = (xs @ ys) ! n"
  have p: "point_at (xs @ ys) k = BlockPoint (blk_slot b) (blk_hash b)"
    using Suc n by (simp add: point_at_Suc point_for_block_def b_def)
  show ?thesis
  proof (cases "n < length xs")
    case True
    then have "b = xs ! n" by (simp add: b_def nth_append)
    moreover have "hashes_ok xs" using ok by (simp add: hashes_ok_def)
    ultimately have "position (\<lambda>x. blk_hash x = blk_hash b) xs = Some n"
      using position_nth_hash True by blast
    moreover have "\<not> blk_slot b < blk_slot (hd xs)"
    proof -
      have "xs \<noteq> []" using True by auto
      with slots_le_nth [OF slots, of 0 n] n hd_nth [of xs ys] show ?thesis by (simp add: b_def not_less)
    qed
    ultimately show ?thesis using p Suc by (simp add: im_suffix_after_def)
  next
    case False
    show ?thesis
    proof (cases "xs = []")
      case True
      then show ?thesis using p by (simp add: im_suffix_after_def)
    next
      case nonempty: False
      have "length xs - 1 < n" using False nonempty by (cases xs) auto
      with slots_increase_nth [OF slots this n] False nonempty have "blk_slot (last xs) < blk_slot b"
        by (simp add: b_def nth_append last_conv_nth)
      moreover have "length xs - 1 < length (xs @ ys)" using nonempty by (cases xs) auto
      then have "blk_slot (hd xs) \<le> blk_slot (last xs)"
        using slots_le_nth [OF slots, of 0 "length xs - 1"] nonempty hd_nth [of xs ys]
        by (simp add: last_conv_nth nth_append)
      moreover have "position (\<lambda>x. blk_hash x = blk_hash b) xs = None"
      proof -
        have "b \<in> set ys" using False n by (simp add: b_def nth_append)
        with ok show ?thesis unfolding position_hash_iff by (auto simp: hashes_ok_def)
      qed
      ultimately show ?thesis using p nonempty Suc False
        by (simp add: im_suffix_after_def del: position_None_iff)
    qed
  qed
qed


lemma prefix_to_tip:
  assumes "hashes_ok vs" "vs \<noteq> []"
  shows "vm_prefix_up_to vs (last_point vs) = Ok vs"
proof (cases vs rule: rev_cases)
  case (snoc us u)
  with position_nth_hash [OF assms(1), of "length us"] show ?thesis
    by (simp add: last_point_def point_for_block_def)
qed (use assms in simp)

lemma position_point:
  assumes "hashes_ok bs" "k < length bs"
  shows "position (\<lambda>b. point_for_block b = point_for_block (bs ! k)) bs = Some k"
proof -
  have "(point_for_block b = point_for_block (bs ! k)) = (blk_hash b = blk_hash (bs ! k))"
    if "b \<in> set bs" for b
  proof -
    have "b = bs ! k" if "blk_hash b = blk_hash (bs ! k)"
      using assms \<open>b \<in> set bs\<close> that by (simp add: hashes_ok_def distinct_map inj_on_def)
    then show ?thesis by (auto simp: point_for_block_def)
  qed
  then have "position (\<lambda>b. point_for_block b = point_for_block (bs ! k)) bs
      = position (\<lambda>b. blk_hash b = blk_hash (bs ! k)) bs"
    by (rule position_cong)
  with position_nth_hash [OF assms] show ?thesis by simp
qed

lemma volatile_suffix_at:
  assumes ok: "hashes_ok (xs @ ys)" and k: "k \<le> length (xs @ ys)"
  shows "volatile_suffix_after in_memory_volatile ys
      (if drop k xs = [] then point_at (xs @ ys) k else point_for_block (last (drop k xs)))
    = Ok (drop (k - length xs) ys)"
proof (cases "ys = []")
  case True
  then show ?thesis by (simp add: volatile_suffix_after_def last_point_def)
next
  case ys: False
  have oky: "hashes_ok ys" using ok by (simp add: hashes_ok_def)
  from ys have tip: "last_point ys \<noteq> Origin" by (simp add: last_point_def point_for_block_def)
  let ?anchor = "if drop k xs = [] then point_at (xs @ ys) k else point_for_block (last (drop k xs))"
  have suffix: "volatile_suffix_after in_memory_volatile ys a =
      (if a = Origin then Ok ys
       else case position (\<lambda>b. point_for_block b = a) ys of Some pos \<Rightarrow> Ok (drop (pos + 1) ys) | None \<Rightarrow> Ok ys)" for a
    using tip prefix_to_tip [OF oky ys] by (simp add: volatile_suffix_after_def)
  show ?thesis
  proof (cases "k \<le> length xs")
    case True
    have "?anchor = last_point xs"
      using True by (auto simp: point_at_def last_point_def)
    moreover have "position (\<lambda>b. point_for_block b = last_point xs) ys = None" if "xs \<noteq> []"
    proof -
      have "last xs \<in> set xs" using that by simp
      with hashes_ok_disjoint [OF ok] that show ?thesis by (auto simp: last_point_def point_for_block_def)
    qed
    ultimately show ?thesis using True
      by (cases "xs = []") (simp_all add: suffix last_point_def del: position_None_iff)
  next
    case False
    define n where "n = k - Suc (length xs)"
    have n: "k = Suc (length xs + n)" "n < length ys" using False k by (auto simp: n_def)
    then have "?anchor = point_for_block (ys ! n)" by (simp add: point_at_Suc nth_append)
    moreover have "point_for_block (ys ! n) \<noteq> Origin" by (simp add: point_for_block_def)
    ultimately show ?thesis using position_point [OF oky n(2)] n(1) by (simp add: suffix)
  qed
qed


lemma mem_tip: "chain_db_tip in_memory_immutable in_memory_volatile db = last_point (db_chain db)"
  by (cases "cd_volatile db = []")
    (auto simp: chain_db_tip_def db_chain_def last_point_def point_for_block_def)

lemma mem_replay_stores:
  assumes ok: "hashes_ok (db_chain db)" and slots: "slots_increase (db_chain db)"
    and tips: "tracks_tip R" "lr_tip R base = Origin"
    and k: "k \<le> length (db_chain db)" and st: "replay R base (take k (db_chain db)) = Ok st"
    and fin: "replay R base (db_chain db) = Ok fin"
  shows "replay_stores in_memory_immutable in_memory_volatile R db (st, cs, lr_tip R st)
    = Ok \<lparr>ro_ledger_state = fin, ro_point = last_point (db_chain db), ro_checkpoint_slot = cs,
         ro_replayed_volatile_blocks = length (cd_volatile db) - (k - length (cd_immutable db))\<rparr>"
proof -
  let ?xs = "cd_immutable db" and ?ys = "cd_volatile db"
  have chain: "db_chain db = ?xs @ ?ys" by (simp add: db_chain_def)
  have tip: "lr_tip R st = point_at (?xs @ ?ys) k"
    using replay_tip [OF tips(1) st] tips(2) by (auto simp: chain point_at_def last_point_def)
  have "?xs @ ?ys = take k (?xs @ ?ys) @ (drop k ?xs @ drop (k - length ?xs) ?ys)"
    by (metis append_take_drop_id drop_append)
  with fin st have "replay R st (drop k ?xs @ drop (k - length ?xs) ?ys) = Ok fin"
    by (metis and_then.simps(1) chain replay_append)
  then obtain st1 where st1: "replay R st (drop k ?xs) = Ok st1"
      "replay R st1 (drop (k - length ?xs) ?ys) = Ok fin"
    by (auto simp: replay_append and_then_eq_Ok_iff)
  have fin_tip: "lr_tip R fin = last_point (?xs @ ?ys)"
    using replay_tip [OF tips(1) fin] tips(2) by (auto simp: chain last_point_def)
  show ?thesis
    using immutable_suffix_at [of ?xs ?ys k] volatile_suffix_at [of ?xs ?ys k] ok slots k st1 fin_tip
    by (simp add: replay_stores_def chain mem_tip tip Let_def)
qed

context chain_db_stores
begin

lemma tip_abs:
  "db_inv i_inv v_inv l_inv db \<Longrightarrow>
     chain_db_tip I V db = chain_db_tip in_memory_immutable in_memory_volatile (db_abs i_abs v_abs l_abs db)"
  by (simp add: chain_db_tip_def db_inv_def db_abs_def v_tip i_tip Let_def)

lemma volatile_suffix_abs:
  "v_inv v \<Longrightarrow> volatile_suffix_after V v a = volatile_suffix_after in_memory_volatile (v_abs v) a"
  by (simp add: volatile_suffix_after_def v_tip v_prefix Let_def)

lemma replay_stores_abs:
  "db_inv i_inv v_inv l_inv db \<Longrightarrow>
     replay_stores I V R db start
     = replay_stores in_memory_immutable in_memory_volatile R (db_abs i_abs v_abs l_abs db) start"
  using tip_abs [of db]
  by (simp add: replay_stores_def db_inv_def volatile_suffix_abs i_suffix Let_def)
    (simp add: db_abs_def)

end


section \<open>Checkpoints of the chain\<close>

text \<open>
  Every snapshot that decodes is the ledger state after some non-empty prefix of the chain, stored
  under the slot of the last block of that prefix.
\<close>

definition checkpoint_of ::
    "('st, 'cp, 'tx) ledger_rules \<Rightarrow> 'st \<Rightarrow> 'tx block list \<Rightarrow> slot_no \<Rightarrow> bytes \<Rightarrow> bool" where
  "checkpoint_of R base bs s d \<longleftrightarrow>
     (\<forall>cp. lr_decode R d = Inr cp \<longrightarrow>
        (\<exists>k<length bs. s = blk_slot (bs ! k)
           \<and> replay R base (take (Suc k) bs) = Ok (lr_rehydrate R (lr_restore R cp) base)))"

definition recoverable :: "('st, 'cp, 'tx) ledger_rules \<Rightarrow> 'st \<Rightarrow> 'tx chain_spec \<Rightarrow> bool" where
  "recoverable R base sp \<longleftrightarrow> slots_increase (sp_chain sp)
     \<and> (\<forall>(s, d) \<in> set (sp_snapshots sp). checkpoint_of R base (sp_chain sp) s d)"

text \<open>
  What the node does while it follows a chain: it appends later blocks, rolls back to points of the
  chain, promotes, and persists checkpoints of the state it is in. Garbage collection of the chain
  itself is not part of it. The stores find the target of a rollback by its hash and truncate the
  snapshots by its slot, so the two have to belong together.
\<close>

fun sync_op :: "('st, 'cp, 'tx) ledger_rules \<Rightarrow> 'st \<Rightarrow> 'tx chain_op \<Rightarrow> 'tx chain_spec \<Rightarrow> bool" where
  "sync_op R base (AddVolatile b) sp \<longleftrightarrow>
     fresh_op (AddVolatile b) sp \<and> (sp_chain sp \<noteq> [] \<longrightarrow> blk_slot (last (sp_chain sp)) < blk_slot b)"
| "sync_op R base (SaveSnapshot s d) sp \<longleftrightarrow> checkpoint_of R base (sp_chain sp) s d"
| "sync_op R base (RollbackTo p) sp \<longleftrightarrow>
     (\<forall>b\<in>set (sp_chain sp). Some (blk_hash b) = point_hash p \<longrightarrow> Some (blk_slot b) = point_slot p)"
| "sync_op R base (GcImmutable s) sp \<longleftrightarrow> False"
| "sync_op R base (TruncateImmutable s) sp \<longleftrightarrow> False"
| "sync_op R base (GcVolatile s) sp \<longleftrightarrow> False"
| "sync_op R base op sp \<longleftrightarrow> True"

fun sync_run :: "('st, 'cp, 'tx) ledger_rules \<Rightarrow> 'st \<Rightarrow> 'tx chain_op list \<Rightarrow> 'tx chain_spec \<Rightarrow> bool" where
  "sync_run R base [] sp \<longleftrightarrow> True"
| "sync_run R base (op # ops) sp \<longleftrightarrow>
     sync_op R base op sp \<and> sync_run R base ops (fst (spec_step op sp))"

lemma sync_op_fresh: "sync_op R base op sp \<Longrightarrow> fresh_op op sp"
  by (cases op) auto

lemma sync_run_fresh: "sync_run R base ops sp \<Longrightarrow> fresh_run ops sp"
  by (induction ops arbitrary: sp) (auto dest: sync_op_fresh)

lemma checkpoint_of_append: "checkpoint_of R base bs s d \<Longrightarrow> checkpoint_of R base (bs @ cs) s d"
  unfolding checkpoint_of_def
proof (intro allI impI)
  fix cp
  assume "\<forall>cp. lr_decode R d = Inr cp \<longrightarrow> (\<exists>k<length bs. s = blk_slot (bs ! k) \<and>
      replay R base (take (Suc k) bs) = Ok (lr_rehydrate R (lr_restore R cp) base))"
    and "lr_decode R d = Inr cp"
  then obtain k where "k < length bs" "s = blk_slot (bs ! k)"
      "replay R base (take (Suc k) bs) = Ok (lr_rehydrate R (lr_restore R cp) base)" by blast
  then show "\<exists>k<length (bs @ cs). s = blk_slot ((bs @ cs) ! k) \<and>
      replay R base (take (Suc k) (bs @ cs)) = Ok (lr_rehydrate R (lr_restore R cp) base)"
    by (intro exI [of _ k]) (simp add: nth_append)
qed

lemma checkpoint_of_take:
  assumes "checkpoint_of R base bs s d" "slots_increase bs" "n < length bs" "s \<le> blk_slot (bs ! n)"
    "n < m"
  shows "checkpoint_of R base (take m bs) s d"
  unfolding checkpoint_of_def
proof (intro allI impI)
  fix cp assume "lr_decode R d = Inr cp"
  with assms(1) obtain k where k: "k < length bs" "s = blk_slot (bs ! k)"
      "replay R base (take (Suc k) bs) = Ok (lr_rehydrate R (lr_restore R cp) base)"
    unfolding checkpoint_of_def by blast
  from k(1,2) assms(4) have "k \<le> n" using slots_increase_nth [OF assms(2), of n k] by (meson not_le)
  with assms(5) k show "\<exists>k<length (take m bs). s = blk_slot (take m bs ! k) \<and>
      replay R base (take (Suc k) (take m bs)) = Ok (lr_rehydrate R (lr_restore R cp) base)"
    by (intro exI [of _ k]) (simp add: min_absorb1)
qed

lemma slots_increase_take: "slots_increase bs \<Longrightarrow> slots_increase (take n bs)"
  by (simp add: slots_increase_def sorted_wrt_take flip: take_map)

lemma slots_increase_snoc:
  assumes "slots_increase bs" "bs \<noteq> [] \<longrightarrow> blk_slot (last bs) < blk_slot b"
  shows "slots_increase (bs @ [b])"
proof -
  have "blk_slot x < blk_slot b" if x: "x \<in> set bs" for x
  proof -
    obtain i where "i < length bs" "x = bs ! i" using x by (auto simp: in_set_conv_nth)
    then have "blk_slot x \<le> blk_slot (last bs)"
      using slots_le_nth [OF assms(1), of i "length bs - 1"] x by (cases bs) (auto simp: last_conv_nth)
    with assms(2) x show ?thesis by (cases bs) auto
  qed
  with assms(1) show ?thesis by (simp add: slots_increase_def sorted_wrt_append)
qed

lemma save_snapshot_set: "set (fst (lm_save_snapshot ss s d)) \<subseteq> insert (s, d) (set ss)"
  using set_update_subset_insert [of ss _ "(s, d)"]
  by (auto simp: lm_save_snapshot_def split: option.splits)

lemma retain_set: "set (fst (lm_retain_latest ss n)) \<subseteq> set ss"
  by (auto simp: lm_retain_latest_def dest: in_set_dropD)

lemma truncate_set: "set (fst (lm_truncate_after ss so)) \<subseteq> set ss"
  by (cases so) auto


lemma recoverable_rollback:
  assumes rec: "recoverable R base sp" and op: "sync_op R base (RollbackTo p) sp"
  shows "recoverable R base (fst (spec_step (RollbackTo p) sp))"
proof (cases p)
  case Origin
  with rec show ?thesis by (auto simp: recoverable_def slots_increase_take)
next
  case (BlockPoint slot hash)
  show ?thesis
  proof (cases "position (\<lambda>b. blk_hash b = hash) (sp_chain sp)")
    case None
    with rec BlockPoint show ?thesis by (simp del: position_None_iff)
  next
    case (Some n)
    from position_SomeD [OF Some] op BlockPoint have n: "n < length (sp_chain sp)"
      "blk_slot (sp_chain sp ! n) = slot" by auto
    have "checkpoint_of R base (take (max (sp_stable sp) (n + 1)) (sp_chain sp)) s d"
      if "(s, d) \<in> set (sp_snapshots sp)" "s \<le> slot" for s d
      using that n rec checkpoint_of_take [of R base "sp_chain sp" s d n]
      by (auto simp: recoverable_def)
    with rec BlockPoint Some show ?thesis by (auto simp: recoverable_def slots_increase_take)
  qed
qed

lemma recoverable_snapshots:
  assumes "recoverable R base sp" "set ss \<subseteq> insert x (set (sp_snapshots sp))"
    "x \<in> set ss \<Longrightarrow> checkpoint_of R base (sp_chain sp) (fst x) (snd x)"
  shows "recoverable R base (sp\<lparr>sp_snapshots := ss\<rparr>)"
  using assms by (auto simp: recoverable_def)

lemma recoverable_promote:
  assumes "recoverable R base sp"
  shows "recoverable R base (fst (spec_step (Promote p) sp))"
  using assms by (cases p) (auto simp: recoverable_def split: option.split)

lemma recoverable_step:
  assumes rec: "recoverable R base sp" and op: "sync_op R base op sp"
  shows "recoverable R base (fst (spec_step op sp))"
proof (cases op)
  case (AddVolatile b)
  then show ?thesis using rec op slots_increase_snoc [of "sp_chain sp" b]
    by (auto simp: recoverable_def intro!: checkpoint_of_append)
next
  case (SaveSnapshot s d)
  then show ?thesis using op recoverable_snapshots [OF rec save_snapshot_set] by simp
next
  case (RetainLatest n)
  then show ?thesis using retain_set [of "sp_snapshots sp" n] rec by (auto simp: recoverable_def)
next
  case (TruncateLedger p)
  then show ?thesis using truncate_set [of "sp_snapshots sp" "point_slot p"] rec
    by (auto simp: recoverable_def)
next
  case ClearLedger
  then show ?thesis using rec by (simp add: recoverable_def)
next
  case (RollbackTo p)
  then show ?thesis using recoverable_rollback [OF rec] op by simp
next
  case (Promote p)
  then show ?thesis using recoverable_promote [OF rec] by simp
qed (use op in simp_all)

lemma recoverable_run:
  "recoverable R base sp \<Longrightarrow> sync_run R base ops sp \<Longrightarrow> recoverable R base (fst (spec_run ops sp))"
proof (induction ops arbitrary: sp)
  case (Cons op ops)
  obtain sp1 r where 1: "spec_step op sp = (sp1, r)" by fastforce
  with Cons.prems recoverable_step [of R base sp op] have "recoverable R base sp1" by simp
  with Cons.IH [of sp1] Cons.prems(2) 1 show ?case by (simp add: case_prod_beta)
qed simp

definition newest_usable ::
    "('st, 'cp, 'tx) ledger_rules \<Rightarrow> snapshots \<Rightarrow> slot_no \<Rightarrow> slot_no option \<Rightarrow> bool" where
  "newest_usable R ss c cs \<longleftrightarrow>
     (case cs of
        None \<Rightarrow> \<forall>(s, d) \<in> set ss. s \<le> c \<longrightarrow> isl (lr_decode R d)
      | Some s \<Rightarrow> s \<le> c \<and> (\<exists>d. (s, d) \<in> set ss \<and> \<not> isl (lr_decode R d))
          \<and> (\<forall>(s', d') \<in> set ss. s < s' \<longrightarrow> s' \<le> c \<longrightarrow> isl (lr_decode R d')))"

definition snapshot_limit :: "point \<Rightarrow> slot_no" where
  "snapshot_limit p = (case point_slot p of Some s \<Rightarrow> s | None \<Rightarrow> - 1)"

lemma restored_checkpoint:
  assumes res: "restored R ss base c r" and cps: "\<forall>(s, d) \<in> set ss. checkpoint_of R base bs s d"
  obtains k st cs where "k \<le> length bs" "replay R base (take k bs) = Ok st" "r = (st, cs, lr_tip R st)"
    "newest_usable R ss c cs"
  using res unfolding restored_def
proof (elim disjE exE conjE)
  fix s d cp
  let ?st = "lr_rehydrate R (lr_restore R cp) base"
  assume a: "(s, d) \<in> set ss" "s \<le> c" "lr_decode R d = Inr cp"
    "\<forall>(s', d') \<in> set ss. s < s' \<longrightarrow> s' \<le> c \<longrightarrow> isl (lr_decode R d')" "r = (?st, Some s, lr_tip R ?st)"
  with cps obtain k where k: "k < length bs" "replay R base (take (Suc k) bs) = Ok ?st"
    unfolding checkpoint_of_def by blast
  have "newest_usable R ss c (Some s)" using a by (auto simp: newest_usable_def)
  with k a(5) show thesis by (intro that [of "Suc k" ?st "Some s"]) simp_all
next
  assume "\<forall>(s', d') \<in> set ss. s' \<le> c \<longrightarrow> isl (lr_decode R d')" "r = (base, None, lr_tip R base)"
  then show thesis by (intro that [of 0 base None]) (simp_all add: newest_usable_def)
qed

context chain_db_stores
begin

lemma recover_whole_chain:
  fixes db
  defines "m \<equiv> db_abs i_abs v_abs l_abs db"
  assumes db: "db_inv i_inv v_inv l_inv db" and ok: "hashes_ok (db_chain m)"
    and rec: "recoverable R base (spec_of m)"
    and tips: "tracks_tip R" "lr_tip R base = Origin"
    and fin: "replay R base (db_chain m) = Ok fin"
  shows "\<exists>cs n. recover_ledger_state I V L R db base
      = Some (Ok \<lparr>ro_ledger_state = fin, ro_point = last_point (db_chain m), ro_checkpoint_slot = cs,
                 ro_replayed_volatile_blocks = n\<rparr>)
    \<and> newest_usable R (cd_ledger m) (snapshot_limit (last_point (db_chain m))) cs"
proof -
  have tip: "chain_db_tip I V db = last_point (db_chain m)"
    using tip_abs [OF db] by (simp add: mem_tip m_def)
  have l: "l_inv (cd_ledger db)" using db by (simp add: db_inv_def)
  have ledger: "cd_ledger m = l_abs (cd_ledger db)" by (simp add: m_def db_abs_def)
  obtain r where r: "try_restore_checkpoint L R (cd_ledger db) base (point_slot (last_point (db_chain m))) = Some r"
      "restored R (cd_ledger m) base (snapshot_limit (last_point (db_chain m))) r"
    using try_restore_result [OF l, of R base "point_slot (last_point (db_chain m))"]
    unfolding snapshot_limit_def ledger by blast
  have "\<forall>(s, d) \<in> set (cd_ledger m). checkpoint_of R base (db_chain m) s d"
    and slots: "slots_increase (db_chain m)"
    using rec by (simp_all add: recoverable_def spec_of_def)
  with restored_checkpoint [OF r(2)] obtain k st cs where
    k: "k \<le> length (db_chain m)" "replay R base (take k (db_chain m)) = Ok st" "r = (st, cs, lr_tip R st)"
      "newest_usable R (cd_ledger m) (snapshot_limit (last_point (db_chain m))) cs"
    by blast
  from mem_replay_stores [OF ok slots tips k(1,2) fin, of cs] r(1) k(3,4) show ?thesis
    by (auto simp: recover_ledger_state_def tip replay_stores_abs [OF db] simp flip: m_def)
qed

end

end
