(* ===== verification/Disk.thy ===== *)
theory Disk
  imports Stores "HOL-Library.AList"
begin

text \<open>
  The file system as the file-backed stores use it (\<open>file_volatile.rs\<close>, \<open>file_immutable.rs\<close>,
  \<open>file_ledger.rs\<close> in \<open>src/crates/storage/src\<close>). The data directory is a list of names with their
  contents, in the order in which \<open>read_dir\<close> lists them. Every call of the file system takes the
  next outcome of a plan: it is done, it fails with an I/O error, or the process dies before it. A
  plan that has run out stands for calls that are done. What follows a crash is the directory alone.

  Crashes are those of the process: the calls made before the crash have taken effect, in order.
  \<open>sync_all\<close> is a call that can fail and changes nothing.
\<close>

section \<open>Calls and crashes\<close>

datatype io_outcome = IoOk | IoFail | IoCrash

text \<open>A file that was created and not completely written has the content \<open>None\<close>.\<close>

type_synonym 'c files = "(string \<times> 'c option) list"

record 'c disk =
  dk_files :: "'c files"
  dk_plan :: "io_outcome list"

datatype ('c, 'a) run = Finished 'a "'c disk" | Crashed "'c disk"

type_synonym ('c, 'a) fs = "'c disk \<Rightarrow> ('c, 'a) run"

definition fs_return :: "'a \<Rightarrow> ('c, 'a) fs" where
  "fs_return x d = Finished x d"

definition fs_bind :: "('c, 'a) fs \<Rightarrow> ('a \<Rightarrow> ('c, 'b) fs) \<Rightarrow> ('c, 'b) fs" where
  "fs_bind m f d = (case m d of Finished x d' \<Rightarrow> f x d' | Crashed d' \<Rightarrow> Crashed d')"

definition fs_get :: "('c files \<Rightarrow> 'a) \<Rightarrow> ('c, 'a) fs" where
  "fs_get f d = Finished (f (dk_files d)) d"

text \<open>One call: its value says whether it was done.\<close>

definition fs_call :: "('c files \<Rightarrow> 'c files) \<Rightarrow> ('c, bool) fs" where
  "fs_call f d =
     (case dk_plan d of
        [] \<Rightarrow> Finished True (d\<lparr>dk_files := f (dk_files d)\<rparr>)
      | IoOk # p \<Rightarrow> Finished True (d\<lparr>dk_files := f (dk_files d), dk_plan := p\<rparr>)
      | IoFail # p \<Rightarrow> Finished False (d\<lparr>dk_plan := p\<rparr>)
      | IoCrash # p \<Rightarrow> Crashed (d\<lparr>dk_plan := p\<rparr>))"

text \<open>\<open>a?; b\<close> for calls.\<close>

definition fs_try :: "('c, bool) fs \<Rightarrow> ('c, bool) fs \<Rightarrow> ('c, bool) fs" where
  "fs_try a b = fs_bind a (\<lambda>ok. if ok then b else fs_return False)"

fun fs_each :: "('x \<Rightarrow> ('c, 'a) fs) \<Rightarrow> 'x list \<Rightarrow> ('c, unit) fs" where
  "fs_each f [] = fs_return ()"
| "fs_each f (x # xs) = fs_bind (f x) (\<lambda>_. fs_each f xs)"

definition rename_file :: "string \<Rightarrow> string \<Rightarrow> 'c files \<Rightarrow> 'c files" where
  "rename_file a b fs =
     (case map_of fs a of None \<Rightarrow> fs | Some c \<Rightarrow> AList.update b c (AList.delete a fs))"

definition file_exists :: "string \<Rightarrow> 'c files \<Rightarrow> bool" where
  "file_exists n fs \<longleftrightarrow> map_of fs n \<noteq> None"

definition fs_sync :: "('c, bool) fs" where
  "fs_sync = fs_call (\<lambda>fs. fs)"

definition fs_remove :: "string \<Rightarrow> ('c, bool) fs" where
  "fs_remove n = fs_bind (fs_get (file_exists n)) (\<lambda>e. fs_bind (fs_call (AList.delete n)) (\<lambda>ok. fs_return (ok \<and> e)))"

definition fs_read :: "string \<Rightarrow> ('c, 'c option) fs" where
  "fs_read n = fs_bind (fs_call (\<lambda>fs. fs)) (\<lambda>ok.
     if ok then fs_get (\<lambda>fs. Option.bind (map_of fs n) (\<lambda>c. c)) else fs_return None)"

text \<open>\<open>if path.exists() { fs::remove_file(&path)?; }\<close>\<close>

definition remove_if_exists :: "string \<Rightarrow> ('c, bool) fs" where
  "remove_if_exists n = fs_bind (fs_get (file_exists n)) (\<lambda>e. if e then fs_remove n else fs_return True)"


section \<open>Names\<close>

text \<open>\<open>Path::extension\<close> and \<open>Path::with_extension\<close> on a file name.\<close>

definition file_ext :: "string \<Rightarrow> string option" where
  "file_ext n =
     (let e = takeWhile (\<lambda>c. c \<noteq> CHR ''.'') (rev n)
      in if length n \<le> length e + 1 then None else Some (rev e))"

definition with_ext :: "string \<Rightarrow> string \<Rightarrow> string" where
  "with_ext n e =
     (case file_ext n of
        None \<Rightarrow> n @ ''.'' @ e
      | Some x \<Rightarrow> take (length n - length x) n @ e)"

definition hex_digits :: string where
  "hex_digits = ''0123456789abcdef''"

definition hex_digit :: "nat \<Rightarrow> char" where
  "hex_digit n = hex_digits ! n"

definition hex_byte :: "u8 \<Rightarrow> string" where
  "hex_byte b = [hex_digit (unat b div 16), hex_digit (unat b mod 16)]"

definition hex_encode :: "bytes \<Rightarrow> string" where
  "hex_encode bs = concat (map hex_byte bs)"

text \<open>
  \<open>u8::from_str_radix(_, 16)\<close> on two characters takes both cases of the digits and a leading
  plus sign.
\<close>

definition hex_val :: "char \<Rightarrow> nat option" where
  "hex_val c =
     (case position (\<lambda>x. x = c) hex_digits of
        Some i \<Rightarrow> Some i
      | None \<Rightarrow> position (\<lambda>x. x = c) ''0123456789ABCDEF'')"

fun parse_hex_byte :: "string \<Rightarrow> u8 option" where
  "parse_hex_byte [a, b] =
     (if a = CHR ''+'' then map_option of_nat (hex_val b)
      else Option.bind (hex_val a) (\<lambda>x. map_option (\<lambda>y. of_nat (16 * x + y)) (hex_val b)))"
| "parse_hex_byte _ = None"

fun parse_hex :: "string \<Rightarrow> bytes option" where
  "parse_hex [] = Some []"
| "parse_hex [a] = None"
| "parse_hex (a # b # cs) =
     Option.bind (parse_hex_byte [a, b]) (\<lambda>x. map_option ((#) x) (parse_hex cs))"

definition hex_decode_hash :: "string \<Rightarrow> header_hash option" where
  "hex_decode_hash s = (if length s \<noteq> 64 then None else parse_hex s)"

definition block_path :: "header_hash \<Rightarrow> string" where
  "block_path h = hex_encode h @ ''.cbor''"

definition legacy_json_block_path :: "header_hash \<Rightarrow> string" where
  "legacy_json_block_path h = hex_encode h @ ''.json''"

definition dirty_name :: string where
  "dirty_name = ''dirty.flag''"

definition wal_name :: string where
  "wal_name = ''wal.pending.json''"


section \<open>Atomic writes and the dirty flag\<close>

definition atomic_write_file :: "string \<Rightarrow> 'c \<Rightarrow> ('c, bool) fs" where
  "atomic_write_file n c =
     (let tmp = with_ext n ''tmp'' in
      fs_try (fs_call (AList.update tmp None))
     (fs_try (fs_call (AList.update tmp (Some c)))
     (fs_try fs_sync
     (fs_try (fs_call (rename_file tmp n)) fs_sync))))"

definition mark_dirty :: "('c, bool) fs" where
  "mark_dirty = fs_try (fs_call (AList.update dirty_name None)) (fs_try fs_sync fs_sync)"

definition mark_clean :: "('c, bool) fs" where
  "mark_clean = fs_bind (fs_remove dirty_name) (\<lambda>_. fs_return True)"

definition remove_tmp_files :: "('c, unit) fs" where
  "remove_tmp_files =
     fs_bind fs_sync (\<lambda>ok.
       if ok then fs_bind (fs_get (\<lambda>fs. filter (\<lambda>n. file_ext n = Some ''tmp'') (map fst fs)))
                    (fs_each fs_remove)
       else fs_return ())"

lemma hex_val_digit: "n < 16 \<Longrightarrow> hex_val (hex_digit n) = Some n"
proof -
  have "\<forall>n\<in>{0..<16}. hex_val (hex_digit n) = Some n"
    by (simp add: hex_val_def hex_digit_def hex_digits_def upt_rec flip: set_upt)
  then show "n < 16 \<Longrightarrow> hex_val (hex_digit n) = Some n" by simp
qed

lemma hex_digit_plain: "n < 16 \<Longrightarrow> hex_digit n \<noteq> CHR ''.''" "n < 16 \<Longrightarrow> hex_digit n \<noteq> CHR ''+''"
proof -
  have "\<forall>n\<in>{0..<16}. hex_digit n \<noteq> CHR ''.'' \<and> hex_digit n \<noteq> CHR ''+''"
    by (simp add: hex_digit_def hex_digits_def upt_rec flip: set_upt)
  then show "n < 16 \<Longrightarrow> hex_digit n \<noteq> CHR ''.''" "n < 16 \<Longrightarrow> hex_digit n \<noteq> CHR ''+''" by simp_all
qed

lemma u8_halves: "unat (b :: u8) div 16 < 16" "unat b mod 16 < 16"
  using unat_lt_2p [of b] by simp_all

lemma parse_hex_encode [simp]: "parse_hex (hex_encode bs) = Some bs"
proof (induction bs)
  case (Cons b bs)
  have "parse_hex_byte (hex_byte b) = Some b"
    using u8_halves [of b]
    by (simp add: hex_byte_def hex_val_digit hex_digit_plain del: of_nat_add of_nat_mult)
  with Cons show ?case by (simp add: hex_encode_def hex_byte_def)
qed (simp add: hex_encode_def)

lemma hex_encode_inj [simp]: "hex_encode a = hex_encode b \<longleftrightarrow> a = b"
  by (metis option.inject parse_hex_encode)

lemma length_hex_encode [simp]: "length (hex_encode bs) = 2 * length bs"
  by (induction bs) (simp_all add: hex_encode_def hex_byte_def)

lemma parse_hex_length: "parse_hex s = Some bs \<Longrightarrow> length s = 2 * length bs"
  by (induction s arbitrary: bs rule: parse_hex.induct) (auto simp: bind_eq_Some_conv)

lemma hex_decode_hash32: "hex_decode_hash s = Some h \<Longrightarrow> is_hash32 h"
  by (auto simp: hex_decode_hash_def is_hash32_def dest: parse_hex_length split: if_splits)

lemma hex_decode_encode: "is_hash32 h \<Longrightarrow> hex_decode_hash (hex_encode h) = Some h"
  by (simp add: hex_decode_hash_def is_hash32_def)

lemma hex_encode_no_dot: "CHR ''.'' \<notin> set (hex_encode bs)"
proof (induction bs)
  case (Cons b bs)
  with hex_digit_plain(1) [OF u8_halves(1) [of b]] hex_digit_plain(1) [OF u8_halves(2) [of b]]
  show ?case by (auto simp: hex_encode_def hex_byte_def)
qed (simp add: hex_encode_def)

lemma file_ext_append:
  assumes "CHR ''.'' \<notin> set e" "n \<noteq> []"
  shows "file_ext (n @ CHR ''.'' # e) = Some e"
proof -
  have "takeWhile (\<lambda>c. c \<noteq> CHR ''.'') (rev e @ CHR ''.'' # rev n) = rev e"
    using assms(1) by (auto simp: takeWhile_append)
  with assms(2) show ?thesis by (simp add: file_ext_def)
qed



section \<open>Crash triples\<close>

text \<open>
  \<open>crash_triple P m C Q\<close>: from a directory that satisfies \<open>P\<close>, with no I/O error in the plan, \<open>m\<close>
  ends with a value and a directory that satisfy \<open>Q\<close>, or the process dies and leaves a directory that
  satisfies \<open>C\<close>; it dies only if the plan says so. The assertions speak of the directory as a map.
\<close>

type_synonym 'c dir = "string \<rightharpoonup> 'c option"

definition crash_triple ::
    "('c dir \<Rightarrow> bool) \<Rightarrow> ('c, 'a) fs \<Rightarrow> ('c dir \<Rightarrow> bool) \<Rightarrow> ('a \<Rightarrow> 'c dir \<Rightarrow> bool) \<Rightarrow> bool" where
  "crash_triple P m C Q \<longleftrightarrow>
     (\<forall>d. distinct (map fst (dk_files d)) \<longrightarrow> P (map_of (dk_files d)) \<longrightarrow> IoFail \<notin> set (dk_plan d) \<longrightarrow>
        (case m d of
           Finished x d' \<Rightarrow> distinct (map fst (dk_files d')) \<and> Q x (map_of (dk_files d'))
             \<and> set (dk_plan d') \<subseteq> set (dk_plan d)
         | Crashed d' \<Rightarrow> distinct (map fst (dk_files d')) \<and> C (map_of (dk_files d'))
             \<and> IoCrash \<in> set (dk_plan d)))"

lemma fs_bind_return [simp]: "fs_bind (fs_return x) f = f x"
  by (simp add: fs_bind_def fs_return_def fun_eq_iff)

lemma triple_weaken:
  assumes "crash_triple P' m C' Q'" "\<And>f. P f \<Longrightarrow> P' f" "\<And>f. C' f \<Longrightarrow> C f" "\<And>x f. Q' x f \<Longrightarrow> Q x f"
  shows "crash_triple P m C Q"
  using assms unfolding crash_triple_def by (fastforce split: run.splits)

lemma triple_ex: "(\<And>x. crash_triple (P x) m C Q) \<Longrightarrow> crash_triple (\<lambda>f. \<exists>x. P x f) m C Q"
  unfolding crash_triple_def by blast

lemma triple_pre: "(A \<Longrightarrow> crash_triple P m C Q) \<Longrightarrow> crash_triple (\<lambda>f. A \<and> P f) m C Q"
  unfolding crash_triple_def by blast

lemma triple_return: "(\<And>f. P f \<Longrightarrow> Q x f) \<Longrightarrow> crash_triple P (fs_return x) C Q"
  by (simp add: crash_triple_def fs_return_def)

lemma triple_get:
  "(\<And>fs. distinct (map fst fs) \<Longrightarrow> P (map_of fs) \<Longrightarrow> Q (f fs) (map_of fs)) \<Longrightarrow> crash_triple P (fs_get f) C Q"
  by (simp add: crash_triple_def fs_get_def)

lemma triple_bind:
  assumes "crash_triple P m C R" "\<And>x. crash_triple (R x) (f x) C Q"
  shows "crash_triple P (fs_bind m f) C Q"
  unfolding crash_triple_def
proof (intro allI impI)
  fix d :: "'a disk"
  assume d: "distinct (map fst (dk_files d))" "P (map_of (dk_files d))" "IoFail \<notin> set (dk_plan d)"
  show "case fs_bind m f d of
      Finished x d' \<Rightarrow> distinct (map fst (dk_files d')) \<and> Q x (map_of (dk_files d')) \<and> set (dk_plan d') \<subseteq> set (dk_plan d)
    | Crashed d' \<Rightarrow> distinct (map fst (dk_files d')) \<and> C (map_of (dk_files d')) \<and> IoCrash \<in> set (dk_plan d)"
  proof (cases "m d")
    case (Finished x d1)
    with assms(1) d have 1: "distinct (map fst (dk_files d1))" "R x (map_of (dk_files d1))"
        "set (dk_plan d1) \<subseteq> set (dk_plan d)"
      unfolding crash_triple_def by (auto dest!: spec [of _ d])
    with d(3) assms(2) [of x] have "case f x d1 of
        Finished y d' \<Rightarrow> distinct (map fst (dk_files d')) \<and> Q y (map_of (dk_files d')) \<and> set (dk_plan d') \<subseteq> set (dk_plan d1)
      | Crashed d' \<Rightarrow> distinct (map fst (dk_files d')) \<and> C (map_of (dk_files d')) \<and> IoCrash \<in> set (dk_plan d1)"
      unfolding crash_triple_def by blast
    with Finished 1(3) show ?thesis by (auto simp: fs_bind_def split: run.splits)
  next
    case (Crashed d1)
    with assms(1) d show ?thesis
      unfolding crash_triple_def by (auto simp: fs_bind_def dest!: spec [of _ d])
  qed
qed

lemma triple_call:
  assumes "\<And>fs. distinct (map fst fs) \<Longrightarrow> distinct (map fst (g fs)) \<and> map_of (g fs) = h (map_of fs)"
    "\<And>f. P f \<Longrightarrow> C f" "\<And>f. P f \<Longrightarrow> Q True (h f)"
  shows "crash_triple P (fs_call g) C Q"
  using assms by (auto simp: crash_triple_def fs_call_def split: list.splits io_outcome.splits)

lemma triple_update:
  "(\<And>f. P f \<Longrightarrow> C f) \<Longrightarrow> (\<And>f. P f \<Longrightarrow> Q True (f(n \<mapsto> c))) \<Longrightarrow>
     crash_triple P (fs_call (AList.update n c)) C Q"
  by (rule triple_call) (auto simp: update_conv' distinct_update)

lemma triple_delete:
  "(\<And>f. P f \<Longrightarrow> C f) \<Longrightarrow> (\<And>f. P f \<Longrightarrow> Q True (f(n := None))) \<Longrightarrow>
     crash_triple P (fs_call (AList.delete n)) C Q"
  by (rule triple_call) (auto simp: delete_conv' distinct_delete)

lemma triple_sync: "(\<And>f. P f \<Longrightarrow> C f) \<Longrightarrow> (\<And>f. P f \<Longrightarrow> Q True f) \<Longrightarrow> crash_triple P fs_sync C Q"
  unfolding fs_sync_def by (rule triple_call) auto

definition rename_map :: "string \<Rightarrow> string \<Rightarrow> 'c dir \<Rightarrow> 'c dir" where
  "rename_map a b f = (case f a of None \<Rightarrow> f | Some c \<Rightarrow> f(a := None, b \<mapsto> c))"

lemma triple_rename:
  "(\<And>f. P f \<Longrightarrow> C f) \<Longrightarrow> (\<And>f. P f \<Longrightarrow> Q True (rename_map a b f)) \<Longrightarrow>
     crash_triple P (fs_call (rename_file a b)) C Q"
  by (rule triple_call [where h = "rename_map a b"])
    (auto simp: rename_file_def rename_map_def update_conv' delete_conv' distinct_update
      distinct_delete split: option.split)

lemma triple_try:
  assumes "crash_triple P a C (\<lambda>ok f. ok \<and> R f)" "crash_triple R b C Q"
  shows "crash_triple P (fs_try a b) C Q"
  unfolding fs_try_def
proof (rule triple_bind [OF assms(1)])
  fix ok
  show "crash_triple (\<lambda>f. ok \<and> R f) (if ok then b else fs_return False) C Q"
    using assms(2) by (cases ok) (auto simp: crash_triple_def)
qed

text \<open>\<open>call()?; rest\<close> and \<open>let _ = call(); rest\<close>, for a call that succeeds unless the process dies.\<close>

lemma triple_bind_ok:
  assumes "crash_triple P m C (\<lambda>ok f. ok \<and> R f)" "crash_triple R g C Q"
  shows "crash_triple P (fs_bind m (\<lambda>ok. if \<not> ok then e else g)) C Q"
proof (rule triple_bind [OF assms(1)])
  fix ok
  show "crash_triple (\<lambda>f. ok \<and> R f) (if \<not> ok then e else g) C Q"
    using assms(2) by (cases ok) (auto simp: crash_triple_def)
qed

lemma triple_then:
  assumes "crash_triple P m C (\<lambda>_. R)" "crash_triple R g C Q"
  shows "crash_triple P (fs_bind m (\<lambda>_. g)) C Q"
  using assms by (rule triple_bind)

lemma triple_bind_ignore:
  assumes "crash_triple P m C (\<lambda>ok f. ok \<and> R f)" "crash_triple R g C Q"
  shows "crash_triple P (fs_bind m (\<lambda>_. g)) C Q"
  by (rule triple_then [OF triple_weaken [OF assms(1)] assms(2)]) auto

lemma triple_each:
  assumes "\<And>ys x zs. xs = ys @ x # zs \<Longrightarrow> crash_triple (J ys) (f x) C (\<lambda>_. J (ys @ [x]))"
  shows "crash_triple (J []) (fs_each f xs) C (\<lambda>_. J xs)"
proof -
  have "crash_triple (J ys) (fs_each f zs) C (\<lambda>_. J xs)" if "xs = ys @ zs" for ys zs
    using that
  proof (induction zs arbitrary: ys)
    case Nil
    then show ?case by (simp add: triple_return)
  next
    case (Cons z zs)
    from Cons.IH [of "ys @ [z]"] Cons.prems assms [OF Cons.prems] show ?case
      by (auto intro: triple_bind)
  qed
  from this [of "[]" xs] show ?thesis by simp
qed

lemma triple_remove:
  assumes "\<And>f. P f \<Longrightarrow> C f" "\<And>f. P f \<Longrightarrow> Q (f n \<noteq> None) (f(n := None))"
  shows "crash_triple P (fs_remove n) C Q"
  unfolding fs_remove_def
proof (rule triple_bind [where R = "\<lambda>e f. P f \<and> e = (f n \<noteq> None)"])
  show "crash_triple P (fs_get (file_exists n)) C (\<lambda>e f. P f \<and> e = (f n \<noteq> None))"
    by (rule triple_get) (simp add: file_exists_def)
  fix e
  show "crash_triple (\<lambda>f. P f \<and> e = (f n \<noteq> None))
      (fs_bind (fs_call (AList.delete n)) (\<lambda>ok. fs_return (ok \<and> e))) C Q"
  proof (rule triple_bind [where R = "\<lambda>ok f. ok \<and> Q e f"])
    show "crash_triple (\<lambda>f. P f \<and> e = (f n \<noteq> None)) (fs_call (AList.delete n)) C (\<lambda>ok f. ok \<and> Q e f)"
      using assms by (intro triple_delete) auto
  qed (auto intro: triple_return)
qed

lemma triple_remove_if_exists:
  assumes "\<And>f. P f \<Longrightarrow> C f" "\<And>f. P f \<Longrightarrow> R (f(n := None))"
  shows "crash_triple P (remove_if_exists n) C (\<lambda>ok f. ok \<and> R f)"
  unfolding remove_if_exists_def
proof (rule triple_bind [where R = "\<lambda>e f. P f \<and> e = (f n \<noteq> None)"])
  show "crash_triple P (fs_get (file_exists n)) C (\<lambda>e f. P f \<and> e = (f n \<noteq> None))"
    by (rule triple_get) (simp add: file_exists_def)
  fix e
  have "R f" if "P f" "f n = None" for f using assms(2) [OF that(1)] that(2) by (simp add: fun_upd_idem)
  with assms show "crash_triple (\<lambda>f. P f \<and> e = (f n \<noteq> None)) (if e then fs_remove n else fs_return True) C
      (\<lambda>ok f. ok \<and> R f)"
    by (cases e) (auto intro!: triple_remove triple_return)
qed

lemma triple_read:
  assumes "\<And>f. P f \<Longrightarrow> C f" "\<And>f. P f \<Longrightarrow> Q (Option.bind (f n) (\<lambda>c. c)) f"
  shows "crash_triple P (fs_read n) C Q"
  unfolding fs_read_def
proof (rule triple_bind [where R = "\<lambda>ok f. ok \<and> P f"])
  show "crash_triple P (fs_call (\<lambda>fs. fs)) C (\<lambda>ok f. ok \<and> P f)"
    using assms(1) by (intro triple_call) auto
  fix ok
  show "crash_triple (\<lambda>f. ok \<and> P f)
      (if ok then fs_get (\<lambda>fs. Option.bind (map_of fs n) (\<lambda>c. c)) else fs_return None) C Q"
    using assms(2) by (cases ok) (auto simp: fs_get_def crash_triple_def)
qed

lemma triple_remove_tmp:
  assumes P: "\<And>n f. file_ext n = Some ''tmp'' \<Longrightarrow> P f \<Longrightarrow> P (f(n := None))"
  shows "crash_triple P remove_tmp_files P (\<lambda>_. P)"
proof -
  have each: "crash_triple (\<lambda>f. (\<forall>n\<in>set names. file_ext n = Some ''tmp'') \<and> P f)
      (fs_each fs_remove names) P (\<lambda>_. P)" for names
  proof (rule triple_pre, rule triple_each)
    fix ys n zs assume tmp: "\<forall>n\<in>set names. file_ext n = Some ''tmp''" "names = ys @ n # zs"
    then show "crash_triple P (fs_remove n) P (\<lambda>_. P)" by (intro triple_remove P) simp_all
  qed
  have list: "crash_triple P (fs_get (\<lambda>fs. filter (\<lambda>n. file_ext n = Some ''tmp'') (map fst fs)))
      P (\<lambda>names f. (\<forall>n\<in>set names. file_ext n = Some ''tmp'') \<and> P f)"
    by (rule triple_get) simp
  show ?thesis
    unfolding remove_tmp_files_def
  proof (rule triple_bind [where R = "\<lambda>_. P"])
    show "crash_triple P fs_sync P (\<lambda>_. P)" by (rule triple_sync)
    show "crash_triple P
        (if ok then fs_bind (fs_get (\<lambda>fs. filter (\<lambda>n. file_ext n = Some ''tmp'') (map fst fs))) (fs_each fs_remove)
         else fs_return ()) P (\<lambda>_. P)" for ok
      using triple_bind [OF list each] by (cases ok) (simp_all add: triple_return)
  qed
qed

lemma triple_atomic_write:
  assumes "with_ext n ''tmp'' = t" "t \<noteq> n"
    and C: "\<And>f x. P f \<Longrightarrow> C f \<and> C (f(t \<mapsto> x)) \<and> C (f(t := None, n \<mapsto> Some c))"
    and Q: "\<And>f. P f \<Longrightarrow> Q True (f(t := None, n \<mapsto> Some c))"
  shows "crash_triple P (atomic_write_file n c) C Q"
  unfolding atomic_write_file_def Let_def assms(1)
proof (intro triple_try)
  show "crash_triple P (fs_call (AList.update t None)) C (\<lambda>ok f. ok \<and> (\<exists>g. P g \<and> f = g(t \<mapsto> None)))"
    using C by (intro triple_update) auto
  show "crash_triple (\<lambda>f. \<exists>g. P g \<and> f = g(t \<mapsto> None)) (fs_call (AList.update t (Some c))) C
      (\<lambda>ok f. ok \<and> (\<exists>g. P g \<and> f = g(t \<mapsto> Some c)))"
    using C by (intro triple_update) auto
  show "crash_triple (\<lambda>f. \<exists>g. P g \<and> f = g(t \<mapsto> Some c)) fs_sync C
      (\<lambda>ok f. ok \<and> (\<exists>g. P g \<and> f = g(t \<mapsto> Some c)))"
    using C by (intro triple_sync) auto
  show "crash_triple (\<lambda>f. \<exists>g. P g \<and> f = g(t \<mapsto> Some c)) (fs_call (rename_file t n)) C
      (\<lambda>ok f. ok \<and> (\<exists>g. P g \<and> f = g(t := None, n \<mapsto> Some c)))"
    using C assms(2) by (intro triple_rename) (auto simp: rename_map_def)
  show "crash_triple (\<lambda>f. \<exists>g. P g \<and> f = g(t := None, n \<mapsto> Some c)) fs_sync C Q"
    using C Q by (intro triple_sync) auto
qed

lemma triple_mark_dirty:
  assumes "\<And>f. P f \<Longrightarrow> C f \<and> C (f(dirty_name \<mapsto> None))" "\<And>f. P f \<Longrightarrow> Q True (f(dirty_name \<mapsto> None))"
  shows "crash_triple P mark_dirty C Q"
  unfolding mark_dirty_def
proof (intro triple_try)
  show "crash_triple P (fs_call (AList.update dirty_name None)) C
      (\<lambda>ok f. ok \<and> (\<exists>g. P g \<and> f = g(dirty_name \<mapsto> None)))"
    using assms by (intro triple_update) auto
  show "crash_triple (\<lambda>f. \<exists>g. P g \<and> f = g(dirty_name \<mapsto> None)) fs_sync C
      (\<lambda>ok f. ok \<and> (\<exists>g. P g \<and> f = g(dirty_name \<mapsto> None)))"
    using assms by (intro triple_sync) auto
  show "crash_triple (\<lambda>f. \<exists>g. P g \<and> f = g(dirty_name \<mapsto> None)) fs_sync C Q"
    using assms by (intro triple_sync) auto
qed

lemma triple_mark_clean:
  assumes "\<And>f. P f \<Longrightarrow> C f" "\<And>f. P f \<Longrightarrow> Q True (f(dirty_name := None))"
  shows "crash_triple P mark_clean C Q"
  unfolding mark_clean_def
  by (rule triple_bind [where R = "\<lambda>_. Q True"], rule triple_remove) (auto intro: assms triple_return)

text \<open>What a triple says of one run.\<close>

lemma triple_run:
  assumes "crash_triple P m C Q" "distinct (map fst fs)" "P (map_of fs)" "IoFail \<notin> set plan"
  obtains x d where "m \<lparr>dk_files = fs, dk_plan = plan\<rparr> = Finished x d" "distinct (map fst (dk_files d))"
    "Q x (map_of (dk_files d))"
  | d where "m \<lparr>dk_files = fs, dk_plan = plan\<rparr> = Crashed d" "distinct (map fst (dk_files d))"
    "C (map_of (dk_files d))" "IoCrash \<in> set plan"
proof (cases "m \<lparr>dk_files = fs, dk_plan = plan\<rparr>")
  case (Finished x d)
  with assms that(1) show thesis by (auto simp: crash_triple_def dest!: spec [of _ "\<lparr>dk_files = fs, dk_plan = plan\<rparr>"])
next
  case (Crashed d)
  with assms that(2) show thesis by (auto simp: crash_triple_def dest!: spec [of _ "\<lparr>dk_files = fs, dk_plan = plan\<rparr>"])
qed

lemma triple_finished:
  assumes "crash_triple P m C Q" "m d = Finished x d'"
    and "distinct (map fst (dk_files d))" "P (map_of (dk_files d))" "IoFail \<notin> set (dk_plan d)"
  shows "distinct (map fst (dk_files d'))" "Q x (map_of (dk_files d'))" "IoFail \<notin> set (dk_plan d')"
  using assms unfolding crash_triple_def by (auto dest!: spec [of _ d])

lemma triple_crashed:
  assumes "crash_triple P m C Q" "m d = Crashed d'"
    and "distinct (map fst (dk_files d))" "P (map_of (dk_files d))" "IoFail \<notin> set (dk_plan d)"
  shows "distinct (map fst (dk_files d'))" "C (map_of (dk_files d'))"
  using assms unfolding crash_triple_def by (auto dest!: spec [of _ d])

text \<open>A run in which nothing fails.\<close>

definition undisturbed :: "('c, 'a) fs \<Rightarrow> 'c files \<Rightarrow> 'a \<Rightarrow> 'a \<times> 'c files" where
  "undisturbed m fs x =
     (case m \<lparr>dk_files = fs, dk_plan = []\<rparr> of
        Finished y d \<Rightarrow> (y, dk_files d)
      | Crashed d \<Rightarrow> (x, dk_files d))"

lemma undisturbed_run:
  assumes "crash_triple P m C (\<lambda>x f. x = y \<and> Q f)" "distinct (map fst fs)" "P (map_of fs)"
  shows "\<exists>fs'. (\<forall>x. undisturbed m fs x = (y, fs')) \<and> distinct (map fst fs') \<and> Q (map_of fs')"
  by (rule triple_run [OF assms, of "[]"]) (auto simp: undisturbed_def)

end
