(* ===== verification/BlockFiles.thy ===== *)
theory BlockFiles
  imports Disk
begin

text \<open>
  Blocks as files, which the file-backed stores \<open>src/crates/storage/src/file_volatile.rs\<close> and
  \<open>file_immutable.rs\<close> share: one CBOR file for each block, named by its hash, legacy JSON files,
  temporary files, a dirty flag. The serialisers (\<open>serde_cbor\<close>, \<open>serde_json\<close>) are third-party code
  and the record \<open>serde\<close>.

  The theory defines which blocks a directory holds, shows how the file-system calls change that, and
  that the scan of a directory finds exactly these blocks, in the order of their slots.
\<close>

section \<open>Model\<close>

record wal_plan =
  wp_version :: u8
  wp_operation :: string
  wp_hashes :: "string list"

record ('c, 'tx) serde =
  sd_block :: "'tx block \<Rightarrow> string + 'c"
  sd_parse_cbor :: "'c \<Rightarrow> 'tx block option"
  sd_parse_json :: "'c \<Rightarrow> 'tx block option"
  sd_plan :: "wal_plan \<Rightarrow> 'c option"
  sd_parse_plan :: "'c \<Rightarrow> wal_plan option"

definition drop_hashes :: "header_hash list \<Rightarrow> (header_hash \<rightharpoonup> 'b) \<Rightarrow> (header_hash \<rightharpoonup> 'b)" where
  "drop_hashes hs m = m |` (- set hs)"

text \<open>
  The scan keeps for each hash the block and whether it came from a CBOR file, which wins over a
  legacy JSON file; it counts what it cannot read.
\<close>

type_synonym 'tx scan = "(header_hash \<times> 'tx block \<times> bool) list \<times> nat"

fun scan_cbor :: "'tx block option \<Rightarrow> 'tx scan \<Rightarrow> 'tx scan" where
  "scan_cbor None (m, skipped) = (m, skipped + 1)"
| "scan_cbor (Some b) (m, skipped) =
     (case map_of m (blk_hash b) of
        Some (_, True) \<Rightarrow> (m, skipped)
      | _ \<Rightarrow> (AList.update (blk_hash b) (b, True) m, skipped))"

fun scan_json :: "'tx block option \<Rightarrow> 'tx scan \<Rightarrow> 'tx scan" where
  "scan_json None (m, skipped) = (m, skipped + 1)"
| "scan_json (Some b) (m, skipped) =
     (case map_of m (blk_hash b) of
        Some _ \<Rightarrow> (m, skipped)
      | None \<Rightarrow> (AList.update (blk_hash b) (b, False) m, skipped))"

definition scan_entry :: "('c, 'tx) serde \<Rightarrow> string \<Rightarrow> 'tx scan \<Rightarrow> ('c, 'tx scan) fs" where
  "scan_entry sd n acc =
     (if file_ext n = Some ''cbor''
      then fs_bind (fs_read n) (\<lambda>c. fs_return (scan_cbor (Option.bind c (sd_parse_cbor sd)) acc))
      else if file_ext n = Some ''json''
      then fs_bind (fs_read n) (\<lambda>c. fs_return (scan_json (Option.bind c (sd_parse_json sd)) acc))
      else fs_return acc)"

fun scan_dir :: "('c, 'tx) serde \<Rightarrow> string list \<Rightarrow> 'tx scan \<Rightarrow> ('c, 'tx scan) fs" where
  "scan_dir sd [] acc = fs_return acc"
| "scan_dir sd (n # ns) acc = fs_bind (scan_entry sd n acc) (scan_dir sd ns)"


section \<open>The directory\<close>

subsection \<open>Names\<close>

lemma hex_nonempty: "is_hash32 h \<Longrightarrow> hex_encode h \<noteq> []"
  by (metis hex_encode_inj is_hash32_def length_hex_encode list.size(3) mult_eq_0_iff zero_neq_numeral)

lemma file_ext_names:
  "is_hash32 h \<Longrightarrow> file_ext (block_path h) = Some ''cbor''"
  "is_hash32 h \<Longrightarrow> file_ext (legacy_json_block_path h) = Some ''json''"
  "is_hash32 h \<Longrightarrow> file_ext (hex_encode h @ ''.tmp'') = Some ''tmp''"
  using file_ext_append [of "''cbor''" "hex_encode h"] file_ext_append [of "''json''" "hex_encode h"]
    file_ext_append [of "''tmp''" "hex_encode h"]
  by (simp_all add: hex_nonempty block_path_def legacy_json_block_path_def)

lemma file_ext_fixed:
  "file_ext wal_name = Some ''json''" "file_ext dirty_name = Some ''flag''"
  "file_ext ''wal.pending.tmp'' = Some ''tmp''"
  by (simp_all add: wal_name_def dirty_name_def file_ext_def)

lemma tmp_names:
  "with_ext wal_name ''tmp'' = ''wal.pending.tmp''"
  "is_hash32 h \<Longrightarrow> with_ext (block_path h) ''tmp'' = hex_encode h @ ''.tmp''"
  by (simp_all add: with_ext_def file_ext_fixed file_ext_names) (simp_all add: wal_name_def block_path_def)

lemma block_path_inj [simp]: "block_path a = block_path b \<longleftrightarrow> a = b"
  by (simp add: block_path_def)

definition noise :: "string \<Rightarrow> bool" where
  "noise n \<longleftrightarrow> file_ext n \<noteq> Some ''cbor'' \<and> file_ext n \<noteq> Some ''json''"

lemma noise_names:
  "noise dirty_name" "noise ''wal.pending.tmp''" "is_hash32 h \<Longrightarrow> noise (hex_encode h @ ''.tmp'')"
  by (simp_all add: noise_def file_ext_fixed file_ext_names)

lemma noiseD: "noise n \<Longrightarrow> n \<noteq> wal_name" "noise n \<Longrightarrow> is_hash32 h \<Longrightarrow> n \<noteq> block_path h"
  by (auto simp: noise_def file_ext_fixed file_ext_names)

lemma path_neq:
  "is_hash32 h \<Longrightarrow> block_path h \<noteq> wal_name" "is_hash32 h \<Longrightarrow> legacy_json_block_path h \<noteq> wal_name"
  "is_hash32 h \<Longrightarrow> legacy_json_block_path h \<noteq> block_path h'"
proof -
  assume h: "is_hash32 h"
  have len: "length wal_name = 16" by (simp add: wal_name_def)
  have "length (block_path h) = 69" "length (legacy_json_block_path h) = 69"
    using h by (simp_all add: is_hash32_def block_path_def legacy_json_block_path_def)
  with len show "block_path h \<noteq> wal_name" "legacy_json_block_path h \<noteq> wal_name" by auto
  show "legacy_json_block_path h \<noteq> block_path h'"
    using arg_cong [of "legacy_json_block_path h" "block_path h'" last]
    by (auto simp: legacy_json_block_path_def block_path_def)
qed

subsection \<open>The blocks a recovery finds\<close>

text \<open>The documented contract of the serialisers: what they write, they read back.\<close>

definition serde_ok :: "('c, 'tx) serde \<Rightarrow> bool" where
  "serde_ok sd \<longleftrightarrow> (\<forall>b. \<exists>c. sd_block sd b = Inr c \<and> sd_parse_cbor sd c = Some b)
     \<and> (\<forall>p. \<exists>c. sd_plan sd p = Some c \<and> sd_parse_plan sd c = Some p)"

definition on_disk :: "('c, 'tx) serde \<Rightarrow> 'c dir \<Rightarrow> 'tx block set" where
  "on_disk sd f =
     {b. is_hash32 (blk_hash b)
         \<and> (\<exists>c. sd_block sd b = Inr c \<and> f (block_path (blk_hash b)) = Some (Some c))}"

text \<open>Every CBOR file is the file of its block, and there are no legacy files.\<close>

definition dir_ok :: "('c, 'tx) serde \<Rightarrow> 'c dir \<Rightarrow> bool" where
  "dir_ok sd f \<longleftrightarrow>
     (\<forall>n. f n \<noteq> None \<longrightarrow> file_ext n = Some ''cbor'' \<longrightarrow> (\<exists>b\<in>on_disk sd f. n = block_path (blk_hash b)))
     \<and> (\<forall>n. f n \<noteq> None \<longrightarrow> file_ext n = Some ''json'' \<longrightarrow> n = wal_name)"

definition without :: "'tx block set \<Rightarrow> header_hash set \<Rightarrow> 'tx block set" where
  "without S H = {b \<in> S. blk_hash b \<notin> H}"

definition wal_hashes :: "('c, 'tx) serde \<Rightarrow> 'c dir \<Rightarrow> header_hash set" where
  "wal_hashes sd f =
     (case Option.bind (f wal_name) (\<lambda>c. Option.bind c (sd_parse_plan sd)) of
        None \<Rightarrow> {}
      | Some plan \<Rightarrow> set (List.map_filter hex_decode_hash (wp_hashes plan)))"

definition durable :: "('c, 'tx) serde \<Rightarrow> 'c dir \<Rightarrow> 'tx block set" where
  "durable sd f = without (on_disk sd f) (wal_hashes sd f)"

definition safe :: "('c, 'tx) serde \<Rightarrow> 'tx block set set \<Rightarrow> 'c dir \<Rightarrow> bool" where
  "safe sd T f \<longleftrightarrow> dir_ok sd f \<and> durable sd f \<in> T"

definition holds :: "('c, 'tx) serde \<Rightarrow> 'tx block set \<Rightarrow> 'c dir \<Rightarrow> bool" where
  "holds sd S f \<longleftrightarrow> dir_ok sd f \<and> on_disk sd f = S \<and> f wal_name = None"

lemma without_empty [simp]: "without S {} = S"
  by (simp add: without_def)

lemma holds_safe: "holds sd S f \<Longrightarrow> S \<in> T \<Longrightarrow> safe sd T f"
  by (simp add: holds_def safe_def durable_def wal_hashes_def)

lemma safe_holds: "safe sd {S} f \<Longrightarrow> f wal_name = None \<Longrightarrow> holds sd S f"
  by (simp add: holds_def safe_def durable_def wal_hashes_def)

lemma noise_upd:
  assumes "noise n"
  shows "on_disk sd (f(n := x)) = on_disk sd f" "wal_hashes sd (f(n := x)) = wal_hashes sd f"
    "dir_ok sd f \<Longrightarrow> dir_ok sd (f(n := x))" "holds sd S f \<Longrightarrow> holds sd S (f(n := x))"
    "safe sd T f \<Longrightarrow> safe sd T (f(n := x))"
proof -
  have neq: "n \<noteq> wal_name" "\<And>h. is_hash32 h \<Longrightarrow> n \<noteq> block_path h" using noiseD [OF assms] by auto
  show 1: "on_disk sd (f(n := x)) = on_disk sd f" using neq(2) by (auto simp: on_disk_def)
  show 2: "wal_hashes sd (f(n := x)) = wal_hashes sd f" using neq(1) by (simp add: wal_hashes_def)
  show 3: "dir_ok sd (f(n := x))" if "dir_ok sd f"
    using that assms by (simp add: dir_ok_def 1 noise_def)
  show "holds sd S f \<Longrightarrow> holds sd S (f(n := x))" using 1 3 neq(1) by (simp add: holds_def)
  show "safe sd T f \<Longrightarrow> safe sd T (f(n := x))" using 1 2 3 by (simp add: safe_def durable_def)
qed

lemma serde_okD: "serde_ok sd \<Longrightarrow> sd_block sd b = Inr c \<Longrightarrow> sd_parse_cbor sd c = Some b"
  unfolding serde_ok_def by (metis Inr_inject)

lemma on_disk_unique:
  assumes "serde_ok sd" "b \<in> on_disk sd f" "b' \<in> on_disk sd f" "blk_hash b = blk_hash b'"
  shows "b = b'"
proof -
  from assms(2,3,4) obtain c where "sd_block sd b = Inr c" "sd_block sd b' = Inr c"
    by (auto simp: on_disk_def)
  with serde_okD [OF assms(1)] show ?thesis by (metis option.inject)
qed

lemma on_disk_write:
  assumes "serde_ok sd" "is_hash32 (blk_hash b)" "sd_block sd b = Inr c"
  shows "on_disk sd (f(block_path (blk_hash b) \<mapsto> Some c)) = insert b (without (on_disk sd f) {blk_hash b})"
proof -
  have eq: "sd_block sd b' = Inr c \<longleftrightarrow> b' = b" for b'
    using serde_okD [OF assms(1,3)] serde_okD [OF assms(1), of b' c] assms(3) by (metis option.inject)
  show ?thesis
  proof (rule set_eqI)
    fix b'
    show "b' \<in> on_disk sd (f(block_path (blk_hash b) \<mapsto> Some c))
        \<longleftrightarrow> b' \<in> insert b (without (on_disk sd f) {blk_hash b})"
      using assms(2,3)
      by (cases "blk_hash b' = blk_hash b") (auto simp: on_disk_def without_def eq)
  qed
qed

lemma on_disk_remove:
  "is_hash32 h \<Longrightarrow> on_disk sd (f(block_path h := None)) = without (on_disk sd f) {h}"
  by (auto simp: on_disk_def without_def)

lemma dir_ok_write:
  assumes "serde_ok sd" "dir_ok sd f" "is_hash32 (blk_hash b)" "sd_block sd b = Inr c"
  shows "dir_ok sd (f(block_path (blk_hash b) \<mapsto> Some c))"
proof -
  have "\<exists>b'\<in>insert b (without (on_disk sd f) {blk_hash b}). n = block_path (blk_hash b')"
    if "(f(block_path (blk_hash b) \<mapsto> Some c)) n \<noteq> None" "file_ext n = Some ''cbor''" for n
  proof (cases "n = block_path (blk_hash b)")
    case False
    with that assms(2) obtain b' where "b' \<in> on_disk sd f" "n = block_path (blk_hash b')"
      unfolding dir_ok_def by auto
    with False show ?thesis by (auto simp: without_def)
  qed simp
  moreover have "n = wal_name"
    if "(f(block_path (blk_hash b) \<mapsto> Some c)) n \<noteq> None" "file_ext n = Some ''json''" for n
    using that assms(2) file_ext_names(1) [OF assms(3)] unfolding dir_ok_def by (auto split: if_splits)
  ultimately show ?thesis unfolding dir_ok_def on_disk_write [OF assms(1,3,4)] by blast
qed

lemma dir_ok_remove:
  assumes "dir_ok sd f" "is_hash32 h"
  shows "dir_ok sd (f(block_path h := None))"
proof -
  have "\<exists>b\<in>without (on_disk sd f) {h}. n = block_path (blk_hash b)"
    if n: "(f(block_path h := None)) n \<noteq> None" "file_ext n = Some ''cbor''" for n
  proof -
    from n assms(1) obtain b where "b \<in> on_disk sd f" "n = block_path (blk_hash b)"
      unfolding dir_ok_def by (auto split: if_splits)
    with n(1) show ?thesis by (auto simp: without_def split: if_splits)
  qed
  with assms(1) show ?thesis unfolding dir_ok_def on_disk_remove [OF assms(2)] by (auto split: if_splits)
qed

lemma wal_neq_path: "is_hash32 h \<Longrightarrow> (f(block_path h := x)) wal_name = f wal_name"
  by (simp add: path_neq(1) [symmetric])

lemma on_disk_wal: "on_disk sd (f(wal_name := x)) = on_disk sd f"
  using path_neq(1) by (auto simp: on_disk_def)

lemma dir_ok_wal: "dir_ok sd f \<Longrightarrow> dir_ok sd (f(wal_name := x))"
  by (auto simp: dir_ok_def on_disk_wal file_ext_fixed)

lemma wal_hashes_written:
  assumes "sd_parse_plan sd c = Some plan" "wp_hashes plan = map hex_encode hs" "\<forall>h\<in>set hs. is_hash32 h"
  shows "wal_hashes sd (f(wal_name \<mapsto> Some c)) = set hs"
proof -
  have "List.map_filter hex_decode_hash (map hex_encode hs) = hs"
    using assms(3) by (induction hs) (simp_all add: hex_decode_encode)
  with assms(1,2) show ?thesis by (simp add: wal_hashes_def)
qed



lemma no_legacy_file: "dir_ok sd f \<Longrightarrow> is_hash32 h \<Longrightarrow> f(legacy_json_block_path h := None) = f"
  using path_neq(2) [of h] file_ext_names(2) [of h] unfolding dir_ok_def by (metis fun_upd_triv)

lemma without_without [simp]: "without (without S A) B = without S (A \<union> B)"
  by (auto simp: without_def)

lemma triple_flag_set:
  "(\<And>f. holds sd S f \<Longrightarrow> C f) \<Longrightarrow> crash_triple (holds sd S) mark_dirty C (\<lambda>ok f. ok \<and> holds sd S f)"
  by (rule triple_mark_dirty) (auto intro!: noise_upd noise_names)

lemma triple_flag_clear:
  "(\<And>f. holds sd S f \<Longrightarrow> C f) \<Longrightarrow> crash_triple (holds sd S) mark_clean C (\<lambda>_. holds sd S)"
  by (rule triple_mark_clean) (auto intro!: noise_upd noise_names)

lemma triple_write_block:
  assumes sd: "serde_ok sd" and b: "is_hash32 (blk_hash b)" "blk_hash b \<notin> blk_hash ` S" "sd_block sd b = Inr c"
    and C: "\<And>f. holds sd S f \<Longrightarrow> C f" "\<And>f. holds sd (insert b S) f \<Longrightarrow> C f"
  shows "crash_triple (holds sd S) (atomic_write_file (block_path (blk_hash b)) c) C
    (\<lambda>ok f. ok \<and> holds sd (insert b S) f)"
proof (rule triple_atomic_write [OF tmp_names(2) [OF b(1)]])
  let ?t = "hex_encode (blk_hash b) @ ''.tmp''"
  have tmp: "noise ?t" by (rule noise_names(3) [OF b(1)])
  show "?t \<noteq> block_path (blk_hash b)" by (simp add: block_path_def)
  have wrote: "holds sd (insert b S) (f(?t := None, block_path (blk_hash b) \<mapsto> Some c))"
    if f: "holds sd S f" for f
  proof -
    have "holds sd S (f(?t := None))" by (rule noise_upd(4) [OF tmp f])
    moreover have "without S {blk_hash b} = S" using b(2) by (auto simp: without_def image_iff)
    ultimately show ?thesis
      using wal_neq_path [OF b(1), of "f(?t := None)"]
      by (simp add: holds_def on_disk_write [OF sd b(1,3)] dir_ok_write [OF sd _ b(1,3)])
  qed
  fix f x assume f: "holds sd S f"
  show "C f \<and> C (f(?t \<mapsto> x)) \<and> C (f(?t := None, block_path (blk_hash b) \<mapsto> Some c))"
    using C(1) [OF f] C(1) [OF noise_upd(4) [OF tmp f]] C(2) [OF wrote [OF f]] by simp
  from wrote [OF f] show "True \<and> holds sd (insert b S) (f(?t := None, block_path (blk_hash b) \<mapsto> Some c))"
    by simp
qed

lemma tmp_noise: "file_ext n = Some ''tmp'' \<Longrightarrow> noise n"
  by (simp add: noise_def)


section \<open>An index by hash\<close>

definition hash_index :: "'tx block list \<Rightarrow> header_hash \<rightharpoonup> 'tx block" where
  "hash_index bs = map_of (map (\<lambda>b. (blk_hash b, b)) bs)"

lemma hash_index_find: "hash_index bs h = List.find (\<lambda>b. blk_hash b = h) bs"
  by (induction bs) (auto simp: hash_index_def)

lemma hash_index_mem: "hashes_ok bs \<Longrightarrow> b \<in> set bs \<Longrightarrow> hash_index bs (blk_hash b) = Some b"
  by (auto simp: hash_index_def hashes_ok_def o_def)

lemma hash_index_None: "hash_index bs h = None \<longleftrightarrow> h \<notin> blk_hash ` set bs"
  by (auto simp: hash_index_find find_None_iff)

lemma hash_index_drop: "drop_hashes hs (hash_index bs) = hash_index (filter (\<lambda>b. blk_hash b \<notin> set hs) bs)"
proof
  fix h
  show "drop_hashes hs (hash_index bs) h = hash_index (filter (\<lambda>b. blk_hash b \<notin> set hs) bs) h"
    unfolding hash_index_find by (induction bs) (auto simp: drop_hashes_def restrict_map_def hash_index_find)
qed

lemma hash_index_snoc:
  "blk_hash b \<notin> blk_hash ` set bs \<Longrightarrow> (hash_index bs)(blk_hash b \<mapsto> b) = hash_index (bs @ [b])"
proof
  fix h assume "blk_hash b \<notin> blk_hash ` set bs"
  then show "((hash_index bs)(blk_hash b \<mapsto> b)) h = hash_index (bs @ [b]) h"
    unfolding hash_index_find by (induction bs) (auto simp: hash_index_find)
qed

lemma map_filter_hashes:
  "hashes_ok bs \<Longrightarrow> set cs \<subseteq> set bs \<Longrightarrow> List.map_filter (hash_index bs) (map blk_hash cs) = cs"
  by (induction cs) (auto simp: hash_index_mem map_filter_simps)

lemma position_hashes: "position (\<lambda>h. h = x) (map blk_hash bs) = position (\<lambda>b. blk_hash b = x) bs"
  by (induction bs) auto

lemma filter_hashes_split:
  assumes "hashes_ok bs"
  shows "filter (\<lambda>b. blk_hash b \<notin> set (map blk_hash (take k bs))) bs = drop k bs"
    "filter (\<lambda>b. blk_hash b \<notin> set (map blk_hash (drop k bs))) bs = take k bs"
proof -
  have eq: "bs = take k bs @ drop k bs" by simp
  have out: "blk_hash b \<notin> blk_hash ` set (take k bs)" if "b \<in> set (drop k bs)" for b
    using hashes_ok_disjoint [of "take k bs" "drop k bs"] assms that by auto
  have out': "blk_hash b \<notin> blk_hash ` set (drop k bs)" if "b \<in> set (take k bs)" for b
    using hashes_ok_disjoint [of "take k bs" "drop k bs"] assms that by force
  have "filter P bs = filter P (take k bs) @ filter P (drop k bs)" for P
    by (metis eq filter_append)
  with out out' show "filter (\<lambda>b. blk_hash b \<notin> set (map blk_hash (take k bs))) bs = drop k bs"
    "filter (\<lambda>b. blk_hash b \<notin> set (map blk_hash (drop k bs))) bs = take k bs"
    by (simp_all add: filter_empty_conv)
qed

lemma set_filter_hashes: "set (filter (\<lambda>b. blk_hash b \<notin> set hs) bs) = without (set bs) (set hs)"
  by (auto simp: without_def)



section \<open>The scan\<close>

text \<open>The scan changes nothing; what it reads is a fold over the names.\<close>

definition scan_read :: "('c, 'tx) serde \<Rightarrow> 'c dir \<Rightarrow> string \<Rightarrow> 'tx scan \<Rightarrow> 'tx scan" where
  "scan_read sd g n acc =
     (let c = Option.bind (g n) (\<lambda>c. c)
      in if file_ext n = Some ''cbor'' then scan_cbor (Option.bind c (sd_parse_cbor sd)) acc
         else if file_ext n = Some ''json'' then scan_json (Option.bind c (sd_parse_json sd)) acc
         else acc)"

lemma triple_scan:
  assumes "C g"
  shows "crash_triple (\<lambda>f. f = g) (scan_dir sd ns acc) C (\<lambda>x f. x = fold (scan_read sd g) ns acc \<and> f = g)"
proof (induction ns arbitrary: acc)
  case Nil
  then show ?case by (simp add: triple_return)
next
  case (Cons n ns)
  have read: "crash_triple (\<lambda>f. f = g) (fs_bind (fs_read n) (\<lambda>c. fs_return (h c))) C
      (\<lambda>x f. x = h (Option.bind (g n) (\<lambda>c. c)) \<and> f = g)" for h :: "'a option \<Rightarrow> 'b scan"
    by (rule triple_bind [where R = "\<lambda>c f. c = Option.bind (g n) (\<lambda>c. c) \<and> f = g"])
      (auto intro!: triple_read triple_return simp: assms)
  have "crash_triple (\<lambda>f. f = g) (scan_entry sd n acc) C (\<lambda>x f. x = scan_read sd g n acc \<and> f = g)"
    using read [of "\<lambda>c. scan_cbor (Option.bind c (sd_parse_cbor sd)) acc"]
      read [of "\<lambda>c. scan_json (Option.bind c (sd_parse_json sd)) acc"]
    by (simp add: scan_entry_def scan_read_def triple_return)
  moreover have "crash_triple (\<lambda>f. x = scan_read sd g n acc \<and> f = g) (scan_dir sd ns x) C
      (\<lambda>y f. y = fold (scan_read sd g) (n # ns) acc \<and> f = g)" for x
    by (rule triple_pre) (simp add: Cons.IH)
  ultimately show ?case unfolding scan_dir.simps by (rule triple_bind)
qed

definition scanned :: "('c, 'tx) serde \<Rightarrow> 'c dir \<Rightarrow> string set \<Rightarrow> 'tx scan \<Rightarrow> bool" where
  "scanned sd g ns sc \<longleftrightarrow> snd sc = 0 \<and> distinct (map fst (fst sc))
     \<and> set (fst sc) = {(blk_hash b, b, True) | b. b \<in> on_disk sd g \<and> block_path (blk_hash b) \<in> ns}"

lemma scanned_step:
  assumes sd: "serde_ok sd" and g: "dir_ok sd g" "g wal_name = None"
    and n: "g n \<noteq> None" "n \<notin> ns" and sc: "scanned sd g ns sc"
  shows "scanned sd g (insert n ns) (scan_read sd g n sc)"
proof (cases "file_ext n = Some ''cbor''")
  case True
  with g(1) n(1) obtain b where b: "b \<in> on_disk sd g" "n = block_path (blk_hash b)"
    unfolding dir_ok_def by blast
  then obtain c where c: "sd_block sd b = Inr c" "g n = Some (Some c)" by (auto simp: on_disk_def)
  obtain m k where sc': "sc = (m, k)" by fastforce
  have fresh: "blk_hash b \<notin> fst ` set m" using sc n(2) b(2) by (auto simp: scanned_def sc')
  then have "map_of m (blk_hash b) = None" by (simp add: map_of_eq_None_iff)
  with True c serde_okD [OF sd c(1)] have read: "scan_read sd g n sc = (AList.update (blk_hash b) (b, True) m, k)"
    by (simp add: scan_read_def sc')
  have "AList.update (blk_hash b) (b, True) m = m @ [(blk_hash b, b, True)]"
    using fresh by (induction m) auto
  with read sc b fresh on_disk_unique [OF sd] show ?thesis
    by (auto simp: scanned_def sc')
next
  case False
  have "file_ext n \<noteq> Some ''json''" using g n(1) unfolding dir_ok_def by metis
  moreover have "n \<noteq> block_path (blk_hash b)" if "b \<in> on_disk sd g" for b
    using that False file_ext_names(1) by (auto simp: on_disk_def)
  ultimately show ?thesis using False sc by (auto simp: scanned_def scan_read_def Let_def)
qed

lemma scanned_fold:
  assumes "serde_ok sd" "dir_ok sd g" "g wal_name = None" "scanned sd g ns sc"
    "distinct names" "\<forall>n\<in>set names. g n \<noteq> None" "ns \<inter> set names = {}"
  shows "scanned sd g (ns \<union> set names) (fold (scan_read sd g) names sc)"
  using assms(4-7)
proof (induction names arbitrary: ns sc)
  case (Cons n names)
  from scanned_step [OF assms(1-3), of n ns sc] Cons.prems
  have "scanned sd g (insert n ns) (scan_read sd g n sc)" by auto
  with Cons.IH [of "insert n ns" "scan_read sd g n sc"] Cons.prems show ?case by auto
qed simp

definition blocks_of_scan :: "'tx scan \<Rightarrow> 'tx block list" where
  "blocks_of_scan sc = sort_key blk_slot (map (\<lambda>(_, b, _). b) (fst sc))"

lemma scan_blocks:
  assumes "serde_ok sd" "holds sd S (map_of fs)" "distinct (map fst fs)"
    and sc_def: "sc = fold (scan_read sd (map_of fs)) (map fst fs) ([], 0)"
  shows "set (blocks_of_scan sc) = S" "hashes_ok (blocks_of_scan sc)" "sorted (map blk_slot (blocks_of_scan sc))"
    "snd sc = 0"
proof -
  let ?bs = "blocks_of_scan sc"
  from assms(2) have g: "dir_ok sd (map_of fs)" "map_of fs wal_name = None" "on_disk sd (map_of fs) = S"
    by (auto simp: holds_def)
  have "scanned sd (map_of fs) (fst ` set fs) sc"
    using scanned_fold [OF assms(1) g(1,2), of "{}" "([], 0)" "map fst fs"] assms(3)
    by (auto simp: scanned_def sc_def map_of_eq_None_iff)
  then have sc: "snd sc = 0" "distinct (map fst (fst sc))"
    and entries: "set (fst sc) = {(blk_hash b, b, True) | b. b \<in> S \<and> block_path (blk_hash b) \<in> fst ` set fs}"
    using g(3) by (auto simp: scanned_def)
  have all: "block_path (blk_hash b) \<in> fst ` set fs" if "b \<in> S" for b
    using that g(3) by (auto simp: on_disk_def dest!: map_of_SomeD intro: rev_image_eqI)
  show S: "set ?bs = S" using all by (force simp: entries blocks_of_scan_def)
  have "map blk_hash (map (\<lambda>(_, b, _). b) (fst sc)) = map fst (fst sc)" using entries by (auto simp: case_prod_beta)
  with sc(2) have "distinct (map blk_hash (map (\<lambda>(_, b, _). b) (fst sc)))" by (simp only:)
  then have "distinct (map blk_hash ?bs)"
    by (simp only: blocks_of_scan_def distinct_map distinct_sort set_sort simp_thms)
  moreover have "is_hash32 (blk_hash b)" if "b \<in> S" for b using that g(3) by (auto simp: on_disk_def)
  ultimately show "hashes_ok ?bs" using S by (auto simp: hashes_ok_def)
  show "sorted (map blk_slot ?bs)" by (simp add: blocks_of_scan_def)
  show "snd sc = 0" by (rule sc(1))
qed

lemma slots_determine_order:
  assumes "set bs = set cs" "sorted (map blk_slot bs)" "hashes_ok bs" "slots_increase cs"
  shows "bs = cs"
proof -
  have cs: "sorted (map blk_slot cs)" "distinct (map blk_slot cs)"
    using assms(4) by (simp_all add: slots_increase_def strict_sorted_iff)
  then have inj: "inj_on blk_slot (set cs)" by (simp add: distinct_map)
  have "distinct (map blk_slot bs)"
    using assms(1,3) inj by (auto simp: hashes_ok_def distinct_map)
  with cs assms(1,2) have "map blk_slot bs = map blk_slot cs"
    by (intro sorted_distinct_set_unique) auto
  with inj assms(1) show ?thesis by (metis map_inj_on sup.idem)
qed

definition tagged_serde :: "('tx block + wal_plan, 'tx) serde" where
  "tagged_serde =
     \<lparr>sd_block = (\<lambda>b. Inr (Inl b)), sd_parse_cbor = (\<lambda>c. case c of Inl b \<Rightarrow> Some b | Inr _ \<Rightarrow> None),
      sd_parse_json = (\<lambda>_. None), sd_plan = (\<lambda>p. Some (Inr p)),
      sd_parse_plan = (\<lambda>c. case c of Inl _ \<Rightarrow> None | Inr p \<Rightarrow> Some p)\<rparr>"

lemma tagged_serde_ok: "serde_ok tagged_serde"
  by (simp add: serde_ok_def tagged_serde_def)

definition block_at :: "nat \<Rightarrow> unit block" where
  "block_at k =
     \<lparr>blk_era = Byron, blk_header = \<lparr>bh_hash = replicate 32 (of_nat k), bh_prev_hash = replicate 32 0,
        bh_slot_no = of_nat k, bh_block_no = of_nat k, bh_issuer_vkey = replicate 32 0,
        bh_protocol_version = None\<rparr>,
      blk_transactions = [], blk_raw_cbor = None, blk_header_cbor_size = None\<rparr>"

end
