(* ===== verification/FileVolatile.thy ===== *)
theory FileVolatile
  imports BlockFiles
begin

text \<open>
  The file-backed volatile store, \<open>src/crates/storage/src/file_volatile.rs\<close>: one file for each
  block, a dirty flag around every change, and a write-ahead log that lists the blocks a change is
  about to delete, so that a recovery can finish the deletion.

  The store meets the contract \<open>volatile_store\<close>, and every change is atomic with respect to
  crashes: recovery finds the blocks from before the change or the blocks from after it.
\<close>

section \<open>Model\<close>

record 'tx file_volatile =
  fv_chain :: "header_hash list"
  fv_index :: "header_hash \<rightharpoonup> 'tx block"
  fv_skipped_on_open :: nat

definition write_delete_wal ::
    "('c, 'tx) serde \<Rightarrow> string \<Rightarrow> header_hash list \<Rightarrow> ('c, bool) fs" where
  "write_delete_wal sd operation hashes =
     (if hashes = [] then fs_return True
      else case sd_plan sd \<lparr>wp_version = 1, wp_operation = operation, wp_hashes = map hex_encode hashes\<rparr> of
          None \<Rightarrow> fs_return False
        | Some c \<Rightarrow> atomic_write_file wal_name c)"

definition clear_delete_wal :: "('c, bool) fs" where
  "clear_delete_wal = fs_bind (fs_remove wal_name) (\<lambda>_. fs_sync)"

definition remove_block_files :: "header_hash \<Rightarrow> ('c, bool) fs" where
  "remove_block_files h =
     fs_bind (fs_remove (block_path h)) (\<lambda>_. fs_remove (legacy_json_block_path h))"

definition fv_add_block ::
    "('c, 'tx) serde \<Rightarrow> 'tx file_volatile \<Rightarrow> 'tx block
       \<Rightarrow> ('c, 'tx file_volatile \<times> (storage_error, unit) result) fs" where
  "fv_add_block sd fv b =
     (if fv_index fv (blk_hash b) \<noteq> None then fs_return (fv, Err (DuplicateBlock (blk_hash b)))
      else fs_bind mark_dirty (\<lambda>ok.
        if \<not> ok then fs_return (fv, Err Io)
        else case sd_block sd b of
            Inl e \<Rightarrow> fs_return (fv, Err (Serialization e))
          | Inr c \<Rightarrow> fs_bind (atomic_write_file (block_path (blk_hash b)) c) (\<lambda>ok.
              if \<not> ok then fs_return (fv, Err Io)
              else fs_bind mark_clean (\<lambda>_. fs_return
                (fv\<lparr>fv_chain := fv_chain fv @ [blk_hash b],
                    fv_index := (fv_index fv)(blk_hash b \<mapsto> b)\<rparr>, Ok ())))))"

definition fv_get_block :: "'tx file_volatile \<Rightarrow> header_hash \<Rightarrow> 'tx block option" where
  "fv_get_block fv h = fv_index fv h"

fun fv_lookup_all :: "(header_hash \<rightharpoonup> 'tx block) \<Rightarrow> header_hash list \<Rightarrow> (storage_error, 'tx block list) result" where
  "fv_lookup_all ix [] = Ok []"
| "fv_lookup_all ix (h # hs) =
     and_then (ok_or (ix h) PointNotFound) (\<lambda>b. map_ok ((#) b) (fv_lookup_all ix hs))"

fun fv_prefix_up_to :: "'tx file_volatile \<Rightarrow> point \<Rightarrow> (storage_error, 'tx block list) result" where
  "fv_prefix_up_to fv Origin = Ok []"
| "fv_prefix_up_to fv (BlockPoint s hash) =
     and_then (ok_or (position (\<lambda>h. h = hash) (fv_chain fv)) PointNotFound)
       (\<lambda>pos. fv_lookup_all (fv_index fv) (take (pos + 1) (fv_chain fv)))"

fun fv_prune_up_to ::
    "('c, 'tx) serde \<Rightarrow> 'tx file_volatile \<Rightarrow> point
       \<Rightarrow> ('c, 'tx file_volatile \<times> (storage_error, unit) result) fs" where
  "fv_prune_up_to sd fv Origin = fs_return (fv, Ok ())"
| "fv_prune_up_to sd fv (BlockPoint s hash) =
     fs_bind mark_dirty (\<lambda>ok.
       if \<not> ok then fs_return (fv, Err Io)
       else case position (\<lambda>h. h = hash) (fv_chain fv) of
           None \<Rightarrow> fs_return (fv, Err PointNotFound)
         | Some pos \<Rightarrow>
             (let removed = take (pos + 1) (fv_chain fv);
                  fv1 = fv\<lparr>fv_chain := drop (pos + 1) (fv_chain fv)\<rparr>;
                  fv2 = fv1\<lparr>fv_index := drop_hashes removed (fv_index fv)\<rparr>
              in fs_bind (write_delete_wal sd ''prune_up_to'' removed) (\<lambda>ok.
                 if \<not> ok then fs_return (fv1, Err Io)
                 else fs_bind (fs_each remove_block_files removed) (\<lambda>_.
                      fs_bind clear_delete_wal (\<lambda>ok.
                      if \<not> ok then fs_return (fv2, Err Io)
                      else fs_bind mark_clean (\<lambda>_. fs_return (fv2, Ok ())))))))"

text \<open>Rollback and garbage collection ignore I/O errors.\<close>

definition delete_ignoring_errors ::
    "('c, 'tx) serde \<Rightarrow> string \<Rightarrow> header_hash list \<Rightarrow> 'a \<Rightarrow> ('c, 'a) fs" where
  "delete_ignoring_errors sd operation removed result =
     fs_bind mark_dirty (\<lambda>_.
     fs_bind (write_delete_wal sd operation removed) (\<lambda>_.
     fs_bind (fs_each remove_block_files removed) (\<lambda>_.
     fs_bind clear_delete_wal (\<lambda>_.
     fs_bind mark_clean (\<lambda>_. fs_return result)))))"

fun fv_rollback_to ::
    "('c, 'tx) serde \<Rightarrow> 'tx file_volatile \<Rightarrow> point \<Rightarrow> ('c, 'tx file_volatile) fs" where
  "fv_rollback_to sd fv Origin =
     delete_ignoring_errors sd ''rollback_to_origin'' (fv_chain fv)
       (fv\<lparr>fv_chain := [], fv_index := Map.empty\<rparr>)"
| "fv_rollback_to sd fv (BlockPoint s hash) =
     (case position (\<lambda>h. h = hash) (fv_chain fv) of
        None \<Rightarrow> fs_return fv
      | Some pos \<Rightarrow>
          (let removed = drop (pos + 1) (fv_chain fv)
           in delete_ignoring_errors sd ''rollback_to_point'' removed
                (fv\<lparr>fv_chain := take (pos + 1) (fv_chain fv),
                    fv_index := drop_hashes removed (fv_index fv)\<rparr>)))"

text \<open>\<open>self.index[hash]\<close> panics when the hash is not there.\<close>

definition fv_tip :: "'tx file_volatile \<Rightarrow> (storage_error, point) result" where
  "fv_tip fv =
     (if fv_chain fv = [] then Ok Origin
      else case fv_index fv (last (fv_chain fv)) of Some b \<Rightarrow> Ok (point_for_block b) | None \<Rightarrow> Panic)"

fun fv_suffix_after :: "'tx file_volatile \<Rightarrow> point \<Rightarrow> 'tx block list" where
  "fv_suffix_after fv Origin = List.map_filter (fv_index fv) (fv_chain fv)"
| "fv_suffix_after fv (BlockPoint s hash) =
     (case position (\<lambda>h. h = hash) (fv_chain fv) of
        None \<Rightarrow> []
      | Some pos \<Rightarrow>
          if pos + 1 \<ge> length (fv_chain fv) then []
          else List.map_filter (fv_index fv) (drop (pos + 1) (fv_chain fv)))"

definition fv_garbage_collect ::
    "('c, 'tx) serde \<Rightarrow> 'tx file_volatile \<Rightarrow> slot_no \<Rightarrow> ('c, 'tx file_volatile \<times> nat) fs" where
  "fv_garbage_collect sd fv slot =
     (let to_remove = filter (\<lambda>h. case fv_index fv h of Some b \<Rightarrow> blk_slot b < slot | None \<Rightarrow> False)
                        (fv_chain fv)
      in if to_remove = [] then fs_return (fv, 0)
         else delete_ignoring_errors sd ''garbage_collect'' to_remove
                (fv\<lparr>fv_chain := filter (\<lambda>h. h \<notin> set to_remove) (fv_chain fv),
                    fv_index := drop_hashes to_remove (fv_index fv)\<rparr>, length to_remove))"

definition fv_block_count :: "'tx file_volatile \<Rightarrow> nat" where
  "fv_block_count fv = length (fv_chain fv)"

subsection \<open>Opening\<close>

definition recover_wal :: "('c, 'tx) serde \<Rightarrow> ('c, bool) fs" where
  "recover_wal sd =
     fs_bind (fs_read wal_name) (\<lambda>c.
     fs_bind (case Option.bind c (sd_parse_plan sd) of
                None \<Rightarrow> fs_return ()
              | Some plan \<Rightarrow>
                  fs_each (\<lambda>hash_hex. case hex_decode_hash hash_hex of
                      Some h \<Rightarrow> remove_block_files h
                    | None \<Rightarrow> fs_return False) (wp_hashes plan)) (\<lambda>_.
     fs_bind (fs_remove wal_name) (\<lambda>_. fs_sync)))"

definition chain_of_scan :: "'tx scan \<Rightarrow> 'tx file_volatile" where
  "chain_of_scan sc =
     (let blocks = sort_key blk_slot (map (\<lambda>(_, b, _). b) (fst sc))
      in \<lparr>fv_chain = map blk_hash blocks, fv_index = map_of (map (\<lambda>b. (blk_hash b, b)) blocks),
          fv_skipped_on_open = snd sc\<rparr>)"

definition fv_open_inner ::
    "('c, 'tx) serde \<Rightarrow> bool \<Rightarrow> ('c, (storage_error, 'tx file_volatile) result) fs" where
  "fv_open_inner sd recover_dirty =
     fs_bind fs_sync (\<lambda>ok.
     if \<not> ok then fs_return (Err Io) else
     fs_bind (fs_get (file_exists dirty_name)) (\<lambda>had_dirty.
     fs_bind (if had_dirty \<and> recover_dirty then remove_tmp_files else fs_return ()) (\<lambda>_.
     fs_bind (fs_get (file_exists wal_name)) (\<lambda>has_wal.
     fs_bind (if recover_dirty \<and> has_wal then recover_wal sd else fs_return True) (\<lambda>_.
     fs_bind fs_sync (\<lambda>ok.
     if \<not> ok then fs_return (Err Io) else
     fs_bind (fs_get (map fst)) (\<lambda>names.
     fs_bind (scan_dir sd names ([], 0)) (\<lambda>sc.
     fs_bind (if had_dirty \<and> recover_dirty then fs_remove dirty_name else fs_return True) (\<lambda>_.
     fs_return (Ok (chain_of_scan sc)))))))))))"

definition fv_open :: "('c, 'tx) serde \<Rightarrow> ('c, (storage_error, 'tx file_volatile) result) fs" where
  "fv_open sd = fv_open_inner sd True"

definition fv_open_read_only :: "('c, 'tx) serde \<Rightarrow> ('c, (storage_error, 'tx file_volatile) result) fs" where
  "fv_open_read_only sd = fv_open_inner sd False"

text \<open>Removal of the files that no block of the store accounts for.\<close>

definition is_orphan :: "'tx file_volatile \<Rightarrow> string \<Rightarrow> bool" where
  "is_orphan fv n \<longleftrightarrow>
     (case file_ext n of
        Some e \<Rightarrow>
          if e = ''cbor'' \<or> e = ''json''
          then (case hex_decode_hash (take (length n - length e - 1) n) of
                  Some h \<Rightarrow> fv_index fv h = None
                | None \<Rightarrow> True)
          else e = ''tmp''
      | None \<Rightarrow> False)"

definition fv_compact :: "'tx file_volatile \<Rightarrow> ('c, (storage_error, nat) result) fs" where
  "fv_compact fv =
     fs_bind fs_sync (\<lambda>ok.
     if \<not> ok then fs_return (Err Io) else
     fs_bind (fs_get (\<lambda>fs. filter (is_orphan fv) (map fst fs))) (\<lambda>orphans.
     fs_bind (fs_each fs_remove orphans) (\<lambda>_. fs_return (Ok (length orphans)))))"



section \<open>Every change is atomic\<close>

text \<open>The log is in place while the files go: \<open>logged\<close> also covers an empty change, which has none.\<close>

definition logged :: "('c, 'tx) serde \<Rightarrow> header_hash list \<Rightarrow> 'c dir \<Rightarrow> bool" where
  "logged sd hs f \<longleftrightarrow> (if hs = [] then f wal_name = None else wal_hashes sd f = set hs)"

lemma logged_hashes: "logged sd hs f \<Longrightarrow> wal_hashes sd f = set hs"
  by (auto simp: logged_def wal_hashes_def split: if_splits)

lemma triple_dirty: "S \<in> T \<Longrightarrow> crash_triple (holds sd S) mark_dirty (safe sd T) (\<lambda>ok f. ok \<and> holds sd S f)"
  by (rule triple_flag_set) (rule holds_safe)

lemma triple_clean: "S \<in> T \<Longrightarrow> crash_triple (holds sd S) mark_clean (safe sd T) (\<lambda>_. holds sd S)"
  by (rule triple_flag_clear) (rule holds_safe)

lemma triple_wal:
  assumes sd: "serde_ok sd" and hs: "\<forall>h\<in>set hs. is_hash32 h"
  shows "crash_triple (holds sd S) (write_delete_wal sd operation hs) (safe sd {S, without S (set hs)})
    (\<lambda>ok f. ok \<and> dir_ok sd f \<and> on_disk sd f = S \<and> logged sd hs f)"
proof (cases "hs = []")
  case True
  then show ?thesis by (auto simp: write_delete_wal_def holds_def logged_def intro: triple_return)
next
  case False
  let ?plan = "\<lparr>wp_version = 1, wp_operation = operation, wp_hashes = map hex_encode hs\<rparr>"
  obtain c where c: "sd_plan sd ?plan = Some c" "sd_parse_plan sd c = Some ?plan"
    using sd unfolding serde_ok_def by blast
  have log: "wal_hashes sd (g(wal_name \<mapsto> Some c)) = set hs" for g
    by (rule wal_hashes_written [OF c(2) _ hs]) (rule wal_plan.select_convs)
  have tmp: "noise ''wal.pending.tmp''" by (rule noise_names)
  have wrote: "dir_ok sd (f(''wal.pending.tmp'' := None, wal_name \<mapsto> Some c))
      \<and> on_disk sd (f(''wal.pending.tmp'' := None, wal_name \<mapsto> Some c)) = S" if "holds sd S f" for f
    using that by (simp add: holds_def dir_ok_wal on_disk_wal noise_upd(1,3) [OF tmp])
  have "crash_triple (holds sd S) (atomic_write_file wal_name c) (safe sd {S, without S (set hs)})
      (\<lambda>ok f. ok \<and> dir_ok sd f \<and> on_disk sd f = S \<and> logged sd hs f)"
  proof (rule triple_atomic_write [OF tmp_names(1)])
    show "''wal.pending.tmp'' \<noteq> wal_name" by (simp add: wal_name_def)
    fix f x assume f: "holds sd S f"
    from wrote [OF f] False show "True \<and> dir_ok sd (f(''wal.pending.tmp'' := None, wal_name \<mapsto> Some c))
      \<and> on_disk sd (f(''wal.pending.tmp'' := None, wal_name \<mapsto> Some c)) = S
      \<and> logged sd hs (f(''wal.pending.tmp'' := None, wal_name \<mapsto> Some c))"
      by (simp add: logged_def log)
    have "safe sd {S, without S (set hs)} (f(''wal.pending.tmp'' := None, wal_name \<mapsto> Some c))"
      using wrote [OF f] by (simp add: safe_def durable_def log)
    moreover have "safe sd {S, without S (set hs)} f" by (rule holds_safe [OF f]) simp
    ultimately show "safe sd {S, without S (set hs)} f \<and> safe sd {S, without S (set hs)} (f(''wal.pending.tmp'' \<mapsto> x))
      \<and> safe sd {S, without S (set hs)} (f(''wal.pending.tmp'' := None, wal_name \<mapsto> Some c))"
      using noise_upd(5) [OF tmp] by blast
  qed
  with False c(1) show ?thesis by (simp add: write_delete_wal_def)
qed

definition dir_state :: "('c, 'tx) serde \<Rightarrow> 'tx block set \<Rightarrow> 'c option option \<Rightarrow> 'c dir \<Rightarrow> bool" where
  "dir_state sd D w f \<longleftrightarrow> dir_ok sd f \<and> on_disk sd f = D \<and> f wal_name = w"

lemma triple_remove_block_files:
  assumes "is_hash32 h" "\<And>f. dir_state sd D w f \<Longrightarrow> C f" "\<And>f. dir_state sd (without D {h}) w f \<Longrightarrow> C f"
  shows "crash_triple (dir_state sd D w) (remove_block_files h) C (\<lambda>_. dir_state sd (without D {h}) w)"
  unfolding remove_block_files_def
proof (rule triple_then [where R = "dir_state sd (without D {h}) w"])
  show "crash_triple (dir_state sd D w) (fs_remove (block_path h)) C (\<lambda>_. dir_state sd (without D {h}) w)"
    using assms(1,2) wal_neq_path [OF assms(1)]
    by (intro triple_remove) (auto simp: dir_state_def dir_ok_remove on_disk_remove)
  show "crash_triple (dir_state sd (without D {h}) w) (fs_remove (legacy_json_block_path h)) C
      (\<lambda>_. dir_state sd (without D {h}) w)"
  proof (rule triple_remove)
    fix f assume f: "dir_state sd (without D {h}) w f"
    then show "C f" by (rule assms(3))
    from f have "dir_ok sd f" by (simp add: dir_state_def)
    from f show "dir_state sd (without D {h}) w (f(legacy_json_block_path h := None))"
      unfolding no_legacy_file [OF \<open>dir_ok sd f\<close> assms(1)] .
  qed
qed

lemma triple_remove_all:
  assumes hs: "\<forall>h\<in>set hs. is_hash32 h"
    and C: "\<And>ys f. set ys \<subseteq> set hs \<Longrightarrow> dir_state sd (without D (set ys)) w f \<Longrightarrow> C f"
  shows "crash_triple (dir_state sd D w) (fs_each remove_block_files hs) C
    (\<lambda>_. dir_state sd (without D (set hs)) w)"
proof -
  have "crash_triple (dir_state sd (without D (set [])) w) (fs_each remove_block_files hs) C
      (\<lambda>_. dir_state sd (without D (set hs)) w)"
  proof (rule triple_each)
    fix ys h zs assume split: "hs = ys @ h # zs"
    have eq: "without (without D (set ys)) {h} = without D (set (ys @ [h]))" by simp
    have "crash_triple (dir_state sd (without D (set ys)) w) (remove_block_files h) C
        (\<lambda>_. dir_state sd (without (without D (set ys)) {h}) w)"
    proof (rule triple_remove_block_files)
      show "is_hash32 h" using hs split by simp
      show "C f" if "dir_state sd (without D (set ys)) w f" for f
        by (rule C [OF _ that]) (use split in auto)
      show "C f" if "dir_state sd (without (without D (set ys)) {h}) w f" for f
        by (rule C [OF _ that [unfolded eq]]) (use split in auto)
    qed
    then show "crash_triple (dir_state sd (without D (set ys)) w) (remove_block_files h) C
        (\<lambda>_. dir_state sd (without D (set (ys @ [h]))) w)"
      unfolding eq .
  qed
  then show ?thesis by simp
qed

lemma triple_remove_blocks:
  assumes hs: "\<forall>h\<in>set hs. is_hash32 h"
  shows "crash_triple (\<lambda>f. dir_ok sd f \<and> on_disk sd f = S \<and> logged sd hs f)
    (fs_each remove_block_files hs) (safe sd {S, without S (set hs)})
    (\<lambda>_ f. dir_ok sd f \<and> on_disk sd f = without S (set hs) \<and> logged sd hs f)"
proof -
  define L where "L = (\<lambda>w. if hs = [] then w = None else wal_hashes sd (\<lambda>_. w) = set hs)"
  have L: "logged sd hs f \<longleftrightarrow> L (f wal_name)" for f by (simp add: logged_def L_def wal_hashes_def)
  have "crash_triple (dir_state sd S w) (fs_each remove_block_files hs)
      (safe sd {S, without S (set hs)}) (\<lambda>_. dir_state sd (without S (set hs)) w)" if "L w" for w
    using logged_hashes [of sd hs] that
    by (intro triple_remove_all [OF hs]) (auto simp: dir_state_def safe_def durable_def L Un_absorb1)
  then have "crash_triple (\<lambda>f. \<exists>w. L w \<and> dir_state sd S w f) (fs_each remove_block_files hs)
      (safe sd {S, without S (set hs)}) (\<lambda>_ f. \<exists>w. L w \<and> dir_state sd (without S (set hs)) w f)"
    by (intro triple_ex triple_pre) (auto intro: triple_weaken)
  then show ?thesis by (rule triple_weaken) (auto simp: dir_state_def L)
qed

lemma triple_clear_wal:
  assumes "without S (set hs) \<in> T"
  shows "crash_triple (\<lambda>f. dir_ok sd f \<and> on_disk sd f = without S (set hs) \<and> logged sd hs f)
    clear_delete_wal (safe sd T) (\<lambda>ok f. ok \<and> holds sd (without S (set hs)) f)"
  unfolding clear_delete_wal_def
proof (rule triple_bind [where R = "\<lambda>_. holds sd (without S (set hs))"])
  show "crash_triple (\<lambda>f. dir_ok sd f \<and> on_disk sd f = without S (set hs) \<and> logged sd hs f)
      (fs_remove wal_name) (safe sd T) (\<lambda>_. holds sd (without S (set hs)))"
  proof (rule triple_remove)
    fix f assume f: "dir_ok sd f \<and> on_disk sd f = without S (set hs) \<and> logged sd hs f"
    then show "safe sd T f" using assms logged_hashes [of sd hs f] by (simp add: safe_def durable_def)
    from f show "holds sd (without S (set hs)) (f(wal_name := None))"
      by (simp add: holds_def dir_ok_wal on_disk_wal)
  qed
qed (use assms in \<open>auto intro!: triple_sync holds_safe\<close>)



section \<open>The store of a list of blocks\<close>

definition fv_of :: "'tx block list \<Rightarrow> nat \<Rightarrow> 'tx file_volatile" where
  "fv_of bs n = \<lparr>fv_chain = map blk_hash bs, fv_index = hash_index bs, fv_skipped_on_open = n\<rparr>"

lemma fv_of_simps [simp]:
  "fv_chain (fv_of bs n) = map blk_hash bs" "fv_index (fv_of bs n) = hash_index bs"
  "fv_skipped_on_open (fv_of bs n) = n"
  "fv_of bs n\<lparr>fv_chain := map blk_hash bs', fv_index := hash_index bs'\<rparr> = fv_of bs' n"
  by (simp_all add: fv_of_def)

lemma lookup_all_hashes:
  "hashes_ok bs \<Longrightarrow> set cs \<subseteq> set bs \<Longrightarrow> fv_lookup_all (hash_index bs) (map blk_hash cs) = Ok cs"
  by (induction cs) (auto simp: hash_index_mem)

lemma triple_add:
  assumes sd: "serde_ok sd" and b: "is_hash32 (blk_hash b)" "blk_hash b \<notin> blk_hash ` set bs"
  shows "crash_triple (holds sd (set bs)) (fv_add_block sd (fv_of bs n) b)
    (safe sd {set bs, set (bs @ [b])})
    (\<lambda>x f. x = (fv_of (bs @ [b]) n, Ok ()) \<and> holds sd (set (bs @ [b])) f)"
proof -
  obtain c where c: "sd_block sd b = Inr c" using sd unfolding serde_ok_def by blast
  have writes: "crash_triple (holds sd (set bs)) (atomic_write_file (block_path (blk_hash b)) c)
      (safe sd {set bs, set (bs @ [b])}) (\<lambda>ok f. ok \<and> holds sd (set (bs @ [b])) f)"
    using triple_write_block [OF sd b c, of "safe sd {set bs, insert b (set bs)}"]
      holds_safe [of sd "set bs" _ "{set bs, insert b (set bs)}"]
      holds_safe [of sd "insert b (set bs)" _ "{set bs, insert b (set bs)}"] by simp
  have fv: "fv_of bs n\<lparr>fv_chain := map blk_hash bs @ [blk_hash b],
      fv_index := (hash_index bs)(blk_hash b \<mapsto> b)\<rparr> = fv_of (bs @ [b]) n"
    by (simp add: fv_of_def hash_index_snoc [OF b(2)])
  have "hash_index bs (blk_hash b) = None" using b(2) by (simp add: hash_index_None)
  then show ?thesis
    unfolding fv_add_block_def fv_of_simps fv c sum.case
    by (auto intro!: triple_bind_ok [OF triple_dirty] triple_bind_ok [OF writes]
        triple_then [OF triple_clean] triple_return simp del: set_append)
qed

text \<open>The deletion protocol, with its I/O errors reported and with them ignored.\<close>

lemma triple_delete_protocol:
  assumes sd: "serde_ok sd" and hs: "\<forall>h\<in>set hs. is_hash32 h"
  shows "crash_triple (holds sd S)
      (fs_bind mark_dirty (\<lambda>ok. if \<not> ok then e1 else
       fs_bind (write_delete_wal sd operation hs) (\<lambda>ok. if \<not> ok then e2 else
       fs_bind (fs_each remove_block_files hs) (\<lambda>_.
       fs_bind clear_delete_wal (\<lambda>ok. if \<not> ok then e3 else
       fs_bind mark_clean (\<lambda>_. fs_return r))))))
      (safe sd {S, without S (set hs)}) (\<lambda>x f. x = r \<and> holds sd (without S (set hs)) f)"
    and "crash_triple (holds sd S) (delete_ignoring_errors sd operation hs r)
      (safe sd {S, without S (set hs)}) (\<lambda>x f. x = r \<and> holds sd (without S (set hs)) f)"
proof -
  let ?C = "safe sd {S, without S (set hs)}" and ?L = "\<lambda>S f. dir_ok sd f \<and> on_disk sd f = S \<and> logged sd hs f"
  have 1: "crash_triple (holds sd S) mark_dirty ?C (\<lambda>ok f. ok \<and> holds sd S f)"
    by (rule triple_dirty) simp
  have 2: "crash_triple (holds sd S) (write_delete_wal sd operation hs) ?C (\<lambda>ok f. ok \<and> ?L S f)"
    by (rule triple_wal [OF sd hs])
  have 3: "crash_triple (?L (without S (set hs))) clear_delete_wal ?C
      (\<lambda>ok f. ok \<and> holds sd (without S (set hs)) f)"
    by (rule triple_clear_wal) simp
  have 4: "crash_triple (holds sd (without S (set hs))) mark_clean ?C (\<lambda>_. holds sd (without S (set hs)))"
    by (rule triple_clean) simp
  show "crash_triple (holds sd S)
      (fs_bind mark_dirty (\<lambda>ok. if \<not> ok then e1 else
       fs_bind (write_delete_wal sd operation hs) (\<lambda>ok. if \<not> ok then e2 else
       fs_bind (fs_each remove_block_files hs) (\<lambda>_.
       fs_bind clear_delete_wal (\<lambda>ok. if \<not> ok then e3 else
       fs_bind mark_clean (\<lambda>_. fs_return r))))))
      ?C (\<lambda>x f. x = r \<and> holds sd (without S (set hs)) f)"
    by (intro triple_bind_ok [OF 1] triple_bind_ok [OF 2] triple_then [OF triple_remove_blocks [OF hs]]
        triple_bind_ok [OF 3] triple_then [OF 4] triple_return) simp
  show "crash_triple (holds sd S) (delete_ignoring_errors sd operation hs r) ?C
      (\<lambda>x f. x = r \<and> holds sd (without S (set hs)) f)"
    unfolding delete_ignoring_errors_def
    by (intro triple_bind_ignore [OF 1] triple_bind_ignore [OF 2] triple_then [OF triple_remove_blocks [OF hs]]
        triple_bind_ignore [OF 3] triple_then [OF 4] triple_return) simp
qed

lemma triple_prune:
  assumes sd: "serde_ok sd" and bs: "hashes_ok bs"
  shows "crash_triple (holds sd (set bs)) (fv_prune_up_to sd (fv_of bs n) p)
    (safe sd {set bs, set (fst (vm_prune_up_to bs p))})
    (\<lambda>x f. x = (fv_of (fst (vm_prune_up_to bs p)) n, snd (vm_prune_up_to bs p))
       \<and> holds sd (set (fst (vm_prune_up_to bs p))) f)"
proof (cases p)
  case Origin
  then show ?thesis by (auto intro: triple_return)
next
  case (BlockPoint s h)
  show ?thesis
  proof (cases "position (\<lambda>b. blk_hash b = h) bs")
    case None
    then show ?thesis
      by (auto simp: BlockPoint position_hashes simp del: position_None_iff
          intro!: triple_bind_ok [OF triple_dirty] triple_return)
  next
    case (Some k)
    let ?hs = "map blk_hash (take (k + 1) bs)"
    have hs: "\<forall>h\<in>set ?hs. is_hash32 h" using bs by (auto simp: hashes_ok_def dest: in_set_takeD)
    have rest: "without (set bs) (set ?hs) = set (drop (k + 1) bs)"
      by (simp only: set_filter_hashes [symmetric] filter_hashes_split(1) [OF bs])
    have fv: "fv_of bs n\<lparr>fv_chain := drop (k + 1) (map blk_hash bs), fv_index := drop_hashes ?hs (hash_index bs)\<rparr>
        = fv_of (drop (k + 1) bs) n"
      by (simp only: hash_index_drop filter_hashes_split(1) [OF bs] drop_map fv_of_simps)
    have vm: "vm_prune_up_to bs (BlockPoint s h) = (drop (k + 1) bs, Ok ())" using Some by simp
    show ?thesis
      unfolding BlockPoint vm fv_prune_up_to.simps fv_of_simps position_hashes Some option.case Let_def
        fst_conv snd_conv take_map fv rest [symmetric]
      by (rule triple_delete_protocol(1) [OF sd hs])
  qed
qed


lemma triple_rollback:
  assumes sd: "serde_ok sd" and bs: "hashes_ok bs"
  shows "crash_triple (holds sd (set bs)) (fv_rollback_to sd (fv_of bs n) p)
    (safe sd {set bs, set (vm_rollback_to bs p)})
    (\<lambda>x f. x = fv_of (vm_rollback_to bs p) n \<and> holds sd (set (vm_rollback_to bs p)) f)"
proof (cases p)
  case Origin
  have hs: "\<forall>h\<in>set (map blk_hash bs). is_hash32 h" using bs by (auto simp: hashes_ok_def)
  have none: "without (set bs) (set (map blk_hash bs)) = {}" by (auto simp: without_def)
  have fv: "fv_of bs n\<lparr>fv_chain := [], fv_index := Map.empty\<rparr> = fv_of [] n"
    by (simp add: fv_of_def hash_index_def)
  from triple_delete_protocol(2) [OF sd hs, of "set bs" "''rollback_to_origin''" "fv_of [] n"] show ?thesis
    unfolding none Origin vm_rollback_to.simps fv_rollback_to.simps fv fv_of_simps list.set(1) .
next
  case (BlockPoint s h)
  show ?thesis
  proof (cases "position (\<lambda>b. blk_hash b = h) bs")
    case None
    then show ?thesis
      by (auto simp: BlockPoint position_hashes simp del: position_None_iff intro!: triple_return)
  next
    case (Some k)
    let ?hs = "map blk_hash (drop (k + 1) bs)"
    have hs: "\<forall>h\<in>set ?hs. is_hash32 h" using bs by (auto simp: hashes_ok_def dest: in_set_dropD)
    have rest: "without (set bs) (set ?hs) = set (take (k + 1) bs)"
      by (simp only: set_filter_hashes [symmetric] filter_hashes_split(2) [OF bs])
    have fv: "fv_of bs n\<lparr>fv_chain := map blk_hash (take (k + 1) bs), fv_index := drop_hashes ?hs (hash_index bs)\<rparr>
        = fv_of (take (k + 1) bs) n"
      by (simp only: hash_index_drop filter_hashes_split(2) [OF bs] fv_of_simps)
    show ?thesis
      unfolding BlockPoint vm_rollback_to.simps fv_rollback_to.simps fv_of_simps position_hashes Some
        option.case Let_def take_map drop_map fv rest [symmetric]
      by (rule triple_delete_protocol(2) [OF sd hs])
  qed
qed

lemma triple_gc:
  assumes sd: "serde_ok sd" and bs: "hashes_ok bs"
  shows "crash_triple (holds sd (set bs)) (fv_garbage_collect sd (fv_of bs n) s)
    (safe sd {set bs, set (fst (vm_garbage_collect bs s))})
    (\<lambda>x f. x = (fv_of (fst (vm_garbage_collect bs s)) n, snd (vm_garbage_collect bs s))
       \<and> holds sd (set (fst (vm_garbage_collect bs s))) f)"
proof -
  let ?P = "\<lambda>h. case hash_index bs h of Some b \<Rightarrow> blk_slot b < s | None \<Rightarrow> False"
  let ?old = "filter (\<lambda>b. blk_slot b < s) bs" and ?new = "filter (\<lambda>b. blk_slot b \<ge> s) bs"
  let ?hs = "map blk_hash ?old"
  have old: "filter ?P (map blk_hash bs) = ?hs"
    unfolding filter_map using hash_index_mem [OF bs] by (auto intro!: arg_cong [where f = "map blk_hash"] filter_cong)
  have hs: "\<forall>h\<in>set ?hs. is_hash32 h" using bs by (auto simp: hashes_ok_def)
  have kept: "blk_hash b \<notin> set ?hs \<longleftrightarrow> blk_slot b \<ge> s" if "b \<in> set bs" for b
    using that bs by (auto simp: hashes_ok_def distinct_map inj_on_def not_less)
  then have new: "filter (\<lambda>b. blk_hash b \<notin> set ?hs) bs = ?new" by (rule filter_cong [OF refl])
  have rest: "without (set bs) (set ?hs) = set ?new"
    by (simp only: set_filter_hashes [symmetric] new)
  have chain: "filter (\<lambda>h. h \<notin> set ?hs) (map blk_hash bs) = map blk_hash ?new"
    unfolding filter_map o_def new ..
  have count: "length bs - length ?new = length ?old"
    using sum_length_filter_compl [of "\<lambda>b. blk_slot b < s" bs] by (simp add: not_less)
  show ?thesis
  proof (cases "?hs = []")
    case True
    then have "?new = bs" by (simp add: filter_empty_conv filter_id_conv not_less)
    with True old show ?thesis
      by (auto simp: fv_garbage_collect_def vm_garbage_collect_def Let_def intro: triple_return)
  next
    case False
    have "crash_triple (holds sd (set bs))
        (delete_ignoring_errors sd ''garbage_collect'' ?hs (fv_of ?new n, length ?hs))
        (safe sd {set bs, set ?new}) (\<lambda>x f. x = (fv_of ?new n, length ?hs) \<and> holds sd (set ?new) f)"
      unfolding rest [symmetric] by (rule triple_delete_protocol(2) [OF sd hs])
    with False show ?thesis
      unfolding fv_garbage_collect_def fv_of_simps old Let_def chain hash_index_drop new
        vm_garbage_collect_def fst_conv snd_conv count
      by (simp only: if_False length_map)
  qed
qed

text \<open>A compaction removes only what is not a block.\<close>

lemma orphan_noise:
  assumes bs: "hashes_ok bs" and f: "holds sd (set bs) f" and n: "f n \<noteq> None" "is_orphan (fv_of bs k) n"
  shows "noise n"
proof (rule ccontr)
  assume "\<not> noise n"
  moreover have "file_ext n \<noteq> Some ''json''" using f n(1) unfolding holds_def dir_ok_def by metis
  ultimately have ext: "file_ext n = Some ''cbor''" by (simp add: noise_def)
  with f n(1) obtain b where b: "b \<in> set bs" "n = block_path (blk_hash b)"
    unfolding holds_def dir_ok_def by metis
  with bs have "is_hash32 (blk_hash b)" by (simp add: hashes_ok_def)
  with n(2) ext b hash_index_mem [OF bs b(1)] show False
    by (simp add: is_orphan_def block_path_def hex_decode_encode)
qed

lemma triple_compact:
  assumes bs: "hashes_ok bs"
  shows "crash_triple (holds sd (set bs)) (fv_compact (fv_of bs k)) (holds sd (set bs)) (\<lambda>_. holds sd (set bs))"
proof -
  let ?H = "holds sd (set bs)"
  have sync: "crash_triple ?H fs_sync ?H (\<lambda>ok f. ok \<and> ?H f)" by (rule triple_sync) auto
  have list: "crash_triple ?H (fs_get (\<lambda>fs. filter (is_orphan (fv_of bs k)) (map fst fs))) ?H
      (\<lambda>names f. list_all noise names \<and> ?H f)"
    by (rule triple_get) (auto simp: list_all_iff intro!: orphan_noise [OF bs] simp: map_of_eq_None_iff)
  have each: "crash_triple (\<lambda>f. list_all noise names \<and> ?H f) (fs_each fs_remove names) ?H (\<lambda>_. ?H)" for names
    by (rule triple_pre, rule triple_each) (auto intro!: triple_remove noise_upd(4))
  show ?thesis
    unfolding fv_compact_def
    by (intro triple_bind_ok [OF sync] triple_bind [OF list] triple_then [OF each] triple_return)
qed

lemma fv_reads:
  assumes "hashes_ok bs"
  shows "fv_get_block (fv_of bs n) h = vm_get_block bs h"
    "fv_prefix_up_to (fv_of bs n) p = vm_prefix_up_to bs p"
    "fv_suffix_after (fv_of bs n) p = vm_suffix_after bs p"
    "fv_tip (fv_of bs n) = Ok (last_point bs)"
    "fv_block_count (fv_of bs n) = length bs"
proof -
  show "fv_get_block (fv_of bs n) h = vm_get_block bs h"
    by (simp add: fv_get_block_def vm_get_block_def hash_index_find)
  show "fv_prefix_up_to (fv_of bs n) p = vm_prefix_up_to bs p"
    using lookup_all_hashes [OF assms set_take_subset]
    by (cases p) (auto simp: position_hashes take_map ok_or_def simp del: position_None_iff split: option.split)
  show "fv_suffix_after (fv_of bs n) p = vm_suffix_after bs p"
    using map_filter_hashes [OF assms set_drop_subset] map_filter_hashes [OF assms subset_refl]
    by (cases p) (auto simp: position_hashes drop_map simp del: position_None_iff split: option.split)
  show "fv_tip (fv_of bs n) = Ok (last_point bs)"
    using hash_index_mem [OF assms last_in_set]
    by (auto simp: fv_tip_def last_point_def last_map)
qed (simp add: fv_block_count_def)



section \<open>Opening finds what is durable\<close>

lemma each_decoded:
  "fs_each (\<lambda>x. case hex_decode_hash x of Some h \<Rightarrow> remove_block_files h | None \<Rightarrow> fs_return False) xs
    = fs_each remove_block_files (List.map_filter hex_decode_hash xs)"
  by (induction xs) (simp_all add: map_filter_simps split: option.split)

definition plan_hashes :: "('c, 'tx) serde \<Rightarrow> 'c option \<Rightarrow> header_hash list" where
  "plan_hashes sd c =
     (case Option.bind c (sd_parse_plan sd) of
        None \<Rightarrow> []
      | Some plan \<Rightarrow> List.map_filter hex_decode_hash (wp_hashes plan))"

lemma wal_hashes_plan: "wal_hashes sd f = set (plan_hashes sd (Option.bind (f wal_name) (\<lambda>c. c)))"
  by (auto simp: wal_hashes_def plan_hashes_def split: option.split Option.bind_split)

lemma plan_hashes_typed: "\<forall>h\<in>set (plan_hashes sd c). is_hash32 h"
  by (auto simp: plan_hashes_def List.map_filter_def hex_decode_hash32 split: option.split)

lemma recover_wal_eq:
  "recover_wal sd = fs_bind (fs_read wal_name) (\<lambda>c.
     fs_bind (fs_each remove_block_files (plan_hashes sd c)) (\<lambda>_.
     fs_bind (fs_remove wal_name) (\<lambda>_. fs_sync)))"
  unfolding recover_wal_def each_decoded plan_hashes_def
  by (rule arg_cong [where f = "fs_bind _"], rule ext) (simp split: option.split)

lemma triple_recover_wal:
  "crash_triple (safe sd {S}) (recover_wal sd) (safe sd {S}) (\<lambda>_. holds sd S)"
  unfolding recover_wal_eq
proof (rule triple_bind [where R = "\<lambda>c f. \<exists>D w. (c = Option.bind w (\<lambda>c. c) \<and> S = without D (set (plan_hashes sd c)))
    \<and> dir_state sd D w f"])
  show "crash_triple (safe sd {S}) (fs_read wal_name) (safe sd {S}) (\<lambda>c f. \<exists>D w.
      (c = Option.bind w (\<lambda>c. c) \<and> S = without D (set (plan_hashes sd c))) \<and> dir_state sd D w f)"
    by (rule triple_read) (auto simp: safe_def durable_def dir_state_def wal_hashes_plan)
  fix c
  have del: "crash_triple (dir_state sd D w) (fs_each remove_block_files (plan_hashes sd c)) (safe sd {S})
      (\<lambda>_. dir_state sd S w)" if c: "c = Option.bind w (\<lambda>c. c)" "S = without D (set (plan_hashes sd c))" for D w
    unfolding c(2) by (rule triple_remove_all [OF plan_hashes_typed])
      (auto simp: dir_state_def safe_def durable_def wal_hashes_plan c(1) Un_absorb1)
  have rm: "crash_triple (dir_state sd S w) (fs_remove wal_name) (safe sd {S}) (\<lambda>_. holds sd S)"
    if c: "c = Option.bind w (\<lambda>c. c)" "S = without D (set (plan_hashes sd c))" for D w
  proof (rule triple_remove)
    fix f assume f: "dir_state sd S w f"
    have "without S (set (plan_hashes sd c)) = S" unfolding c(2) by simp
    with f c(1) show "safe sd {S} f" by (simp add: dir_state_def safe_def durable_def wal_hashes_plan)
    from f show "holds sd S (f(wal_name := None))" by (simp add: dir_state_def holds_def dir_ok_wal on_disk_wal)
  qed
  have sync: "crash_triple (holds sd S) fs_sync (safe sd {S}) (\<lambda>_. holds sd S)"
    by (rule triple_sync) (auto intro: holds_safe)
  show "crash_triple (\<lambda>f. \<exists>D w. (c = Option.bind w (\<lambda>c. c) \<and> S = without D (set (plan_hashes sd c)))
        \<and> dir_state sd D w f)
      (fs_bind (fs_each remove_block_files (plan_hashes sd c)) (\<lambda>_. fs_bind (fs_remove wal_name) (\<lambda>_. fs_sync)))
      (safe sd {S}) (\<lambda>_. holds sd S)"
    using triple_then [OF del triple_then [OF rm sync]] by (intro triple_ex triple_pre) blast
qed


lemma scan_result:
  assumes "serde_ok sd" "holds sd S (map_of fs)" "distinct (map fst fs)"
  shows "\<exists>bs. chain_of_scan (fold (scan_read sd (map_of fs)) (map fst fs) ([], 0)) = fv_of bs 0
    \<and> set bs = S \<and> hashes_ok bs \<and> sorted (map blk_slot bs)"
  using scan_blocks [OF assms refl]
  by (intro exI [of _ "blocks_of_scan (fold (scan_read sd (map_of fs)) (map fst fs) ([], 0))"])
    (simp add: chain_of_scan_def fv_of_def hash_index_def blocks_of_scan_def [symmetric] Let_def)

lemma triple_open:
  assumes sd: "serde_ok sd"
  shows "crash_triple (safe sd {S}) (fv_open sd) (safe sd {S})
    (\<lambda>x f. (\<exists>bs. x = Ok (fv_of bs 0) \<and> set bs = S \<and> hashes_ok bs \<and> sorted (map blk_slot bs)) \<and> holds sd S f)"
proof -
  let ?C = "safe sd {S}" and ?H = "holds sd S"
  let ?Q = "\<lambda>fv. \<exists>bs. fv = fv_of bs 0 \<and> set bs = S \<and> hashes_ok bs \<and> sorted (map blk_slot bs)"
  have sync: "crash_triple ?C fs_sync ?C (\<lambda>ok f. ok \<and> ?C f)" by (rule triple_sync) auto
  have sync': "crash_triple ?H fs_sync ?C (\<lambda>ok f. ok \<and> ?H f)" by (rule triple_sync) (auto intro: holds_safe)
  have exists: "crash_triple ?C (fs_get (file_exists dirty_name)) ?C (\<lambda>_. ?C)" by (rule triple_get)
  have tmp: "crash_triple ?C (if a \<and> True then remove_tmp_files else fs_return ()) ?C (\<lambda>_. ?C)" for a
    by (auto intro: triple_remove_tmp triple_return noise_upd(5) tmp_noise)
  have wal: "crash_triple ?C (fs_get (file_exists wal_name)) ?C (\<lambda>has f. (\<not> has \<longrightarrow> ?H f) \<and> ?C f)"
    by (rule triple_get) (simp add: file_exists_def safe_holds del: not_None_eq)
  have recover: "crash_triple (\<lambda>f. (\<not> has \<longrightarrow> ?H f) \<and> ?C f) (if True \<and> has then recover_wal sd else fs_return True)
      ?C (\<lambda>_. ?H)" for has
    using triple_recover_wal by (cases has) (auto intro: triple_return)
  have names: "crash_triple ?H (fs_get (map fst)) ?C
      (\<lambda>names f. \<exists>g. (?H g \<and> ?Q (chain_of_scan (fold (scan_read sd g) names ([], 0)))) \<and> f = g)"
    by (rule triple_get) (simp add: scan_result [OF sd])
  have scan: "crash_triple (\<lambda>f. \<exists>g. (?H g \<and> ?Q (chain_of_scan (fold (scan_read sd g) names ([], 0)))) \<and> f = g)
      (scan_dir sd names ([], 0)) ?C (\<lambda>sc f. ?Q (chain_of_scan sc) \<and> ?H f)" for names
    by (intro triple_ex triple_pre) (auto intro!: triple_weaken [OF triple_scan] holds_safe)
  have flag: "crash_triple (\<lambda>f. A \<and> ?H f) (if a \<and> True then fs_remove dirty_name else fs_return True) ?C
      (\<lambda>_ f. A \<and> ?H f)" for A a
    by (auto intro!: triple_remove triple_return holds_safe noise_upd noise_names)
  show ?thesis
    unfolding fv_open_def fv_open_inner_def
    by (intro triple_bind_ok [OF sync] triple_bind [OF exists] triple_then [OF tmp] triple_bind [OF wal]
        triple_then [OF recover] triple_bind_ok [OF sync'] triple_bind [OF names] triple_bind [OF scan]
        triple_then [OF flag] triple_return) auto
qed



section \<open>The contract\<close>

text \<open>
  The store with its directory, when nothing fails: the methods of the trait \<open>VolatileStore\<close>. The
  value for a process that dies is never used, as no call of an empty plan dies; \<open>tip\<close> cannot
  report the panic of \<open>fv_tip\<close>, which the invariant excludes.
\<close>

type_synonym ('c, 'tx) stored_volatile = "'tx file_volatile \<times> 'c files"

definition file_volatile_ops :: "('c, 'tx) serde \<Rightarrow> (('c, 'tx) stored_volatile, 'tx) volatile_ops" where
  "file_volatile_ops sd =
     \<lparr>vo_add_block = (\<lambda>(fv, fs) b. case undisturbed (fv_add_block sd fv b) fs (fv, Panic) of
         ((fv', r), fs') \<Rightarrow> ((fv', fs'), r)),
      vo_get_block = (\<lambda>(fv, fs). fv_get_block fv),
      vo_prefix_up_to = (\<lambda>(fv, fs). fv_prefix_up_to fv),
      vo_prune_up_to = (\<lambda>(fv, fs) p. case undisturbed (fv_prune_up_to sd fv p) fs (fv, Panic) of
         ((fv', r), fs') \<Rightarrow> ((fv', fs'), r)),
      vo_rollback_to = (\<lambda>(fv, fs) p. undisturbed (fv_rollback_to sd fv p) fs fv),
      vo_tip = (\<lambda>(fv, fs). case fv_tip fv of Ok p \<Rightarrow> p | _ \<Rightarrow> Origin),
      vo_suffix_after = (\<lambda>(fv, fs). fv_suffix_after fv),
      vo_garbage_collect = (\<lambda>(fv, fs) s. case undisturbed (fv_garbage_collect sd fv s) fs (fv, 0) of
         ((fv', r), fs') \<Rightarrow> ((fv', fs'), r)),
      vo_block_count = (\<lambda>(fv, fs). fv_block_count fv)\<rparr>"

definition stored_inv :: "('c, 'tx) serde \<Rightarrow> ('c, 'tx) stored_volatile \<Rightarrow> bool" where
  "stored_inv sd = (\<lambda>(fv, fs). serde_ok sd \<and> distinct (map fst fs)
     \<and> (\<exists>bs n. fv = fv_of bs n \<and> hashes_ok bs \<and> holds sd (set bs) (map_of fs)))"

definition stored_blocks :: "('c, 'tx) stored_volatile \<Rightarrow> 'tx block list" where
  "stored_blocks = (\<lambda>(fv, fs). List.map_filter (fv_index fv) (fv_chain fv))"

lemma stored_blocks_of [simp]: "hashes_ok bs \<Longrightarrow> stored_blocks (fv_of bs n, fs) = bs"
  by (simp add: stored_blocks_def map_filter_hashes)

lemma stored_invE:
  assumes "stored_inv sd v"
  obtains bs n fs where "v = (fv_of bs n, fs)" "hashes_ok bs" "serde_ok sd" "distinct (map fst fs)"
    "holds sd (set bs) (map_of fs)" "stored_blocks v = bs"
  using assms by (cases v) (auto simp: stored_inv_def)

lemma stored_invI:
  "serde_ok sd \<Longrightarrow> distinct (map fst fs) \<Longrightarrow> hashes_ok bs \<Longrightarrow> holds sd (set bs) (map_of fs) \<Longrightarrow>
     stored_inv sd (fv_of bs n, fs)"
  by (auto simp: stored_inv_def)

lemma file_volatile_add:
  assumes "stored_inv sd v" "is_hash32 (blk_hash b)"
  shows "implements (stored_inv sd) stored_blocks (vo_add_block (file_volatile_ops sd) v b)
    (vm_add_block (stored_blocks v) b)"
proof -
  from assms(1) obtain bs n fs where v: "v = (fv_of bs n, fs)" "hashes_ok bs" "serde_ok sd"
    "distinct (map fst fs)" "holds sd (set bs) (map_of fs)" "stored_blocks v = bs" by (rule stored_invE)
  show ?thesis
  proof (cases "blk_hash b \<in> blk_hash ` set bs")
    case True
    then have "hash_index bs (blk_hash b) \<noteq> None" unfolding hash_index_None by simp
    with True v assms(1) show ?thesis
      by (auto simp: implements_def file_volatile_ops_def fv_add_block_def vm_add_block_def list_ex_hash_iff
          undisturbed_def fs_return_def)
  next
    case False
    from undisturbed_run [OF triple_add [OF v(3) assms(2) False] v(4,5)] obtain fs' where
      "undisturbed (fv_add_block sd (fv_of bs n) b) fs (fv_of bs n, Panic) = ((fv_of (bs @ [b]) n, Ok ()), fs')"
      "distinct (map fst fs')" "holds sd (set (bs @ [b])) (map_of fs')" by blast
    with False v assms(2) hashes_ok_snoc [OF v(2) assms(2)] show ?thesis
      by (auto simp: implements_def file_volatile_ops_def vm_add_block_def list_ex_hash_iff simp del: set_append
          intro!: stored_invI)
  qed
qed

interpretation file_volatile: volatile_store "file_volatile_ops sd" "stored_inv sd" stored_blocks for sd
proof
  fix v p
  assume v: "stored_inv sd v"
  then obtain bs n fs where eq: "v = (fv_of bs n, fs)" and bs: "hashes_ok bs" and sd: "serde_ok sd"
    and fs: "distinct (map fst fs)" "holds sd (set bs) (map_of fs)" and abs: "stored_blocks v = bs"
    by (rule stored_invE)
  show "hashes_ok (stored_blocks v)" by (simp add: abs bs)
  show "vo_prefix_up_to (file_volatile_ops sd) v p = vm_prefix_up_to (stored_blocks v) p"
    "vo_get_block (file_volatile_ops sd) v h = vm_get_block (stored_blocks v) h"
    "vo_suffix_after (file_volatile_ops sd) v p = vm_suffix_after (stored_blocks v) p"
    "vo_tip (file_volatile_ops sd) v = last_point (stored_blocks v)"
    "vo_block_count (file_volatile_ops sd) v = length (stored_blocks v)" for h
    unfolding abs by (simp_all add: file_volatile_ops_def eq fv_reads [OF bs])
  from undisturbed_run [OF triple_prune [OF sd bs, of n p] fs] vm_prune_hashes [OF bs, of p]
  show "implements (stored_inv sd) stored_blocks (vo_prune_up_to (file_volatile_ops sd) v p)
      (vm_prune_up_to (stored_blocks v) p)"
    unfolding abs by (auto simp: implements_def file_volatile_ops_def eq sd intro!: stored_invI)
  from undisturbed_run [OF triple_rollback [OF sd bs, of n p] fs] vm_rollback_hashes [OF bs, of p]
  show "stored_inv sd (vo_rollback_to (file_volatile_ops sd) v p)
      \<and> stored_blocks (vo_rollback_to (file_volatile_ops sd) v p) = vm_rollback_to (stored_blocks v) p"
    unfolding abs by (auto simp: file_volatile_ops_def eq sd intro!: stored_invI)
  fix s
  have "hashes_ok (fst (vm_garbage_collect bs s))"
    using bs by (simp add: vm_garbage_collect_def Let_def hashes_ok_sublists)
  with undisturbed_run [OF triple_gc [OF sd bs, of n s] fs]
  show "implements (stored_inv sd) stored_blocks (vo_garbage_collect (file_volatile_ops sd) v s)
      (vm_garbage_collect (stored_blocks v) s)"
    unfolding abs by (auto simp: implements_def file_volatile_ops_def eq sd intro!: stored_invI)
qed (rule file_volatile_add)



section \<open>A life of the store\<close>

text \<open>The changes of the store, on its directory and on a list of blocks.\<close>

datatype 'tx volatile_change =
    FvAdd "'tx block"
  | FvPrune point
  | FvRollback point
  | FvCollect slot_no
  | FvCompact

fun fv_change :: "('c, 'tx) serde \<Rightarrow> 'tx volatile_change \<Rightarrow> 'tx file_volatile \<Rightarrow> ('c, 'tx file_volatile) fs" where
  "fv_change sd (FvAdd b) fv = fs_bind (fv_add_block sd fv b) (\<lambda>(fv', _). fs_return fv')"
| "fv_change sd (FvPrune p) fv = fs_bind (fv_prune_up_to sd fv p) (\<lambda>(fv', _). fs_return fv')"
| "fv_change sd (FvRollback p) fv = fv_rollback_to sd fv p"
| "fv_change sd (FvCollect s) fv = fs_bind (fv_garbage_collect sd fv s) (\<lambda>(fv', _). fs_return fv')"
| "fv_change sd FvCompact fv = fs_bind (fv_compact fv) (\<lambda>_. fs_return fv)"

fun fv_changes :: "('c, 'tx) serde \<Rightarrow> 'tx volatile_change list \<Rightarrow> 'tx file_volatile \<Rightarrow> ('c, 'tx file_volatile) fs" where
  "fv_changes sd [] fv = fs_return fv"
| "fv_changes sd (ch # chs) fv = fs_bind (fv_change sd ch fv) (fv_changes sd chs)"

fun vm_change :: "'tx volatile_change \<Rightarrow> 'tx block list \<Rightarrow> 'tx block list" where
  "vm_change (FvAdd b) bs = fst (vm_add_block bs b)"
| "vm_change (FvPrune p) bs = fst (vm_prune_up_to bs p)"
| "vm_change (FvRollback p) bs = vm_rollback_to bs p"
| "vm_change (FvCollect s) bs = fst (vm_garbage_collect bs s)"
| "vm_change FvCompact bs = bs"

fun change_typed :: "'tx volatile_change \<Rightarrow> bool" where
  "change_typed (FvAdd b) \<longleftrightarrow> is_hash32 (blk_hash b)"
| "change_typed ch \<longleftrightarrow> True"

text \<open>Recovery, which may die and start again, once for each plan before the last.\<close>

fun fv_reopen ::
    "('c, 'tx) serde \<Rightarrow> io_outcome list list \<Rightarrow> 'c files
       \<Rightarrow> ((storage_error, 'tx file_volatile) result \<times> 'c files) option" where
  "fv_reopen sd [] fs = None"
| "fv_reopen sd (plan # plans) fs =
     (case fv_open sd \<lparr>dk_files = fs, dk_plan = plan\<rparr> of
        Finished r d \<Rightarrow> Some (r, dk_files d)
      | Crashed d \<Rightarrow> fv_reopen sd plans (dk_files d))"

lemma vm_change_hashes: "change_typed ch \<Longrightarrow> hashes_ok bs \<Longrightarrow> hashes_ok (vm_change ch bs)"
  by (cases ch) (auto simp: vm_add_block_def vm_garbage_collect_def Let_def intro!: hashes_ok_intros
      vm_prune_hashes vm_rollback_hashes)

lemma triple_fst:
  "crash_triple P m C (\<lambda>x f. x = (y, r) \<and> Q f) \<Longrightarrow>
     crash_triple P (fs_bind m (\<lambda>(y, _). fs_return y)) C (\<lambda>x f. x = y \<and> Q f)"
  by (erule triple_bind) (auto intro: triple_return)

lemma triple_change:
  assumes sd: "serde_ok sd" and bs: "hashes_ok bs" and ch: "change_typed ch"
  shows "crash_triple (holds sd (set bs)) (fv_change sd ch (fv_of bs n))
    (safe sd {set bs, set (vm_change ch bs)})
    (\<lambda>x f. x = fv_of (vm_change ch bs) n \<and> holds sd (set (vm_change ch bs)) f)"
proof (cases ch)
  case (FvAdd b)
  show ?thesis
  proof (cases "blk_hash b \<in> blk_hash ` set bs")
    case True
    then have "hash_index bs (blk_hash b) \<noteq> None" unfolding hash_index_None by simp
    with True FvAdd show ?thesis
      by (auto simp: fv_add_block_def vm_add_block_def list_ex_hash_iff intro: triple_return)
  next
    case False
    with FvAdd ch triple_fst [OF triple_add [OF sd _ False, of n]] show ?thesis
      by (simp add: vm_add_block_def list_ex_hash_iff del: set_append)
  qed
next
  case (FvPrune p)
  with triple_fst [OF triple_prune [OF sd bs, of n p]] show ?thesis by simp
next
  case (FvRollback p)
  with triple_rollback [OF sd bs, of n p] show ?thesis by simp
next
  case (FvCollect s)
  with triple_fst [OF triple_gc [OF sd bs, of n s]] show ?thesis by simp
next
  case FvCompact
  have "crash_triple (holds sd (set bs)) (fv_compact (fv_of bs n)) (safe sd {set bs}) (\<lambda>_. holds sd (set bs))"
    by (rule triple_weaken [OF triple_compact [OF bs]]) (auto intro: holds_safe)
  then show ?thesis by (auto simp: FvCompact intro: triple_then triple_return)
qed

lemma triple_changes:
  assumes sd: "serde_ok sd" and bs: "hashes_ok bs" and chs: "list_all change_typed chs"
  shows "crash_triple (holds sd (set bs)) (fv_changes sd chs (fv_of bs n)) (\<lambda>_. True)
    (\<lambda>x f. x = fv_of (fold vm_change chs bs) n \<and> hashes_ok (fold vm_change chs bs)
       \<and> holds sd (set (fold vm_change chs bs)) f)"
  using bs chs
proof (induction chs arbitrary: bs)
  case Nil
  then show ?case by (simp add: triple_return)
next
  case (Cons ch chs)
  let ?bs = "vm_change ch bs"
  have 1: "crash_triple (holds sd (set bs)) (fv_change sd ch (fv_of bs n)) (\<lambda>_. True)
      (\<lambda>x f. x = fv_of ?bs n \<and> holds sd (set ?bs) f)"
    by (rule triple_weaken [OF triple_change [OF sd]]) (use Cons.prems in auto)
  from Cons.IH [OF vm_change_hashes] Cons.prems show ?case
    unfolding fv_changes.simps fold_simps by (intro triple_bind [OF 1] triple_pre) auto
qed

lemma reopen_finds:
  assumes sd: "serde_ok sd" and fs: "distinct (map fst fs)" "safe sd {S} (map_of fs)"
    and plans: "\<forall>plan\<in>set plans. IoFail \<notin> set plan"
  shows "\<exists>bs fs'. fv_reopen sd (plans @ [[]]) fs = Some (Ok (fv_of bs 0), fs')
    \<and> set bs = S \<and> hashes_ok bs \<and> sorted (map blk_slot bs) \<and> stored_inv sd (fv_of bs 0, fs')"
  using fs plans
proof (induction plans arbitrary: fs)
  case Nil
  show ?case
    by (rule triple_run [OF triple_open [OF sd] Nil(1,2), of "[]"]) (auto intro!: stored_invI [OF sd])
next
  case (Cons plan plans)
  from Cons.prems(3) have plan: "IoFail \<notin> set plan" by simp
  show ?case
    by (rule triple_run [OF triple_open [OF sd] Cons.prems(1,2) plan])
      (use Cons.IH Cons.prems(3) in \<open>auto intro!: stored_invI [OF sd]\<close>)
qed

text \<open>
  C5. A volatile block store does not lose or invent blocks when the process dies. After any
  sequence of changes that completed, and a further change during which the process died, at any of its
  file-system calls, recovery finds the chain as it was after the completed changes or the chain
  with the last change done, in the right order, even if recovery itself dies any number of times and
  is started again; and the store it gives is again one with a consistent directory, from which the
  statement applies again. There are no I/O errors other than the crashes, and slots increase along
  the chain, as the order of the chain is not stored but the order of the slots.
\<close>

theorem volatile_crash_atomic:
  assumes start: "stored_inv sd (fv0, fs0)" and chs: "list_all change_typed (chs @ [ch])"
    and plans: "IoFail \<notin> set plan" "\<forall>plan\<in>set plans. IoFail \<notin> set plan"
    and run: "fv_changes sd chs fv0 \<lparr>dk_files = fs0, dk_plan = plan\<rparr> = Finished fv d"
    and crash: "fv_change sd ch fv d = Crashed d'"
    and before: "before = fold vm_change chs (stored_blocks (fv0, fs0))" and after: "after = vm_change ch before"
    and slots: "slots_increase before" "slots_increase after"
  shows "\<exists>bs fs. (bs = before \<or> bs = after)
    \<and> fv_reopen sd (plans @ [[]]) (dk_files d') = Some (Ok (fv_of bs 0), fs) \<and> stored_inv sd (fv_of bs 0, fs)"
proof -
  from start obtain bs0 n where 0: "fv0 = fv_of bs0 n" "hashes_ok bs0" "serde_ok sd" "distinct (map fst fs0)"
    "holds sd (set bs0) (map_of fs0)" by (auto elim: stored_invE)
  have bs0: "stored_blocks (fv0, fs0) = bs0" using 0 by simp
  have chs': "list_all change_typed chs" "change_typed ch" using chs by simp_all
  have d: "fv = fv_of before n" "hashes_ok before" "distinct (map fst (dk_files d))"
    "holds sd (set before) (map_of (dk_files d))" "IoFail \<notin> set (dk_plan d)"
    using triple_finished [OF triple_changes [OF 0(3,2) chs'(1), of n] run [unfolded 0(1)]] 0 plans(1)
    unfolding before bs0 by auto
  have d': "distinct (map fst (dk_files d'))" "safe sd {set before, set after} (map_of (dk_files d'))"
    using triple_crashed [OF triple_change [OF 0(3) d(2) chs'(2), of n] crash [unfolded d(1)]] d
    unfolding after by auto
  then obtain S where S: "S = set before \<or> S = set after" "safe sd {S} (map_of (dk_files d'))"
    by (auto simp: safe_def)
  from reopen_finds [OF 0(3) d'(1) S(2) plans(2)] obtain bs fs where bs:
    "fv_reopen sd (plans @ [[]]) (dk_files d') = Some (Ok (fv_of bs 0), fs)" "set bs = S" "hashes_ok bs"
    "sorted (map blk_slot bs)" "stored_inv sd (fv_of bs 0, fs)" by blast
  from S(1) have "bs = before \<or> bs = after"
    using slots_determine_order [of bs before] slots_determine_order [of bs after] bs slots by blast
  with bs show ?thesis by blast
qed


lemma empty_stored: "serde_ok sd \<Longrightarrow> stored_inv sd (fv_of [] n, [])"
  by (rule stored_invI) (simp_all add: holds_def dir_ok_def on_disk_def)

theorem volatile_crash_atomic_witness:
  "\<exists>fv d d'. fv_changes tagged_serde [FvAdd (block_at 1), FvAdd (block_at 2)] (fv_of [] 0)
      \<lparr>dk_files = [], dk_plan = replicate 26 IoOk @ [IoCrash]\<rparr> = Finished fv d
    \<and> fv_change tagged_serde (FvPrune (point_for_block (block_at 1))) fv d = Crashed d'
    \<and> (\<exists>bs fs. (bs = [block_at 1, block_at 2] \<or> bs = [block_at 2])
      \<and> fv_reopen tagged_serde [[IoOk, IoCrash], []] (dk_files d') = Some (Ok (fv_of bs 0), fs)
      \<and> stored_inv tagged_serde (fv_of bs 0, fs))"
proof -
  have run: "(case fv_changes tagged_serde [FvAdd (block_at 1), FvAdd (block_at 2)] (fv_of [] 0)
      \<lparr>dk_files = [], dk_plan = replicate 26 IoOk @ [IoCrash]\<rparr> of
        Finished fv d \<Rightarrow> (case fv_change tagged_serde (FvPrune (point_for_block (block_at 1))) fv d of
          Finished _ _ \<Rightarrow> False | Crashed _ \<Rightarrow> True)
      | Crashed _ \<Rightarrow> False)"
    by code_simp
  then obtain fv d d' where d: "fv_changes tagged_serde [FvAdd (block_at 1), FvAdd (block_at 2)] (fv_of [] 0)
      \<lparr>dk_files = [], dk_plan = replicate 26 IoOk @ [IoCrash]\<rparr> = Finished fv d"
    "fv_change tagged_serde (FvPrune (point_for_block (block_at 1))) fv d = Crashed d'"
    by (auto split: run.splits)
  have before: "[block_at 1, block_at 2] = fold vm_change [FvAdd (block_at 1), FvAdd (block_at 2)]
      (stored_blocks (fv_of [] 0, []))" by code_simp
  have after: "[block_at 2] = vm_change (FvPrune (point_for_block (block_at 1))) [block_at 1, block_at 2]"
    by code_simp
  have typed: "list_all change_typed ([FvAdd (block_at 1), FvAdd (block_at 2)] @ [FvPrune (point_for_block (block_at 1))])"
    by code_simp
  have slots: "slots_increase [block_at 1, block_at 2]" "slots_increase [block_at 2]" by code_simp+
  have plan: "IoFail \<notin> set (replicate 26 IoOk @ [IoCrash])" "\<forall>plan\<in>set [[IoOk, IoCrash]]. IoFail \<notin> set plan"
    by simp_all
  from volatile_crash_atomic [OF empty_stored [OF tagged_serde_ok] typed plan d before after slots] d
  show ?thesis by auto
qed

end
