(* ===== verification/FileImmutable.thy ===== *)
theory FileImmutable
  imports BlockFiles "HOL-Library.Sublist"
begin

text \<open>
  The file-backed immutable store, \<open>src/crates/storage/src/file_immutable.rs\<close>: one file for each
  block and a dirty flag around every change, but no log of deletions.

  The store meets the contract \<open>immutable_store\<close>. An append is atomic with respect to crashes; a
  trim from the old end leaves a suffix of the chain; a trim from the new end can leave a gap.
\<close>

section \<open>Model\<close>

record 'tx file_immutable =
  fi_chain :: "header_hash list"
  fi_index :: "header_hash \<rightharpoonup> 'tx block"
  fi_skipped_on_open :: nat

definition fi_open_inner ::
    "('c, 'tx) serde \<Rightarrow> bool \<Rightarrow> ('c, (storage_error, 'tx file_immutable) result) fs" where
  "fi_open_inner sd recover_dirty =
     fs_bind fs_sync (\<lambda>ok.
     if \<not> ok then fs_return (Err Io) else
     fs_bind (fs_get (file_exists dirty_name)) (\<lambda>had_dirty.
     fs_bind (if had_dirty \<and> recover_dirty then remove_tmp_files else fs_return ()) (\<lambda>_.
     fs_bind fs_sync (\<lambda>ok.
     if \<not> ok then fs_return (Err Io) else
     fs_bind (fs_get (map fst)) (\<lambda>names.
     fs_bind (scan_dir sd names ([], 0)) (\<lambda>sc.
     let blocks = sort_key blk_slot (map (\<lambda>(_, b, _). b) (fst sc)) in
     fs_bind (if had_dirty \<and> recover_dirty then fs_remove dirty_name else fs_return True) (\<lambda>_.
     fs_return (Ok \<lparr>fi_chain = map blk_hash blocks,
                    fi_index = map_of (map (\<lambda>b. (blk_hash b, b)) blocks),
                    fi_skipped_on_open = snd sc\<rparr>))))))))"

definition fi_open :: "('c, 'tx) serde \<Rightarrow> ('c, (storage_error, 'tx file_immutable) result) fs" where
  "fi_open sd = fi_open_inner sd True"

definition fi_open_read_only :: "('c, 'tx) serde \<Rightarrow> ('c, (storage_error, 'tx file_immutable) result) fs" where
  "fi_open_read_only sd = fi_open_inner sd False"

text \<open>\<open>self.index[hash]\<close> panics when the hash is not there.\<close>

definition fi_slot :: "'tx file_immutable \<Rightarrow> header_hash \<Rightarrow> (storage_error, slot_no) result" where
  "fi_slot fi h = (case fi_index fi h of Some b \<Rightarrow> Ok (blk_slot b) | None \<Rightarrow> Panic)"

fun fi_resolve_suffix_start :: "'tx file_immutable \<Rightarrow> point \<Rightarrow> (storage_error, nat) result" where
  "fi_resolve_suffix_start fi Origin = Ok 0"
| "fi_resolve_suffix_start fi (BlockPoint slot hash) =
     (if fi_chain fi = [] then Ok 0
      else and_then (fi_slot fi (hd (fi_chain fi))) (\<lambda>first_slot.
        if slot < first_slot then Ok 0
        else case position (\<lambda>h. h = hash) (fi_chain fi) of
            Some pos \<Rightarrow> Ok (pos + 1)
          | None \<Rightarrow> and_then (fi_slot fi (last (fi_chain fi))) (\<lambda>last_slot.
              if slot > last_slot then Ok (length (fi_chain fi)) else Err PointNotFound)))"

definition fi_append_block ::
    "('c, 'tx) serde \<Rightarrow> 'tx file_immutable \<Rightarrow> 'tx block
       \<Rightarrow> ('c, 'tx file_immutable \<times> (storage_error, unit) result) fs" where
  "fi_append_block sd fi b =
     (if fi_index fi (blk_hash b) \<noteq> None then fs_return (fi, Err (DuplicateBlock (blk_hash b)))
      else fs_bind mark_dirty (\<lambda>ok.
        if \<not> ok then fs_return (fi, Err Io)
        else case sd_block sd b of
            Inl e \<Rightarrow> fs_return (fi, Err (Serialization e))
          | Inr c \<Rightarrow> fs_bind (atomic_write_file (block_path (blk_hash b)) c) (\<lambda>ok.
              if \<not> ok then fs_return (fi, Err Io)
              else fs_bind mark_clean (\<lambda>_. fs_return
                (fi\<lparr>fi_chain := fi_chain fi @ [blk_hash b],
                    fi_index := (fi_index fi)(blk_hash b \<mapsto> b)\<rparr>, Ok ())))))"

definition fi_get_tip :: "'tx file_immutable \<Rightarrow> (storage_error, point) result" where
  "fi_get_tip fi =
     (if fi_chain fi = [] then Ok Origin
      else case fi_index fi (last (fi_chain fi)) of Some b \<Rightarrow> Ok (point_for_block b) | None \<Rightarrow> Panic)"

definition fi_get_block :: "'tx file_immutable \<Rightarrow> header_hash \<Rightarrow> 'tx block option" where
  "fi_get_block fi h = fi_index fi h"

definition fi_contains_block :: "'tx file_immutable \<Rightarrow> header_hash \<Rightarrow> bool" where
  "fi_contains_block fi h \<longleftrightarrow> fi_index fi h \<noteq> None"

definition fi_suffix_after :: "'tx file_immutable \<Rightarrow> point \<Rightarrow> (storage_error, 'tx block list) result" where
  "fi_suffix_after fi p =
     map_ok (\<lambda>start. List.map_filter (fi_index fi) (drop start (fi_chain fi))) (fi_resolve_suffix_start fi p)"

definition fi_len :: "'tx file_immutable \<Rightarrow> nat" where
  "fi_len fi = length (fi_chain fi)"

text \<open>\<open>slice::binary_search_by_key\<close>: halve the window until one element is left.\<close>

function search_window :: "('a \<Rightarrow> 'k::linorder) \<Rightarrow> 'k \<Rightarrow> 'a list \<Rightarrow> nat \<Rightarrow> nat \<Rightarrow> nat" where
  "search_window f k xs base sz =
     (if sz \<le> 1 then base
      else let half = sz div 2; mid = base + half
           in search_window f k xs (if f (xs ! mid) > k then base else mid) (sz - half))"
  by pat_completeness auto
termination
  by (relation "measure (\<lambda>(f, k, xs, base, sz). sz)") auto

definition binary_search_by_key :: "'a list \<Rightarrow> 'k::linorder \<Rightarrow> ('a \<Rightarrow> 'k) \<Rightarrow> nat option" where
  "binary_search_by_key xs k f =
     (if xs = [] then None
      else let i = search_window f k xs 0 (length xs) in if f (xs ! i) = k then Some i else None)"

definition fi_get_block_by_slot ::
    "'tx file_immutable \<Rightarrow> slot_no \<Rightarrow> (storage_error, 'tx block option) result" where
  "fi_get_block_by_slot fi slot =
     (if list_ex (\<lambda>h. fi_index fi h = None) (fi_chain fi) then Panic
      else Ok (Option.bind (binary_search_by_key (fi_chain fi) slot (\<lambda>h. blk_slot (the (fi_index fi h))))
        (\<lambda>i. fi_index fi (fi_chain fi ! i))))"

fun fi_remove_blocks ::
    "header_hash list \<Rightarrow> 'tx file_immutable \<Rightarrow> ('c, 'tx file_immutable \<times> bool) fs" where
  "fi_remove_blocks [] fi = fs_return (fi, True)"
| "fi_remove_blocks (h # hs) fi =
     fs_bind (remove_if_exists (block_path h)) (\<lambda>ok.
     if \<not> ok then fs_return (fi, False) else
     fs_bind (remove_if_exists (legacy_json_block_path h)) (\<lambda>ok.
     if \<not> ok then fs_return (fi, False)
     else fi_remove_blocks hs (fi\<lparr>fi_index := (fi_index fi)(h := None)\<rparr>)))"

text \<open>The two trims differ only in the comparison.\<close>

definition fi_trim ::
    "(slot_no \<Rightarrow> bool) \<Rightarrow> 'tx file_immutable
       \<Rightarrow> ('c, 'tx file_immutable \<times> (storage_error, nat) result) fs" where
  "fi_trim goes fi =
     fs_bind mark_dirty (\<lambda>ok.
     if \<not> ok then fs_return (fi, Err Io)
     else if list_ex (\<lambda>h. fi_index fi h = None) (fi_chain fi) then fs_return (fi, Panic)
     else
       let to_remove = filter (\<lambda>h. goes (blk_slot (the (fi_index fi h)))) (fi_chain fi) in
       fs_bind (fi_remove_blocks to_remove fi) (\<lambda>(fi', ok).
       if \<not> ok then fs_return (fi', Err Io)
       else fs_bind mark_clean (\<lambda>_. fs_return
         (fi'\<lparr>fi_chain := filter (\<lambda>h. h \<notin> set to_remove) (fi_chain fi')\<rparr>, Ok (length to_remove)))))"

definition fi_trim_before_slot ::
    "'tx file_immutable \<Rightarrow> slot_no \<Rightarrow> ('c, 'tx file_immutable \<times> (storage_error, nat) result) fs" where
  "fi_trim_before_slot fi slot = fi_trim (\<lambda>s. s < slot) fi"

definition fi_trim_after_slot ::
    "'tx file_immutable \<Rightarrow> slot_no \<Rightarrow> ('c, 'tx file_immutable \<times> (storage_error, nat) result) fs" where
  "fi_trim_after_slot fi slot = fi_trim (\<lambda>s. s > slot) fi"


section \<open>Binary search\<close>

declare search_window.simps [simp del]

text \<open>The key at the start of the window is at most \<open>k\<close> (or it is the start), keys after the window are above.\<close>

lemma search_window_result:
  assumes "sorted (map f xs)" "0 < sz" "base + sz \<le> length xs" "base = 0 \<or> f (xs ! base) \<le> k"
    and "\<forall>j. base + sz \<le> j \<longrightarrow> j < length xs \<longrightarrow> k < f (xs ! j)" and "r = search_window f k xs base sz"
  shows "r < length xs \<and> (r = 0 \<or> f (xs ! r) \<le> k) \<and> (\<forall>j. r < j \<longrightarrow> j < length xs \<longrightarrow> k < f (xs ! j))"
  using assms(2-)
proof (induction sz arbitrary: base rule: less_induct)
  case (less sz)
  show ?case
  proof (cases "sz \<le> 1")
    case True
    with less.prems have "r = base" "sz = 1" by (auto simp: search_window.simps)
    with less.prems show ?thesis by auto
  next
    case False
    define half where "half = sz div 2"
    have half: "sz - half < sz" "0 < sz - half" "half \<le> sz - half" "half < sz"
      using False by (auto simp: half_def)
    show ?thesis
    proof (cases "k < f (xs ! (base + half))")
      case True
      have "k < f (xs ! j)" if "base + (sz - half) \<le> j" "j < length xs" for j
        using sorted_nth_mono [OF assms(1), of "base + half" j] that half True by auto
      moreover have "r = search_window f k xs base (sz - half)"
        using less.prems(5) False True by (simp add: search_window.simps [of f k xs base sz] half_def Let_def)
      ultimately show ?thesis using less.IH [of "sz - half" base] less.prems half by auto
    next
      case False2: False
      have "r = search_window f k xs (base + half) (sz - half)"
        using less.prems(5) False False2 by (simp add: search_window.simps [of f k xs base sz] half_def Let_def)
      moreover from False2 have "f (xs ! (base + half)) \<le> k" by simp
      ultimately show ?thesis using less.IH [of "sz - half" "base + half"] less.prems half by auto
    qed
  qed
qed

lemma binary_search_finds:
  assumes "sorted (map f xs)"
  shows "binary_search_by_key xs k f = None \<longleftrightarrow> k \<notin> f ` set xs"
    and "binary_search_by_key xs k f = Some i \<Longrightarrow> i < length xs \<and> f (xs ! i) = k"
proof -
  define r where "r = search_window f k xs 0 (length xs)"
  have r: "r < length xs \<and> (r = 0 \<or> f (xs ! r) \<le> k) \<and> (\<forall>j. r < j \<longrightarrow> j < length xs \<longrightarrow> k < f (xs ! j))"
    if "xs \<noteq> []"
    using that by (intro search_window_result [OF assms _ _ _ _ r_def]) auto
  show "binary_search_by_key xs k f = Some i \<Longrightarrow> i < length xs \<and> f (xs ! i) = k"
    using r by (auto simp: binary_search_by_key_def r_def [symmetric] split: if_splits)
  have "f (xs ! r) = k" if "k \<in> f ` set xs"
  proof -
    from that obtain i where i: "i < length xs" "f (xs ! i) = k" by (auto simp: in_set_conv_nth)
    then have "xs \<noteq> []" by auto
    with r i have "i \<le> r" "r < length xs" by (metis leI less_irrefl, blast)
    with r i \<open>xs \<noteq> []\<close> sorted_nth_mono [OF assms, of i r] show ?thesis by (cases "r = 0") auto
  qed
  with r show "binary_search_by_key xs k f = None \<longleftrightarrow> k \<notin> f ` set xs"
    by (auto simp: binary_search_by_key_def r_def [symmetric] split: if_splits)
qed



section \<open>The store of a list of blocks\<close>

definition fi_of :: "'tx block list \<Rightarrow> nat \<Rightarrow> 'tx file_immutable" where
  "fi_of bs n = \<lparr>fi_chain = map blk_hash bs, fi_index = hash_index bs, fi_skipped_on_open = n\<rparr>"

lemma fi_of_simps [simp]:
  "fi_chain (fi_of bs n) = map blk_hash bs" "fi_index (fi_of bs n) = hash_index bs"
  "fi_skipped_on_open (fi_of bs n) = n"
  "fi_of bs n\<lparr>fi_chain := map blk_hash bs', fi_index := hash_index bs'\<rparr> = fi_of bs' n"
  "fi_of bs n\<lparr>fi_index := hash_index bs', fi_chain := map blk_hash bs'\<rparr> = fi_of bs' n"
  by (simp_all add: fi_of_def)

lemma fi_slot_of: "hashes_ok bs \<Longrightarrow> b \<in> set bs \<Longrightarrow> fi_slot (fi_of bs n) (blk_hash b) = Ok (blk_slot b)"
  by (simp add: fi_slot_def hash_index_mem)

lemma index_total: "hashes_ok bs \<Longrightarrow> list_ex (\<lambda>h. hash_index bs h = None) (map blk_hash bs) \<longleftrightarrow> False"
  by (auto simp: list_ex_iff hash_index_mem)

lemma fi_resolve_of:
  assumes "hashes_ok bs"
  shows "fi_resolve_suffix_start (fi_of bs n) p = im_resolve_suffix_start bs p"
proof (cases p)
  case (BlockPoint s h)
  show ?thesis
  proof (cases "bs = []")
    case False
    then have "fi_slot (fi_of bs n) (blk_hash (hd bs)) = Ok (blk_slot (hd bs))"
      "fi_slot (fi_of bs n) (blk_hash (last bs)) = Ok (blk_slot (last bs))"
      using fi_slot_of [OF assms, of _ n] by simp_all
    with False BlockPoint show ?thesis
      by (simp add: hd_map last_map position_hashes del: position_None_iff split: option.split)
  qed (simp add: BlockPoint)
qed simp

lemma fi_reads:
  assumes "hashes_ok bs"
  shows "fi_get_block (fi_of bs n) h = im_get_block bs h"
    "fi_contains_block (fi_of bs n) h = im_contains_block bs h"
    "fi_suffix_after (fi_of bs n) p = im_suffix_after bs p"
    "fi_get_tip (fi_of bs n) = Ok (last_point bs)"
    "fi_len (fi_of bs n) = length bs"
proof -
  show "fi_get_block (fi_of bs n) h = im_get_block bs h"
    by (simp add: fi_get_block_def im_get_block_def hash_index_find)
  show "fi_contains_block (fi_of bs n) h = im_contains_block bs h"
    using hash_index_None [of bs h] by (auto simp: fi_contains_block_def im_contains_block_def list_ex_hash_iff)
  show "fi_suffix_after (fi_of bs n) p = im_suffix_after bs p"
    using map_filter_hashes [OF assms set_drop_subset]
    by (simp add: fi_suffix_after_def im_suffix_after_def fi_resolve_of [OF assms] drop_map)
  show "fi_get_tip (fi_of bs n) = Ok (last_point bs)"
    using hash_index_mem [OF assms last_in_set] by (auto simp: fi_get_tip_def last_point_def last_map)
qed (simp add: fi_len_def)

lemma fi_by_slot:
  assumes bs: "hashes_ok bs" and slots: "slots_increase bs"
  shows "fi_get_block_by_slot (fi_of bs n) s = Ok (im_get_block_by_slot bs s)"
proof -
  let ?f = "\<lambda>h. blk_slot (the (hash_index bs h))"
  have f: "map ?f (map blk_hash bs) = map blk_slot bs" using hash_index_mem [OF bs] by simp
  have key: "?f (map blk_hash bs ! i) = blk_slot (bs ! i)" if "i < length bs" for i
    using hash_index_mem [OF bs] that by simp
  have sorted: "sorted (map ?f (map blk_hash bs))"
    using slots unfolding f slots_increase_def by (rule strict_sorted_imp_sorted)
  have image: "?f ` set (map blk_hash bs) = blk_slot ` set bs" using f by (metis set_map)
  have "Option.bind (binary_search_by_key (map blk_hash bs) s ?f) (\<lambda>i. hash_index bs (map blk_hash bs ! i))
      = List.find (\<lambda>b. blk_slot b = s) bs"
  proof (cases "binary_search_by_key (map blk_hash bs) s ?f")
    case None
    then have "s \<notin> blk_slot ` set bs" by (simp only: binary_search_finds(1) [OF sorted] image simp_thms)
    then have "List.find (\<lambda>b. blk_slot b = s) bs = None" by (auto simp: find_None_iff)
    with None show ?thesis by simp
  next
    case (Some i)
    from binary_search_finds(2) [OF sorted Some] key have i: "i < length bs" "blk_slot (bs ! i) = s" by auto
    moreover have "blk_slot (bs ! j) \<noteq> s" if "j < i" for j
      using sorted_wrt_nth_less [of "(<)" "map blk_slot bs" j i] slots that i by (auto simp: slots_increase_def)
    ultimately have "List.find (\<lambda>b. blk_slot b = s) bs = Some (bs ! i)" by (auto simp: find_Some_iff)
    with Some i hash_index_mem [OF bs, of "bs ! i"] show ?thesis by simp
  qed
  then show ?thesis by (simp add: fi_get_block_by_slot_def im_get_block_by_slot_def index_total [OF bs, simplified])
qed



section \<open>Changes\<close>

text \<open>The directory holds one of these sets of blocks.\<close>

definition holds_one :: "('c, 'tx) serde \<Rightarrow> 'tx block set set \<Rightarrow> 'c dir \<Rightarrow> bool" where
  "holds_one sd T f \<longleftrightarrow> (\<exists>S\<in>T. holds sd S f)"

lemma holds_oneI: "holds sd S f \<Longrightarrow> S \<in> T \<Longrightarrow> holds_one sd T f"
  by (auto simp: holds_one_def)

lemma triple_append:
  assumes sd: "serde_ok sd" and b: "is_hash32 (blk_hash b)" "blk_hash b \<notin> blk_hash ` set bs"
  shows "crash_triple (holds sd (set bs)) (fi_append_block sd (fi_of bs n) b)
    (holds_one sd {set bs, set (bs @ [b])})
    (\<lambda>x f. x = (fi_of (bs @ [b]) n, Ok ()) \<and> holds sd (set (bs @ [b])) f)"
proof -
  obtain c where c: "sd_block sd b = Inr c" using sd unfolding serde_ok_def by blast
  let ?C = "holds_one sd {set bs, set (bs @ [b])}"
  have 1: "crash_triple (holds sd (set bs)) mark_dirty ?C (\<lambda>ok f. ok \<and> holds sd (set bs) f)"
    by (rule triple_flag_set) (auto intro: holds_oneI)
  have 2: "crash_triple (holds sd (set bs)) (atomic_write_file (block_path (blk_hash b)) c) ?C
      (\<lambda>ok f. ok \<and> holds sd (set (bs @ [b])) f)"
    using triple_write_block [OF sd b c, of ?C] by (auto intro: holds_oneI)
  have 3: "crash_triple (holds sd (set (bs @ [b]))) mark_clean ?C (\<lambda>_. holds sd (set (bs @ [b])))"
    by (rule triple_flag_clear) (auto intro: holds_oneI)
  have fi: "fi_of bs n\<lparr>fi_chain := map blk_hash bs @ [blk_hash b],
      fi_index := (hash_index bs)(blk_hash b \<mapsto> b)\<rparr> = fi_of (bs @ [b]) n"
    by (simp add: fi_of_def hash_index_snoc [OF b(2)])
  have "hash_index bs (blk_hash b) = None" using b(2) by (simp add: hash_index_None)
  then show ?thesis
    unfolding fi_append_block_def fi_of_simps fi c sum.case
    by (auto intro!: triple_bind_ok [OF 1] triple_bind_ok [OF 2] triple_then [OF 3] triple_return
        simp del: set_append)
qed

lemma holds_remove:
  assumes "is_hash32 h" "holds sd S f"
  shows "holds sd (without S {h}) (f(block_path h := None))"
  using assms wal_neq_path [OF assms(1)] by (simp add: holds_def dir_ok_remove on_disk_remove)

lemma triple_remove_listed:
  assumes hs: "\<forall>h\<in>set hs. is_hash32 h"
    and C: "\<And>k f. holds sd (without S (set (take k hs))) f \<Longrightarrow> C f"
  shows "crash_triple (holds sd S) (fi_remove_blocks hs fi) C
    (\<lambda>x f. x = (fi\<lparr>fi_index := drop_hashes hs (fi_index fi)\<rparr>, True) \<and> holds sd (without S (set hs)) f)"
  using assms
proof (induction hs arbitrary: S fi)
  case Nil
  then show ?case by (simp add: triple_return drop_hashes_def)
next
  case (Cons h hs)
  let ?S = "without S {h}"
  have C0: "C f" if "holds sd S f" for f using Cons.prems(2) [of 0] that by simp
  have C1: "C f" if "holds sd (without ?S (set (take k hs))) f" for k f
    using Cons.prems(2) [of "Suc k"] that by simp
  have h: "is_hash32 h" using Cons.prems(1) by simp
  have 1: "crash_triple (holds sd S) (remove_if_exists (block_path h)) C (\<lambda>ok f. ok \<and> holds sd ?S f)"
    by (rule triple_remove_if_exists) (auto intro: C0 holds_remove [OF h])
  have 2: "crash_triple (holds sd ?S) (remove_if_exists (legacy_json_block_path h)) C (\<lambda>ok f. ok \<and> holds sd ?S f)"
  proof (rule triple_remove_if_exists)
    fix f assume f: "holds sd ?S f"
    then show "C f" using C1 [of 0] by simp
    from f have "dir_ok sd f" by (simp add: holds_def)
    from f show "holds sd ?S (f(legacy_json_block_path h := None))"
      unfolding no_legacy_file [OF \<open>dir_ok sd f\<close> h] .
  qed
  have eq: "drop_hashes hs ((fi_index fi)(h := None)) = drop_hashes (h # hs) (fi_index fi)"
    by (auto simp: drop_hashes_def restrict_map_def fun_eq_iff)
  have 3: "crash_triple (holds sd ?S) (fi_remove_blocks hs (fi\<lparr>fi_index := (fi_index fi)(h := None)\<rparr>)) C
      (\<lambda>x f. x = (fi\<lparr>fi_index := drop_hashes (h # hs) (fi_index fi)\<rparr>, True) \<and> holds sd (without S (set (h # hs))) f)"
  proof -
    have "crash_triple (holds sd ?S) (fi_remove_blocks hs (fi\<lparr>fi_index := (fi_index fi)(h := None)\<rparr>)) C
        (\<lambda>x f. x = (fi\<lparr>fi_index := (fi_index fi)(h := None)\<rparr>\<lparr>fi_index := drop_hashes hs (fi_index
            (fi\<lparr>fi_index := (fi_index fi)(h := None)\<rparr>))\<rparr>, True) \<and> holds sd (without ?S (set hs)) f)"
      by (rule Cons.IH) (use Cons.prems(1) C1 in auto)
    then show ?thesis using eq by (simp only: file_immutable.simps without_without list.set insert_is_Un [symmetric]) simp
  qed
  show ?case
    unfolding fi_remove_blocks.simps by (intro triple_bind_ok [OF 1] triple_bind_ok [OF 2] 3)
qed

text \<open>A trim that dies has removed some of the blocks, in the order of the chain.\<close>

lemma triple_trim:
  assumes bs: "hashes_ok bs"
  shows "crash_triple (holds sd (set bs)) (fi_trim goes (fi_of bs n))
    (holds_one sd {without (set bs) (set (take k (map blk_hash (filter (\<lambda>b. goes (blk_slot b)) bs)))) | k. True})
    (\<lambda>x f. x = (fi_of (filter (\<lambda>b. \<not> goes (blk_slot b)) bs) n, Ok (length (filter (\<lambda>b. goes (blk_slot b)) bs)))
       \<and> holds sd (set (filter (\<lambda>b. \<not> goes (blk_slot b)) bs)) f)"
proof -
  let ?old = "filter (\<lambda>b. goes (blk_slot b)) bs" and ?new = "filter (\<lambda>b. \<not> goes (blk_slot b)) bs"
  let ?hs = "map blk_hash ?old"
  let ?C = "holds_one sd {without (set bs) (set (take k ?hs)) | k. True}"
  have old: "filter (\<lambda>h. goes (blk_slot (the (hash_index bs h)))) (map blk_hash bs) = ?hs"
    unfolding filter_map using hash_index_mem [OF bs]
    by (auto intro!: arg_cong [where f = "map blk_hash"] filter_cong)
  have hs: "\<forall>h\<in>set ?hs. is_hash32 h" using bs by (auto simp: hashes_ok_def)
  have kept: "blk_hash b \<notin> set ?hs \<longleftrightarrow> \<not> goes (blk_slot b)" if "b \<in> set bs" for b
    using that bs by (auto simp: hashes_ok_def distinct_map inj_on_def)
  then have new: "filter (\<lambda>b. blk_hash b \<notin> set ?hs) bs = ?new" by (rule filter_cong [OF refl])
  have rest: "without (set bs) (set ?hs) = set ?new" by (simp only: set_filter_hashes [symmetric] new)
  have chain: "filter (\<lambda>h. h \<notin> set ?hs) (map blk_hash bs) = map blk_hash ?new"
    unfolding filter_map o_def new ..
  have C: "?C f" if "holds sd (without (set bs) (set (take k ?hs))) f" for k f
    using that by (auto intro: holds_oneI)
  have C0: "?C f" if "holds sd (set bs) f" for f using C [of 0 f] that by simp
  have C1: "?C f" if "holds sd (set ?new) f" for f using C [of "length ?hs" f] that rest by simp
  have 1: "crash_triple (holds sd (set bs)) mark_dirty ?C (\<lambda>ok f. ok \<and> holds sd (set bs) f)"
    by (rule triple_flag_set) (rule C0)
  have 2: "crash_triple (holds sd (set bs)) (fi_remove_blocks ?hs (fi_of bs n)) ?C
      (\<lambda>x f. x = (fi_of bs n\<lparr>fi_index := hash_index ?new\<rparr>, True) \<and> holds sd (set ?new) f)"
  proof -
    have "crash_triple (holds sd (set bs)) (fi_remove_blocks ?hs (fi_of bs n)) ?C
        (\<lambda>x f. x = (fi_of bs n\<lparr>fi_index := drop_hashes ?hs (fi_index (fi_of bs n))\<rparr>, True)
          \<and> holds sd (without (set bs) (set ?hs)) f)"
      by (rule triple_remove_listed [OF hs]) (rule C)
    then show ?thesis unfolding rest fi_of_simps hash_index_drop new .
  qed
  have 3: "crash_triple (holds sd (set ?new)) mark_clean ?C (\<lambda>_. holds sd (set ?new))"
    by (rule triple_flag_clear) (rule C1)
  have fi: "fi_of bs n\<lparr>fi_index := hash_index ?new\<rparr>\<lparr>fi_chain := filter (\<lambda>h. h \<notin> set ?hs)
      (fi_chain (fi_of bs n\<lparr>fi_index := hash_index ?new\<rparr>))\<rparr> = fi_of ?new n"
  proof -
    have "fi_chain (fi_of bs n\<lparr>fi_index := hash_index ?new\<rparr>) = map blk_hash bs" by simp
    then show ?thesis by (simp only: chain fi_of_simps)
  qed
  have 4: "crash_triple (\<lambda>f. x = (fi_of bs n\<lparr>fi_index := hash_index ?new\<rparr>, True) \<and> holds sd (set ?new) f)
      (case x of (fi', ok) \<Rightarrow> if \<not> ok then fs_return (fi', Err Io) else fs_bind mark_clean (\<lambda>_. fs_return
         (fi'\<lparr>fi_chain := filter (\<lambda>h. h \<notin> set ?hs) (fi_chain fi')\<rparr>, Ok (length ?hs)))) ?C
      (\<lambda>x f. x = (fi_of ?new n, Ok (length ?old)) \<and> holds sd (set ?new) f)" for x
  proof (rule triple_pre)
    assume x: "x = (fi_of bs n\<lparr>fi_index := hash_index ?new\<rparr>, True)"
    show "crash_triple (holds sd (set ?new)) (case x of (fi', ok) \<Rightarrow> if \<not> ok then fs_return (fi', Err Io)
        else fs_bind mark_clean (\<lambda>_. fs_return
         (fi'\<lparr>fi_chain := filter (\<lambda>h. h \<notin> set ?hs) (fi_chain fi')\<rparr>, Ok (length ?hs)))) ?C
      (\<lambda>x f. x = (fi_of ?new n, Ok (length ?old)) \<and> holds sd (set ?new) f)"
      unfolding x prod.case fi not_True_eq_False if_False length_map
      by (intro triple_then [OF 3] triple_return) simp
  qed
  show ?thesis
    unfolding fi_trim_def fi_of_simps index_total [OF bs] if_False old Let_def
    by (intro triple_bind_ok [OF 1] triple_bind [OF 2] 4)
qed



section \<open>Opening\<close>

lemma triple_fi_open:
  assumes sd: "serde_ok sd"
  shows "crash_triple (holds sd S) (fi_open sd) (holds sd S)
    (\<lambda>x f. (\<exists>bs. x = Ok (fi_of bs 0) \<and> set bs = S \<and> hashes_ok bs \<and> sorted (map blk_slot bs)) \<and> holds sd S f)"
proof -
  let ?H = "holds sd S"
  let ?fi = "\<lambda>sc. \<lparr>fi_chain = map blk_hash (blocks_of_scan sc),
      fi_index = map_of (map (\<lambda>b. (blk_hash b, b)) (blocks_of_scan sc)), fi_skipped_on_open = snd sc\<rparr>"
  let ?Q = "\<lambda>fi. \<exists>bs. fi = fi_of bs 0 \<and> set bs = S \<and> hashes_ok bs \<and> sorted (map blk_slot bs)"
  have sync: "crash_triple ?H fs_sync ?H (\<lambda>ok f. ok \<and> ?H f)" by (rule triple_sync) auto
  have exists: "crash_triple ?H (fs_get (file_exists dirty_name)) ?H (\<lambda>_. ?H)" by (rule triple_get)
  have tmp: "crash_triple ?H (if a \<and> True then remove_tmp_files else fs_return ()) ?H (\<lambda>_. ?H)" for a
    by (auto intro: triple_remove_tmp triple_return noise_upd(4) tmp_noise)
  have names: "crash_triple ?H (fs_get (map fst)) ?H
      (\<lambda>names f. \<exists>g. (?H g \<and> ?Q (?fi (fold (scan_read sd g) names ([], 0)))) \<and> f = g)"
  proof (rule triple_get)
    fix fs assume fs: "distinct (map fst fs)" "?H (map_of fs)"
    have "?fi (fold (scan_read sd (map_of fs)) (map fst fs) ([], 0))
        = fi_of (blocks_of_scan (fold (scan_read sd (map_of fs)) (map fst fs) ([], 0))) 0"
      using scan_blocks(4) [OF sd fs(2,1) refl] by (simp add: fi_of_def hash_index_def)
    with fs scan_blocks [OF sd fs(2,1) refl] show "\<exists>g. (?H g \<and>
        ?Q (?fi (fold (scan_read sd g) (map fst fs) ([], 0)))) \<and> map_of fs = g" by blast
  qed
  have scan: "crash_triple (\<lambda>f. \<exists>g. (?H g \<and> ?Q (?fi (fold (scan_read sd g) names ([], 0)))) \<and> f = g)
      (scan_dir sd names ([], 0)) ?H (\<lambda>sc f. ?Q (?fi sc) \<and> ?H f)" for names
    by (intro triple_ex triple_pre) (auto intro!: triple_weaken [OF triple_scan])
  have flag: "crash_triple (\<lambda>f. A \<and> ?H f) (if a \<and> True then fs_remove dirty_name else fs_return True) ?H
      (\<lambda>_ f. A \<and> ?H f)" for A a
    by (auto intro!: triple_remove triple_return noise_upd noise_names)
  show ?thesis
    unfolding fi_open_def fi_open_inner_def Let_def blocks_of_scan_def [symmetric]
    by (intro triple_bind_ok [OF sync] triple_bind [OF exists] triple_then [OF tmp]
        triple_bind [OF names] triple_bind [OF scan] triple_then [OF flag] triple_return) auto
qed


section \<open>The contract\<close>

text \<open>
  The store with its directory, when nothing fails: the methods of the trait \<open>ImmutableStore\<close>.
\<close>

type_synonym ('c, 'tx) stored_immutable = "'tx file_immutable \<times> 'c files"

definition file_immutable_ops :: "('c, 'tx) serde \<Rightarrow> (('c, 'tx) stored_immutable, 'tx) immutable_ops" where
  "file_immutable_ops sd =
     \<lparr>io_append_block = (\<lambda>(fi, fs) b. case undisturbed (fi_append_block sd fi b) fs (fi, Panic) of
         ((fi', r), fs') \<Rightarrow> ((fi', fs'), r)),
      io_get_tip = (\<lambda>(fi, fs). case fi_get_tip fi of Ok p \<Rightarrow> p | _ \<Rightarrow> Origin),
      io_get_block = (\<lambda>(fi, fs). fi_get_block fi),
      io_contains_block = (\<lambda>(fi, fs). fi_contains_block fi),
      io_suffix_after = (\<lambda>(fi, fs). fi_suffix_after fi),
      io_len = (\<lambda>(fi, fs). fi_len fi),
      io_trim_before_slot = (\<lambda>(fi, fs) s. case undisturbed (fi_trim_before_slot fi s) fs (fi, Panic) of
         ((fi', r), fs') \<Rightarrow> ((fi', fs'), r)),
      io_trim_after_slot = (\<lambda>(fi, fs) s. case undisturbed (fi_trim_after_slot fi s) fs (fi, Panic) of
         ((fi', r), fs') \<Rightarrow> ((fi', fs'), r))\<rparr>"

definition stored_immutable_inv :: "('c, 'tx) serde \<Rightarrow> ('c, 'tx) stored_immutable \<Rightarrow> bool" where
  "stored_immutable_inv sd = (\<lambda>(fi, fs). serde_ok sd \<and> distinct (map fst fs)
     \<and> (\<exists>bs n. fi = fi_of bs n \<and> hashes_ok bs \<and> holds sd (set bs) (map_of fs)))"

definition immutable_blocks :: "('c, 'tx) stored_immutable \<Rightarrow> 'tx block list" where
  "immutable_blocks = (\<lambda>(fi, fs). List.map_filter (fi_index fi) (fi_chain fi))"

lemma immutable_blocks_of [simp]: "hashes_ok bs \<Longrightarrow> immutable_blocks (fi_of bs n, fs) = bs"
  by (simp add: immutable_blocks_def map_filter_hashes)

lemma stored_immutableE:
  assumes "stored_immutable_inv sd v"
  obtains bs n fs where "v = (fi_of bs n, fs)" "hashes_ok bs" "serde_ok sd" "distinct (map fst fs)"
    "holds sd (set bs) (map_of fs)" "immutable_blocks v = bs"
  using assms by (cases v) (auto simp: stored_immutable_inv_def)

lemma stored_immutableI:
  "serde_ok sd \<Longrightarrow> distinct (map fst fs) \<Longrightarrow> hashes_ok bs \<Longrightarrow> holds sd (set bs) (map_of fs) \<Longrightarrow>
     stored_immutable_inv sd (fi_of bs n, fs)"
  by (auto simp: stored_immutable_inv_def)

lemma file_immutable_append:
  assumes "stored_immutable_inv sd v" "is_hash32 (blk_hash b)"
  shows "implements (stored_immutable_inv sd) immutable_blocks (io_append_block (file_immutable_ops sd) v b)
    (im_append_block (immutable_blocks v) b)"
proof -
  from assms(1) obtain bs n fs where v: "v = (fi_of bs n, fs)" "hashes_ok bs" "serde_ok sd"
    "distinct (map fst fs)" "holds sd (set bs) (map_of fs)" "immutable_blocks v = bs"
    by (rule stored_immutableE)
  show ?thesis
  proof (cases "blk_hash b \<in> blk_hash ` set bs")
    case True
    then have "hash_index bs (blk_hash b) \<noteq> None" unfolding hash_index_None by simp
    with True v assms(1) show ?thesis
      by (auto simp: implements_def file_immutable_ops_def fi_append_block_def im_append_block_def
          list_ex_hash_iff undisturbed_def fs_return_def)
  next
    case False
    from undisturbed_run [OF triple_append [OF v(3) assms(2) False] v(4,5)] obtain fs' where
      "undisturbed (fi_append_block sd (fi_of bs n) b) fs (fi_of bs n, Panic) = ((fi_of (bs @ [b]) n, Ok ()), fs')"
      "distinct (map fst fs')" "holds sd (set (bs @ [b])) (map_of fs')" by blast
    with False v assms(2) hashes_ok_snoc [OF v(2) assms(2)] show ?thesis
      by (auto simp: implements_def file_immutable_ops_def im_append_block_def list_ex_hash_iff
          simp del: set_append intro!: stored_immutableI)
  qed
qed

lemma im_trim_eq:
  "im_trim_before_slot bs s = (filter (\<lambda>b. \<not> blk_slot b < s) bs, Ok (length (filter (\<lambda>b. blk_slot b < s) bs)))"
  "im_trim_after_slot bs s = (filter (\<lambda>b. \<not> blk_slot b > s) bs, Ok (length (filter (\<lambda>b. blk_slot b > s) bs)))"
proof -
  have "length (filter (\<lambda>b. \<not> P b) bs) + length (filter P bs) = length bs" for P :: "'a block \<Rightarrow> bool"
    using sum_length_filter_compl [of P bs] by simp
  from this [of "\<lambda>b. blk_slot b < s"] this [of "\<lambda>b. blk_slot b > s"]
  show "im_trim_before_slot bs s = (filter (\<lambda>b. \<not> blk_slot b < s) bs, Ok (length (filter (\<lambda>b. blk_slot b < s) bs)))"
    "im_trim_after_slot bs s = (filter (\<lambda>b. \<not> blk_slot b > s) bs, Ok (length (filter (\<lambda>b. blk_slot b > s) bs)))"
    by (simp_all add: im_trim_before_slot_def im_trim_after_slot_def Let_def not_less)
qed

interpretation file_immutable: immutable_store "file_immutable_ops sd" "stored_immutable_inv sd" immutable_blocks for sd
proof
  fix v
  assume v: "stored_immutable_inv sd v"
  then obtain bs n fs where eq: "v = (fi_of bs n, fs)" and bs: "hashes_ok bs" and sd: "serde_ok sd"
    and fs: "distinct (map fst fs)" "holds sd (set bs) (map_of fs)" and abs: "immutable_blocks v = bs"
    by (rule stored_immutableE)
  show "hashes_ok (immutable_blocks v)" by (simp add: abs bs)
  show "io_get_tip (file_immutable_ops sd) v = last_point (immutable_blocks v)"
    "io_get_block (file_immutable_ops sd) v h = im_get_block (immutable_blocks v) h"
    "io_contains_block (file_immutable_ops sd) v h = im_contains_block (immutable_blocks v) h"
    "io_suffix_after (file_immutable_ops sd) v p = im_suffix_after (immutable_blocks v) p"
    "io_len (file_immutable_ops sd) v = length (immutable_blocks v)" for h p
    unfolding abs by (simp_all add: file_immutable_ops_def eq fi_reads [OF bs])
  fix s
  from undisturbed_run [OF triple_trim [OF bs, of sd "\<lambda>x. x < s" n] fs] hashes_ok_sublists(3) [OF bs]
  show "implements (stored_immutable_inv sd) immutable_blocks (io_trim_before_slot (file_immutable_ops sd) v s)
      (im_trim_before_slot (immutable_blocks v) s)"
    unfolding abs im_trim_eq
    by (auto simp: implements_def file_immutable_ops_def fi_trim_before_slot_def eq sd simp del: set_filter
        intro!: stored_immutableI)
  from undisturbed_run [OF triple_trim [OF bs, of sd "\<lambda>x. x > s" n] fs] hashes_ok_sublists(3) [OF bs]
  show "implements (stored_immutable_inv sd) immutable_blocks (io_trim_after_slot (file_immutable_ops sd) v s)
      (im_trim_after_slot (immutable_blocks v) s)"
    unfolding abs im_trim_eq
    by (auto simp: implements_def file_immutable_ops_def fi_trim_after_slot_def eq sd simp del: set_filter
        intro!: stored_immutableI)
qed (rule file_immutable_append)



section \<open>Crashes\<close>

fun fi_reopen ::
    "('c, 'tx) serde \<Rightarrow> io_outcome list list \<Rightarrow> 'c files
       \<Rightarrow> ((storage_error, 'tx file_immutable) result \<times> 'c files) option" where
  "fi_reopen sd [] fs = None"
| "fi_reopen sd (plan # plans) fs =
     (case fi_open sd \<lparr>dk_files = fs, dk_plan = plan\<rparr> of
        Finished r d \<Rightarrow> Some (r, dk_files d)
      | Crashed d \<Rightarrow> fi_reopen sd plans (dk_files d))"

lemma fi_reopen_finds:
  assumes sd: "serde_ok sd" and fs: "distinct (map fst fs)" "holds sd S (map_of fs)"
    and plans: "\<forall>plan\<in>set plans. IoFail \<notin> set plan"
  shows "\<exists>bs fs'. fi_reopen sd (plans @ [[]]) fs = Some (Ok (fi_of bs 0), fs')
    \<and> set bs = S \<and> hashes_ok bs \<and> sorted (map blk_slot bs) \<and> stored_immutable_inv sd (fi_of bs 0, fs')"
  using fs plans
proof (induction plans arbitrary: fs)
  case Nil
  show ?case
    by (rule triple_run [OF triple_fi_open [OF sd] Nil(1,2), of "[]"]) (auto intro!: stored_immutableI [OF sd])
next
  case (Cons plan plans)
  from Cons.prems(3) have plan: "IoFail \<notin> set plan" by simp
  show ?case
    by (rule triple_run [OF triple_fi_open [OF sd] Cons.prems(1,2) plan])
      (use Cons.IH Cons.prems(3) in \<open>auto intro!: stored_immutableI [OF sd]\<close>)
qed

text \<open>A recovery finds exactly the blocks of the directory, if their slots increase.\<close>

lemma fi_reopen_chain:
  assumes "serde_ok sd" "distinct (map fst fs)" "holds sd (set bs) (map_of fs)"
    and "\<forall>plan\<in>set plans. IoFail \<notin> set plan" "slots_increase bs"
  shows "\<exists>fs'. fi_reopen sd (plans @ [[]]) fs = Some (Ok (fi_of bs 0), fs') \<and> stored_immutable_inv sd (fi_of bs 0, fs')"
  using fi_reopen_finds [OF assms(1-4)] slots_determine_order [of _ bs] assms(5) by metis

lemma slots_filter_prefix:
  assumes "slots_increase bs"
  obtains m where "filter (\<lambda>b. blk_slot b < s) bs = take m bs" "filter (\<lambda>b. \<not> blk_slot b < s) bs = drop m bs"
    "m \<le> length bs"
proof -
  have "\<exists>m \<le> length bs. filter (\<lambda>b. blk_slot b < s) bs = take m bs \<and> filter (\<lambda>b. \<not> blk_slot b < s) bs = drop m bs"
    using assms
  proof (induction bs)
    case (Cons b bs)
    show ?case
    proof (cases "blk_slot b < s")
      case True
      with Cons obtain m where "m \<le> length bs" "filter (\<lambda>b. blk_slot b < s) bs = take m bs"
        "filter (\<lambda>b. \<not> blk_slot b < s) bs = drop m bs"
        by (auto simp: slots_increase_def)
      with True show ?thesis by (intro exI [of _ "Suc m"]) simp
    next
      case False
      with Cons.prems have "\<not> blk_slot x < s" if "x \<in> set bs" for x
        using that by (force simp: slots_increase_def)
      with False show ?thesis by (intro exI [of _ 0]) (auto simp: filter_empty_conv)
    qed
  qed simp
  with that show thesis by blast
qed

datatype 'tx immutable_change = FiAppend "'tx block" | FiTrimBefore slot_no

fun fi_change ::
    "('c, 'tx) serde \<Rightarrow> 'tx immutable_change \<Rightarrow> 'tx file_immutable \<Rightarrow> ('c, 'tx file_immutable) fs" where
  "fi_change sd (FiAppend b) fi = fs_bind (fi_append_block sd fi b) (\<lambda>(fi', _). fs_return fi')"
| "fi_change sd (FiTrimBefore s) fi = fs_bind (fi_trim_before_slot fi s) (\<lambda>(fi', _). fs_return fi')"

text \<open>The chains \<open>bs\<close> that may be left of \<open>before\<close> when the process dies.\<close>

fun crash_outcome :: "'tx immutable_change \<Rightarrow> 'tx block list \<Rightarrow> 'tx block list \<Rightarrow> bool" where
  "crash_outcome (FiAppend b) before bs \<longleftrightarrow> bs = before \<or> bs = before @ [b]"
| "crash_outcome (FiTrimBefore s) before bs \<longleftrightarrow>
     suffix bs before \<and> suffix (filter (\<lambda>b. blk_slot b \<ge> s) before) bs"

lemma crash_append:
  assumes "serde_ok sd" "hashes_ok bs" "is_hash32 (blk_hash b)" "distinct (map fst fs)" "holds sd (set bs) (map_of fs)"
    and "IoFail \<notin> set plan" "fi_append_block sd (fi_of bs n) b \<lparr>dk_files = fs, dk_plan = plan\<rparr> = Crashed d"
  shows "distinct (map fst (dk_files d))" "\<exists>cs. crash_outcome (FiAppend b) bs cs \<and> holds sd (set cs) (map_of (dk_files d))"
proof -
  have new: "blk_hash b \<notin> blk_hash ` set bs"
  proof
    assume "blk_hash b \<in> blk_hash ` set bs"
    then have "hash_index bs (blk_hash b) \<noteq> None" unfolding hash_index_None by simp
    with assms(7) show False by (simp add: fi_append_block_def fs_return_def)
  qed
  from triple_crashed [OF triple_append [OF assms(1,3) new] assms(7)] assms(4,5,6)
  show "distinct (map fst (dk_files d))" "\<exists>cs. crash_outcome (FiAppend b) bs cs \<and> holds sd (set cs) (map_of (dk_files d))"
    by (auto simp: holds_one_def simp del: set_append)
qed

lemma crash_trim:
  assumes "hashes_ok bs" "slots_increase bs" "distinct (map fst fs)" "holds sd (set bs) (map_of fs)"
    and "IoFail \<notin> set plan" "fi_trim_before_slot (fi_of bs n) s \<lparr>dk_files = fs, dk_plan = plan\<rparr> = Crashed d"
  shows "distinct (map fst (dk_files d))" "\<exists>cs. crash_outcome (FiTrimBefore s) bs cs \<and> holds sd (set cs) (map_of (dk_files d))"
proof -
  note crashed = triple_crashed [OF triple_trim [OF assms(1)] assms(6) [unfolded fi_trim_before_slot_def], of sd]
  show "distinct (map fst (dk_files d))" using crashed(1) assms by simp
  obtain m where m: "filter (\<lambda>b. blk_slot b < s) bs = take m bs" "filter (\<lambda>b. \<not> blk_slot b < s) bs = drop m bs"
    "m \<le> length bs" by (rule slots_filter_prefix [OF assms(2)])
  from crashed(2) assms obtain k where
    "holds sd (without (set bs) (set (take k (map blk_hash (take m bs))))) (map_of (dk_files d))"
    unfolding m by (auto simp: holds_one_def)
  moreover have "take k (map blk_hash (take m bs)) = map blk_hash (take (min k m) bs)"
    by (simp add: take_map)
  moreover have "without (set bs) (set (map blk_hash (take (min k m) bs))) = set (drop (min k m) bs)"
    by (simp only: set_filter_hashes [symmetric] filter_hashes_split(1) [OF assms(1)])
  ultimately have "holds sd (set (drop (min k m) bs)) (map_of (dk_files d))" by (simp only:)
  moreover have "suffix (drop m bs) (drop (min k m) bs)"
    by (metis min.cobounded2 le_add_diff_inverse2 drop_drop suffix_drop)
  ultimately show "\<exists>cs. crash_outcome (FiTrimBefore s) bs cs \<and> holds sd (set cs) (map_of (dk_files d))"
    using m(2) suffix_drop [of "min k m" bs] by (auto simp: not_less)
qed

lemma slots_suffix: "slots_increase bs \<Longrightarrow> suffix cs bs \<Longrightarrow> slots_increase cs"
  by (auto simp: slots_increase_def suffix_def sorted_wrt_append)

text \<open>
  C6. A crash does not break the immutable chain. If the process dies while a block is being
  appended, recovery finds the chain without the block or with it; if it dies while old blocks are
  being collected, recovery finds a suffix of the chain that still has every block that was to be kept.
  Recovery may itself die any number of times. There are no I/O errors other than the crashes, and
  slots increase along the chain.
\<close>

theorem immutable_crash_safe:
  assumes store: "stored_immutable_inv sd (fi, fs)" and before: "before = immutable_blocks (fi, fs)"
    and slots: "slots_increase before" "\<forall>b. ch = FiAppend b \<longrightarrow> is_hash32 (blk_hash b) \<and> slots_increase (before @ [b])"
    and plans: "IoFail \<notin> set plan" "\<forall>plan\<in>set plans. IoFail \<notin> set plan"
    and crash: "fi_change sd ch fi \<lparr>dk_files = fs, dk_plan = plan\<rparr> = Crashed d"
  shows "\<exists>bs fs'. crash_outcome ch before bs
    \<and> fi_reopen sd (plans @ [[]]) (dk_files d) = Some (Ok (fi_of bs 0), fs') \<and> stored_immutable_inv sd (fi_of bs 0, fs')"
proof -
  from store obtain n where fi: "fi = fi_of before n" and bs: "hashes_ok before" and sd: "serde_ok sd"
    and fs: "distinct (map fst fs)" "holds sd (set before) (map_of fs)"
    unfolding before by (auto elim: stored_immutableE)
  have "distinct (map fst (dk_files d)) \<and> (\<exists>cs. crash_outcome ch before cs \<and> slots_increase cs
      \<and> holds sd (set cs) (map_of (dk_files d)))"
  proof (cases ch)
    case (FiAppend b)
    then have "fi_append_block sd (fi_of before n) b \<lparr>dk_files = fs, dk_plan = plan\<rparr> = Crashed d"
      using crash fi by (auto simp: fs_bind_def fs_return_def split: run.splits)
    from crash_append [OF sd bs _ fs plans(1) this] FiAppend slots show ?thesis by auto
  next
    case (FiTrimBefore s)
    then have "fi_trim_before_slot (fi_of before n) s \<lparr>dk_files = fs, dk_plan = plan\<rparr> = Crashed d"
      using crash fi by (auto simp: fs_bind_def fs_return_def split: run.splits)
    from crash_trim [OF bs slots(1) fs plans(1) this] FiTrimBefore slots_suffix [OF slots(1)] show ?thesis by auto
  qed
  with fi_reopen_chain [OF sd _ _ plans(2)] show ?thesis by blast
qed

lemma append_all:
  assumes "stored_immutable_inv sd v" "\<forall>b\<in>set bs. is_hash32 (blk_hash b)" "hashes_ok (immutable_blocks v @ bs)"
    and "v' = fold (\<lambda>b v. fst (io_append_block (file_immutable_ops sd) v b)) bs v"
  shows "stored_immutable_inv sd v' \<and> immutable_blocks v' = immutable_blocks v @ bs"
  using assms
proof (induction bs arbitrary: v)
  case (Cons b bs)
  let ?v = "fst (io_append_block (file_immutable_ops sd) v b)"
  have b: "is_hash32 (blk_hash b)" using Cons.prems(2) by simp
  have "\<not> list_ex (\<lambda>x. blk_hash x = blk_hash b) (immutable_blocks v)"
    using Cons.prems(3) unfolding list_ex_hash_iff by (simp add: hashes_ok_def)
  with file_immutable.i_append [OF Cons.prems(1) b]
  have "stored_immutable_inv sd ?v" "immutable_blocks ?v = immutable_blocks v @ [b]"
    by (simp_all add: implements_def im_append_block_def)
  with Cons.IH [of ?v] Cons.prems show ?case by simp
qed simp

lemma empty_immutable: "serde_ok sd \<Longrightarrow> stored_immutable_inv sd (fi_of [] n, [])"
  by (rule stored_immutableI) (simp_all add: holds_def dir_ok_def on_disk_def)

theorem immutable_crash_safe_witness:
  "\<exists>fi fs d. fi_change tagged_serde (FiTrimBefore 3) fi
      \<lparr>dk_files = fs, dk_plan = [IoOk, IoOk, IoOk, IoOk, IoCrash]\<rparr> = Crashed d
    \<and> (\<exists>bs fs'. crash_outcome (FiTrimBefore 3) [block_at 1, block_at 2, block_at 3] bs
      \<and> fi_reopen tagged_serde [[]] (dk_files d) = Some (Ok (fi_of bs 0), fs')
      \<and> stored_immutable_inv tagged_serde (fi_of bs 0, fs'))"
proof -
  let ?bs = "[block_at 1, block_at 2, block_at 3]"
  obtain fi fs where store: "(fi, fs) = fold (\<lambda>b v. fst (io_append_block (file_immutable_ops tagged_serde) v b))
      ?bs (fi_of [] 0, [])" by (metis surj_pair)
  have "hashes_ok ?bs" by code_simp
  with append_all [OF empty_immutable [OF tagged_serde_ok] _ _ store]
  have inv: "stored_immutable_inv tagged_serde (fi, fs)" "?bs = immutable_blocks (fi, fs)"
    by (auto simp: hashes_ok_def)
  have "(case fold (\<lambda>b v. fst (io_append_block (file_immutable_ops tagged_serde) v b)) ?bs (fi_of [] 0, []) of
      (fi, fs) \<Rightarrow> (case fi_change tagged_serde (FiTrimBefore 3) fi
          \<lparr>dk_files = fs, dk_plan = [IoOk, IoOk, IoOk, IoOk, IoCrash]\<rparr> of
        Finished _ _ \<Rightarrow> False | Crashed _ \<Rightarrow> True))"
    by code_simp
  then obtain d where d: "fi_change tagged_serde (FiTrimBefore 3) fi
      \<lparr>dk_files = fs, dk_plan = [IoOk, IoOk, IoOk, IoOk, IoCrash]\<rparr> = Crashed d"
    unfolding store [symmetric] by (auto split: run.splits)
  have slots: "slots_increase ?bs" by code_simp
  have "\<exists>bs fs'. crash_outcome (FiTrimBefore 3) ?bs bs \<and> fi_reopen tagged_serde ([] @ [[]]) (dk_files d)
      = Some (Ok (fi_of bs 0), fs') \<and> stored_immutable_inv tagged_serde (fi_of bs 0, fs')"
    by (rule immutable_crash_safe [OF inv slots _ _ _ d]) simp_all
  with d show ?thesis unfolding append_Nil by blast
qed

text \<open>
  Collection from the other end has no such guarantee: the blocks after the slot go in the order of
  the chain, so a crash leaves a gap. Here block 2 is gone and block 3 is still there.
\<close>

lemma trim_after_gap:
  "(case fold (\<lambda>b v. fst (io_append_block (file_immutable_ops tagged_serde) v b))
      [block_at 1, block_at 2, block_at 3] (fi_of [] 0, []) of
    (fi, fs) \<Rightarrow> (case fi_trim_after_slot fi 1 \<lparr>dk_files = fs, dk_plan = [IoOk, IoOk, IoOk, IoOk, IoCrash]\<rparr> of
      Finished _ _ \<Rightarrow> False
    | Crashed d \<Rightarrow> (case fi_reopen tagged_serde [[]] (dk_files d) of
        Some (Ok fi', _) \<Rightarrow> fi_chain fi' = [blk_hash (block_at 1), blk_hash (block_at 3)]
      | _ \<Rightarrow> False)))"
  by code_simp

end
