(* ===== verification/FileLedger.thy ===== *)
theory FileLedger
  imports Disk
begin

text \<open>
  The file-backed store of ledger snapshots, \<open>src/crates/storage/src/file_ledger.rs\<close>: one file
  \<open>snapshot_{slot}.dat\<close> for each snapshot and a dirty flag around every change. A file holds the
  bytes of the snapshot.

  The store meets the contract \<open>ledger_store\<close>; what it prints into names it reads back; a crash
  during a change loses no snapshot that the change was to keep.
\<close>

section \<open>Model\<close>

subsection \<open>Slots in names\<close>

text \<open>\<open>format!("{}", slot.0)\<close> and \<open>str::parse::<u64>\<close>, which takes a leading plus sign.\<close>

fun print_nat :: "nat \<Rightarrow> string" where
  "print_nat n =
     (if n < 10 then [''0123456789'' ! n] else print_nat (n div 10) @ [''0123456789'' ! (n mod 10)])"

fun parse_digits :: "nat \<Rightarrow> string \<Rightarrow> nat option" where
  "parse_digits acc [] = Some acc"
| "parse_digits acc (c # cs) =
     Option.bind (position (\<lambda>x. x = c) ''0123456789'') (\<lambda>d. parse_digits (10 * acc + d) cs)"

definition parse_u64 :: "string \<Rightarrow> u64 option" where
  "parse_u64 s =
     (let ds = (case s of c # cs \<Rightarrow> if c = CHR ''+'' then cs else s | [] \<Rightarrow> [])
      in if ds = [] then None
         else Option.bind (parse_digits 0 ds) (\<lambda>n. if n < 2 ^ 64 then Some (of_nat n) else None))"

definition snapshot_path :: "slot_no \<Rightarrow> string" where
  "snapshot_path slot = ''snapshot_'' @ print_nat (unat slot) @ ''.dat''"

definition strip_prefix :: "string \<Rightarrow> string \<Rightarrow> string option" where
  "strip_prefix p s = (if take (length p) s = p then Some (drop (length p) s) else None)"

definition strip_suffix :: "string \<Rightarrow> string \<Rightarrow> string option" where
  "strip_suffix p s = map_option rev (strip_prefix (rev p) (rev s))"

definition slot_of_name :: "string \<Rightarrow> slot_no option" where
  "slot_of_name n =
     Option.bind (strip_prefix ''snapshot_'' n) (\<lambda>s. Option.bind (strip_suffix ''.dat'' s) parse_u64)"

subsection \<open>The store\<close>

record file_ledger =
  fl_snapshots :: snapshots

fun fl_scan :: "string list \<Rightarrow> snapshots \<Rightarrow> (bytes, snapshots) fs" where
  "fl_scan [] ss = fs_return ss"
| "fl_scan (n # ns) ss =
     (case slot_of_name n of
        None \<Rightarrow> fl_scan ns ss
      | Some slot \<Rightarrow> fs_bind (fs_read n) (\<lambda>c. case c of
            Some data \<Rightarrow> fl_scan ns (ss @ [(slot, data)])
          | None \<Rightarrow> fl_scan ns ss))"

definition fl_open_inner :: "bool \<Rightarrow> (bytes, (storage_error, file_ledger) result) fs" where
  "fl_open_inner recover_dirty =
     fs_bind fs_sync (\<lambda>ok.
     if \<not> ok then fs_return (Err Io) else
     fs_bind (fs_get (file_exists dirty_name)) (\<lambda>had_dirty.
     fs_bind (if had_dirty \<and> recover_dirty then remove_tmp_files else fs_return ()) (\<lambda>_.
     fs_bind fs_sync (\<lambda>ok.
     if \<not> ok then fs_return (Err Io) else
     fs_bind (fs_get (map fst)) (\<lambda>names.
     fs_bind (fl_scan names []) (\<lambda>ss.
     fs_bind (if had_dirty \<and> recover_dirty then fs_remove dirty_name else fs_return True) (\<lambda>_.
     fs_return (Ok \<lparr>fl_snapshots = sort_key fst ss\<rparr>))))))))"

definition fl_open :: "(bytes, (storage_error, file_ledger) result) fs" where
  "fl_open = fl_open_inner True"

definition fl_open_read_only :: "(bytes, (storage_error, file_ledger) result) fs" where
  "fl_open_read_only = fl_open_inner False"

definition fl_save_snapshot ::
    "file_ledger \<Rightarrow> slot_no \<Rightarrow> bytes \<Rightarrow> (bytes, file_ledger \<times> (storage_error, unit) result) fs" where
  "fl_save_snapshot fl slot data =
     fs_bind mark_dirty (\<lambda>ok.
     if \<not> ok then fs_return (fl, Err Io) else
     fs_bind (atomic_write_file (snapshot_path slot) data) (\<lambda>ok.
     if \<not> ok then fs_return (fl, Err Io) else
     let ss = fl_snapshots fl;
         fl' = fl\<lparr>fl_snapshots := (case position (\<lambda>(s, _). s = slot) ss of
             Some i \<Rightarrow> ss[i := (slot, data)]
           | None \<Rightarrow> sort_key fst (ss @ [(slot, data)]))\<rparr>
     in fs_bind mark_clean (\<lambda>_. fs_return (fl', Ok ()))))"

definition fl_latest_snapshot :: "file_ledger \<Rightarrow> (slot_no \<times> bytes) option" where
  "fl_latest_snapshot fl = (if fl_snapshots fl = [] then None else Some (last (fl_snapshots fl)))"

definition fl_latest_snapshot_before_or_at :: "file_ledger \<Rightarrow> slot_no \<Rightarrow> (slot_no \<times> bytes) option" where
  "fl_latest_snapshot_before_or_at fl slot = List.find (\<lambda>(s, _). s \<le> slot) (rev (fl_snapshots fl))"

fun remove_snapshots :: "slot_no list \<Rightarrow> (bytes, bool) fs" where
  "remove_snapshots [] = fs_return True"
| "remove_snapshots (s # ss) = fs_try (remove_if_exists (snapshot_path s)) (remove_snapshots ss)"

definition fl_truncate_after ::
    "file_ledger \<Rightarrow> slot_no option \<Rightarrow> (bytes, file_ledger \<times> (storage_error, unit) result) fs" where
  "fl_truncate_after fl slot =
     fs_bind mark_dirty (\<lambda>ok.
     if \<not> ok then fs_return (fl, Err Io) else
     let keeps = (\<lambda>s. case slot of Some limit \<Rightarrow> s \<le> limit | None \<Rightarrow> False);
         retained = filter (\<lambda>(s, _). keeps s) (fl_snapshots fl)
     in fs_bind (remove_snapshots (filter (\<lambda>s. \<not> keeps s) (map fst (fl_snapshots fl)))) (\<lambda>ok.
        if \<not> ok then fs_return (fl, Err Io) else
        fs_bind mark_clean (\<lambda>_. fs_return
          (fl\<lparr>fl_snapshots := (if slot = None then [] else retained)\<rparr>, Ok ()))))"

definition fl_retain_latest ::
    "file_ledger \<Rightarrow> nat \<Rightarrow> (bytes, file_ledger \<times> (storage_error, unit) result) fs" where
  "fl_retain_latest fl max_snapshots =
     (if max_snapshots = 0 then fl_truncate_after fl None
      else if length (fl_snapshots fl) \<le> max_snapshots then fs_return (fl, Ok ())
      else
        let remove_count = length (fl_snapshots fl) - max_snapshots;
            removed = map fst (take remove_count (fl_snapshots fl))
        in fs_bind mark_dirty (\<lambda>ok.
           if \<not> ok then fs_return (fl, Err Io) else
           fs_bind (remove_snapshots removed) (\<lambda>ok.
           if \<not> ok then fs_return (fl, Err Io) else
           fs_bind mark_clean (\<lambda>_. fs_return
             (fl\<lparr>fl_snapshots := drop remove_count (fl_snapshots fl)\<rparr>, Ok ())))))"

definition fl_count :: "file_ledger \<Rightarrow> nat" where
  "fl_count fl = length (fl_snapshots fl)"


section \<open>Names\<close>

declare print_nat.simps [simp del]

lemma digit_pos: "d < 10 \<Longrightarrow> position (\<lambda>x. x = ''0123456789'' ! d) ''0123456789'' = Some d"
proof -
  have "\<forall>d\<in>{0..<10}. position (\<lambda>x. x = ''0123456789'' ! d) ''0123456789'' = Some d"
    by (simp add: upt_rec flip: set_upt)
  then show "d < 10 \<Longrightarrow> position (\<lambda>x. x = ''0123456789'' ! d) ''0123456789'' = Some d" by simp
qed

lemma digit_plain: "d < 10 \<Longrightarrow> ''0123456789'' ! d \<notin> {CHR ''.'', CHR ''+''}"
proof -
  have "\<forall>d\<in>{0..<10}. ''0123456789'' ! d \<notin> {CHR ''.'', CHR ''+''}" by (simp add: upt_rec flip: set_upt)
  then show "d < 10 \<Longrightarrow> ''0123456789'' ! d \<notin> {CHR ''.'', CHR ''+''}" by simp
qed

lemma parse_digits_append: "parse_digits acc (xs @ ys) = Option.bind (parse_digits acc xs) (\<lambda>a. parse_digits a ys)"
  by (induction xs arbitrary: acc) (simp_all split: Option.bind_split)

lemma parse_print: "parse_digits 0 (print_nat n) = Some n"
proof (induction n rule: print_nat.induct)
  case (1 n)
  show ?case
  proof (cases "n < 10")
    case False
    with 1 have "parse_digits 0 (print_nat n) = parse_digits (n div 10) [''0123456789'' ! (n mod 10)]"
      by (subst print_nat.simps) (simp add: parse_digits_append del: parse_digits.simps)
    also have "\<dots> = Some n" using digit_pos [of "n mod 10"] by simp
    finally show ?thesis .
  qed (use digit_pos in \<open>simp add: print_nat.simps\<close>)
qed

lemma print_nat_chars: "CHR ''.'' \<notin> set (print_nat n) \<and> CHR ''+'' \<notin> set (print_nat n) \<and> print_nat n \<noteq> []"
proof (induction n rule: print_nat.induct)
  case (1 n)
  with digit_plain [of n] digit_plain [of "n mod 10"] show ?case
    by (subst (1 2 3) print_nat.simps) auto
qed

lemma parse_u64_print: "parse_u64 (print_nat (unat s)) = Some (s :: u64)"
proof -
  from print_nat_chars [of "unat s"] obtain c cs where "print_nat (unat s) = c # cs" "c \<noteq> CHR ''+''"
    by (metis list.exhaust list.set_intros(1))
  then have "(case print_nat (unat s) of c # cs \<Rightarrow> if c = CHR ''+'' then cs else print_nat (unat s) | [] \<Rightarrow> [])
      = print_nat (unat s)" by simp
  with parse_print [of "unat s"] unat_lt_2p [of s] print_nat_chars [of "unat s"] show ?thesis
    by (simp add: parse_u64_def Let_def)
qed

lemma strip_suffix_append [simp]: "strip_suffix p (s @ p) = Some s"
  by (simp add: strip_suffix_def strip_prefix_def)

lemma strip_prefix_append [simp]: "strip_prefix p (p @ s) = Some s"
  by (simp add: strip_prefix_def)

lemma slot_of_snapshot_path [simp]: "slot_of_name (snapshot_path s) = Some s"
  unfolding slot_of_name_def snapshot_path_def by (simp add: parse_u64_print del: append.simps)

lemma snapshot_path_inj [simp]: "snapshot_path a = snapshot_path b \<longleftrightarrow> a = b"
  by (metis option.inject slot_of_snapshot_path)

lemma file_ext_snapshot: "file_ext (snapshot_path s) = Some ''dat''"
  using file_ext_append [of "''dat''" "''snapshot_'' @ print_nat (unat s)"] by (simp add: snapshot_path_def)

lemma tmp_snapshot: "with_ext (snapshot_path s) ''tmp'' = ''snapshot_'' @ print_nat (unat s) @ ''.tmp''"
  unfolding with_ext_def file_ext_snapshot by (simp add: snapshot_path_def)



section \<open>The directory\<close>

text \<open>The snapshots of a directory are those of a map, and no other file is taken for a snapshot.\<close>

definition ledger_dir :: "(slot_no \<rightharpoonup> bytes) \<Rightarrow> bytes dir \<Rightarrow> bool" where
  "ledger_dir m f \<longleftrightarrow> (\<forall>s. f (snapshot_path s) = map_option Some (m s))
     \<and> (\<forall>n s. f n \<noteq> None \<longrightarrow> slot_of_name n = Some s \<longrightarrow> n = snapshot_path s)"

lemma slot_of_other_names:
  "slot_of_name dirty_name = None" "slot_of_name (''snapshot_'' @ print_nat k @ ''.tmp'') = None"
  by (simp_all add: slot_of_name_def dirty_name_def strip_prefix_def strip_suffix_def)

lemma file_ext_dat:
  assumes "slot_of_name n = Some s"
  shows "file_ext n \<noteq> Some ''tmp''"
proof -
  from assms obtain x where "strip_prefix ''snapshot_'' n = Some x" "strip_suffix ''.dat'' x \<noteq> None"
    by (auto simp: slot_of_name_def bind_eq_Some_conv)
  then obtain y where n: "n = ''snapshot_'' @ y @ ''.dat''"
    by (auto simp: strip_prefix_def strip_suffix_def split: if_splits)
      (metis append_take_drop_id rev_append rev_rev_ident rev.simps append.assoc append_Cons append_Nil)
  then show ?thesis using file_ext_append [of "''dat''" "''snapshot_'' @ y"] by simp
qed

lemma ledger_dir_other:
  "ledger_dir m f \<Longrightarrow> slot_of_name n = None \<Longrightarrow> ledger_dir m (f(n := x))"
  by (auto simp: ledger_dir_def)

lemma ledger_dir_write: "ledger_dir m f \<Longrightarrow> ledger_dir (m(s \<mapsto> d)) (f(snapshot_path s \<mapsto> Some d))"
  by (auto simp: ledger_dir_def)

lemma ledger_dir_remove: "ledger_dir m f \<Longrightarrow> ledger_dir (m(s := None)) (f(snapshot_path s := None))"
  by (auto simp: ledger_dir_def)

text \<open>The directory has one of these maps.\<close>

definition ledger_one :: "(slot_no \<rightharpoonup> bytes) set \<Rightarrow> bytes dir \<Rightarrow> bool" where
  "ledger_one M f \<longleftrightarrow> (\<exists>m\<in>M. ledger_dir m f)"

lemma ledger_oneI: "ledger_dir m f \<Longrightarrow> m \<in> M \<Longrightarrow> ledger_one M f"
  by (auto simp: ledger_one_def)

lemma triple_ledger_dirty:
  "m \<in> M \<Longrightarrow> crash_triple (ledger_dir m) mark_dirty (ledger_one M) (\<lambda>ok f. ok \<and> ledger_dir m f)"
  by (rule triple_mark_dirty) (auto intro!: ledger_oneI ledger_dir_other slot_of_other_names)

lemma triple_ledger_clean:
  "m \<in> M \<Longrightarrow> crash_triple (ledger_dir m) mark_clean (ledger_one M) (\<lambda>_. ledger_dir m)"
  by (rule triple_mark_clean) (auto intro!: ledger_oneI ledger_dir_other slot_of_other_names)

lemma triple_write_snapshot:
  assumes "m \<in> M" "m(s \<mapsto> d) \<in> M"
  shows "crash_triple (ledger_dir m) (atomic_write_file (snapshot_path s) d) (ledger_one M)
    (\<lambda>ok f. ok \<and> ledger_dir (m(s \<mapsto> d)) f)"
proof (rule triple_atomic_write [OF tmp_snapshot])
  let ?t = "''snapshot_'' @ print_nat (unat s) @ ''.tmp''"
  show "?t \<noteq> snapshot_path s" by (simp add: snapshot_path_def)
  fix f x assume f: "ledger_dir m f"
  have tmp: "ledger_dir m (f(?t := y))" for y by (rule ledger_dir_other [OF f slot_of_other_names(2)])
  have wrote: "ledger_dir (m(s \<mapsto> d)) (f(?t := None, snapshot_path s \<mapsto> Some d))"
    by (rule ledger_dir_write [OF tmp])
  show "ledger_one M f \<and> ledger_one M (f(?t \<mapsto> x)) \<and> ledger_one M (f(?t := None, snapshot_path s \<mapsto> Some d))"
    using f tmp wrote assms by (blast intro: ledger_oneI)
  from wrote show "True \<and> ledger_dir (m(s \<mapsto> d)) (f(?t := None, snapshot_path s \<mapsto> Some d))" by simp
qed

lemma triple_remove_snapshots:
  assumes "\<And>k. m |` (- set (take k ss)) \<in> M"
  shows "crash_triple (ledger_dir m) (remove_snapshots ss) (ledger_one M)
    (\<lambda>ok f. ok \<and> ledger_dir (m |` (- set ss)) f)"
  using assms
proof (induction ss arbitrary: m)
  case Nil
  then show ?case by (simp add: triple_return)
next
  case (Cons s ss)
  have eq: "m(s := None) |` (- set xs) = m |` (- set (s # xs))" for xs
    by (auto simp: restrict_map_def fun_eq_iff)
  have "crash_triple (ledger_dir m) (remove_if_exists (snapshot_path s)) (ledger_one M)
      (\<lambda>ok f. ok \<and> ledger_dir (m(s := None)) f)"
    using Cons.prems [of 0] by (intro triple_remove_if_exists) (auto intro: ledger_oneI ledger_dir_remove)
  moreover have M: "m(s := None) |` (- set (take k ss)) \<in> M" for k
    using Cons.prems [of "Suc k"] unfolding eq by simp
  have "crash_triple (ledger_dir (m(s := None))) (remove_snapshots ss) (ledger_one M)
      (\<lambda>ok f. ok \<and> ledger_dir (m |` (- set (s # ss))) f)"
    using Cons.IH [OF M] unfolding eq .
  ultimately show ?case unfolding remove_snapshots.simps by (rule triple_try)
qed


section \<open>Changes\<close>

lemma option_eqI: "(\<And>v. a = Some v \<longleftrightarrow> b = Some v) \<Longrightarrow> a = b"
  by (cases a; cases b) auto

lemma map_of_save:
  assumes "snapshots_ok ss"
  shows "map_of (fst (lm_save_snapshot ss s d)) = (map_of ss)(s \<mapsto> d)"
proof -
  let ?ss = "fst (lm_save_snapshot ss s d)"
  have ok: "distinct (map fst ?ss)" "distinct (map fst ss)"
    using snapshots_ok_save [OF assms, of s d] assms by (simp_all add: snapshots_ok_def)
  have elems: "set ?ss = insert (s, d) {x \<in> set ss. fst x \<noteq> s}"
  proof (cases "position (\<lambda>(x, _). x = s) ss")
    case None
    then have "\<forall>x\<in>set ss. fst x \<noteq> s" by auto
    then show ?thesis unfolding lm_save_snapshot_def None option.case fst_conv set_sort set_append by auto
  next
    case (Some i)
    then have i: "i < length ss" "fst (ss ! i) = s" using position_SomeD [OF Some] by (auto split: prod.splits)
    define xs ys where "xs = take i ss" and "ys = drop (Suc i) ss"
    have ss: "ss = xs @ ss ! i # ys" unfolding xs_def ys_def by (rule id_take_nth_drop [OF i(1)])
    from i have upd: "ss[i := (s, d)] = xs @ (s, d) # ys" by (simp add: xs_def ys_def upd_conv_take_nth_drop)
    have "distinct (map fst (xs @ ss ! i # ys))" using ok(2) unfolding ss [symmetric] .
    then have "s \<notin> fst ` set xs" "s \<notin> fst ` set ys" using i(2) by auto
    then have "{x \<in> set (xs @ ss ! i # ys). fst x \<noteq> s} = set xs \<union> set ys"
      using i(2) by (auto simp: image_iff)
    then have "{x \<in> set ss. fst x \<noteq> s} = set xs \<union> set ys" unfolding ss [symmetric] .
    then show ?thesis unfolding lm_save_snapshot_def Some option.case fst_conv upd by auto
  qed
  have "map_of ?ss k = Some v \<longleftrightarrow> ((map_of ss)(s \<mapsto> d)) k = Some v" for k v
    using ok elems by (auto simp: map_of_eq_Some_iff)
  then show ?thesis by (intro ext option_eqI)
qed

lemma restrict_UNIV: "m |` UNIV = m"
  by (simp add: restrict_map_def)

lemma map_of_filter_keys:
  "map_of (filter (\<lambda>(s, _). P s) ss) = map_of ss |` {s. P s}"
  by (induction ss) (auto simp: restrict_map_def fun_eq_iff)

definition fl_of :: "snapshots \<Rightarrow> file_ledger" where
  "fl_of ss = \<lparr>fl_snapshots = ss\<rparr>"

lemma fl_of_simps [simp]: "fl_snapshots (fl_of ss) = ss" "fl_of ss\<lparr>fl_snapshots := ss'\<rparr> = fl_of ss'"
  by (simp_all add: fl_of_def)

lemma fl_of_snapshots [simp]: "fl_of (fl_snapshots fl) = fl"
  by (simp add: fl_of_def)

lemma triple_save:
  assumes ok: "snapshots_ok ss"
  shows "crash_triple (ledger_dir (map_of ss)) (fl_save_snapshot (fl_of ss) s d)
    (ledger_one {map_of ss, map_of (fst (lm_save_snapshot ss s d))})
    (\<lambda>x f. x = (fl_of (fst (lm_save_snapshot ss s d)), snd (lm_save_snapshot ss s d))
       \<and> ledger_dir (map_of (fst (lm_save_snapshot ss s d))) f)"
proof -
  let ?ss = "fst (lm_save_snapshot ss s d)" and ?M = "{map_of ss, map_of (fst (lm_save_snapshot ss s d))}"
  have ss: "(case position (\<lambda>(x, _). x = s) ss of Some i \<Rightarrow> ss[i := (s, d)] | None \<Rightarrow> sort_key fst (ss @ [(s, d)])) = ?ss"
    "snd (lm_save_snapshot ss s d) = Ok ()"
    by (simp_all add: lm_save_snapshot_def del: position_None_iff split: option.split)
  have 1: "crash_triple (ledger_dir (map_of ss)) mark_dirty (ledger_one ?M) (\<lambda>ok f. ok \<and> ledger_dir (map_of ss) f)"
    by (rule triple_ledger_dirty) simp
  have 2: "crash_triple (ledger_dir (map_of ss)) (atomic_write_file (snapshot_path s) d) (ledger_one ?M)
      (\<lambda>ok f. ok \<and> ledger_dir (map_of ?ss) f)"
    unfolding map_of_save [OF ok] by (rule triple_write_snapshot) simp_all
  have 3: "crash_triple (ledger_dir (map_of ?ss)) mark_clean (ledger_one ?M) (\<lambda>_. ledger_dir (map_of ?ss))"
    by (rule triple_ledger_clean) simp
  show ?thesis
    unfolding fl_save_snapshot_def fl_of_simps ss Let_def
    by (intro triple_bind_ok [OF 1] triple_bind_ok [OF 2] triple_then [OF 3] triple_return) simp
qed

text \<open>Removals: the rest of the map, in the order of the slots.\<close>

lemma triple_removal:
  assumes new: "map_of ss' = map_of ss |` (- set gone)"
  shows "crash_triple (ledger_dir (map_of ss))
      (fs_bind mark_dirty (\<lambda>ok. if \<not> ok then e1 else
       fs_bind (remove_snapshots gone) (\<lambda>ok. if \<not> ok then e2 else
       fs_bind mark_clean (\<lambda>_. fs_return r))))
      (ledger_one {map_of ss |` (- set (take k gone)) | k. True})
      (\<lambda>x f. x = r \<and> ledger_dir (map_of ss') f)"
proof -
  let ?M = "{map_of ss |` (- set (take k gone)) | k. True}"
  have M: "map_of ss |` (- set (take k gone)) \<in> ?M" for k by blast
  have 1: "crash_triple (ledger_dir (map_of ss)) mark_dirty (ledger_one ?M) (\<lambda>ok f. ok \<and> ledger_dir (map_of ss) f)"
    using M [of 0] by (intro triple_ledger_dirty) (simp only: take_0 list.set(1) Compl_empty_eq restrict_UNIV)
  have 2: "crash_triple (ledger_dir (map_of ss)) (remove_snapshots gone) (ledger_one ?M)
      (\<lambda>ok f. ok \<and> ledger_dir (map_of ss') f)"
    unfolding new by (rule triple_remove_snapshots [OF M])
  have 3: "crash_triple (ledger_dir (map_of ss')) mark_clean (ledger_one ?M) (\<lambda>_. ledger_dir (map_of ss'))"
    using M [of "length gone"] by (intro triple_ledger_clean) (simp add: new)
  show ?thesis
    by (intro triple_bind_ok [OF 1] triple_bind_ok [OF 2] triple_then [OF 3] triple_return) simp
qed

definition truncated :: "snapshots \<Rightarrow> slot_no option \<Rightarrow> slot_no list" where
  "truncated ss so = filter (\<lambda>s. \<not> (case so of Some limit \<Rightarrow> s \<le> limit | None \<Rightarrow> False)) (map fst ss)"

lemma map_of_truncate: "map_of (fst (lm_truncate_after ss so)) = map_of ss |` (- set (truncated ss so))"
proof (cases so)
  case None
  have "map_of ss |` (- fst ` set ss) = Map.empty"
    by (auto simp: restrict_map_def fun_eq_iff map_of_eq_None_iff)
  with None show ?thesis by (simp add: truncated_def)
next
  case (Some l)
  then show ?thesis
    by (auto simp: truncated_def map_of_filter_keys restrict_map_def fun_eq_iff) (metis map_of_eq_None_iff)
qed

lemma triple_truncate:
  "crash_triple (ledger_dir (map_of ss)) (fl_truncate_after (fl_of ss) so)
    (ledger_one {map_of ss |` (- set (take k (truncated ss so))) | k. True})
    (\<lambda>x f. x = (fl_of (fst (lm_truncate_after ss so)), snd (lm_truncate_after ss so))
       \<and> ledger_dir (map_of (fst (lm_truncate_after ss so))) f)"
proof -
  have "(if so = None then [] else filter (\<lambda>(s, _). case so of Some limit \<Rightarrow> s \<le> limit | None \<Rightarrow> False) ss)
      = fst (lm_truncate_after ss so)" "snd (lm_truncate_after ss so) = Ok ()"
    by (cases so; simp)+
  then show ?thesis
    unfolding fl_truncate_after_def fl_of_simps Let_def truncated_def [symmetric]
    by (simp only:) (rule triple_removal [OF map_of_truncate])
qed

lemma map_of_drop:
  assumes "distinct (map fst ss)"
  shows "map_of (drop k ss) = map_of ss |` (- set (map fst (take k ss)))"
proof -
  have eq: "map_of ss = map_of (drop k ss) ++ map_of (take k ss)"
    by (metis append_take_drop_id map_of_append)
  have disj: "set (map fst (take k ss)) \<inter> set (map fst (drop k ss)) = {}"
    using assms by (metis append_take_drop_id distinct_append map_append)
  have "map_of (drop k ss) x = (map_of ss |` (- set (map fst (take k ss)))) x" for x
  proof (cases "x \<in> set (map fst (take k ss))")
    case True
    with disj have "x \<notin> fst ` set (drop k ss)" by auto
    then have "map_of (drop k ss) x = None" by (simp add: map_of_eq_None_iff)
    with True show ?thesis by (simp only: restrict_map_def Compl_iff simp_thms if_False)
  next
    case False
    then have "map_of (take k ss) x = None" by (simp add: map_of_eq_None_iff)
    with False show ?thesis unfolding eq by (simp only: restrict_map_def Compl_iff simp_thms if_True map_add_def option.case)
  qed
  then show ?thesis by (rule ext)
qed

definition retired :: "snapshots \<Rightarrow> nat \<Rightarrow> slot_no list" where
  "retired ss n = map fst (take (length ss - n) ss)"

lemma map_of_retain:
  assumes "snapshots_ok ss"
  shows "map_of (fst (lm_retain_latest ss n)) = map_of ss |` (- set (retired ss n))"
proof -
  have "fst (lm_retain_latest ss n) = drop (length ss - n) ss" by (simp add: lm_retain_latest_def)
  with assms show ?thesis unfolding retired_def by (metis map_of_drop snapshots_ok_def)
qed

lemma triple_retain:
  assumes ok: "snapshots_ok ss"
  shows "crash_triple (ledger_dir (map_of ss)) (fl_retain_latest (fl_of ss) n)
    (ledger_one {map_of ss |` (- set (take k (retired ss n))) | k. True})
    (\<lambda>x f. x = (fl_of (fst (lm_retain_latest ss n)), snd (lm_retain_latest ss n))
       \<and> ledger_dir (map_of (fst (lm_retain_latest ss n))) f)"
proof -
  consider "n = 0" | "n \<noteq> 0" "length ss \<le> n" | "n \<noteq> 0" "\<not> length ss \<le> n" by linarith
  then show ?thesis
  proof cases
    case 1
    then show ?thesis
      using triple_truncate [of ss None]
      by (simp add: fl_retain_latest_def lm_retain_latest_def truncated_def retired_def)
  next
    case 2
    then show ?thesis by (simp add: fl_retain_latest_def lm_retain_latest_def triple_return)
  next
    case 3
    let ?k = "length ss - n"
    have "lm_retain_latest ss n = (drop ?k ss, Ok ())" using 3 by (simp add: lm_retain_latest_def)
    moreover have "fl_retain_latest (fl_of ss) n
        = fs_bind mark_dirty (\<lambda>ok. if \<not> ok then fs_return (fl_of ss, Err Io) else
          fs_bind (remove_snapshots (retired ss n)) (\<lambda>ok. if \<not> ok then fs_return (fl_of ss, Err Io) else
          fs_bind mark_clean (\<lambda>_. fs_return (fl_of (drop ?k ss), Ok ()))))"
      using 3 by (simp only: fl_retain_latest_def fl_of_simps Let_def if_False retired_def)
    ultimately show ?thesis using triple_removal [OF map_of_retain [OF ok, of n]] by (simp only: fst_conv snd_conv)
  qed
qed


section \<open>Opening\<close>

definition read_snapshot :: "bytes dir \<Rightarrow> string \<Rightarrow> (slot_no \<times> bytes) option" where
  "read_snapshot g n =
     Option.bind (slot_of_name n) (\<lambda>s. map_option (Pair s) (Option.bind (g n) (\<lambda>c. c)))"

lemma triple_fl_scan:
  assumes "C g"
  shows "crash_triple (\<lambda>f. f = g) (fl_scan ns ss) C (\<lambda>x f. x = ss @ List.map_filter (read_snapshot g) ns \<and> f = g)"
proof (induction ns arbitrary: ss)
  case Nil
  then show ?case by (simp add: triple_return map_filter_simps)
next
  case (Cons n ns)
  show ?case
  proof (cases "slot_of_name n")
    case None
    with Cons.IH [of ss] show ?thesis by (simp add: read_snapshot_def map_filter_simps)
  next
    case (Some s)
    have "crash_triple (\<lambda>f. f = g) (fs_read n) C (\<lambda>c f. c = Option.bind (g n) (\<lambda>c. c) \<and> f = g)"
      by (rule triple_read) (simp_all add: assms)
    moreover have "crash_triple (\<lambda>f. c = Option.bind (g n) (\<lambda>c. c) \<and> f = g)
        (case c of Some data \<Rightarrow> fl_scan ns (ss @ [(s, data)]) | None \<Rightarrow> fl_scan ns ss) C
        (\<lambda>x f. x = ss @ List.map_filter (read_snapshot g) (n # ns) \<and> f = g)" for c
    proof (rule triple_pre)
      assume c: "c = Option.bind (g n) (\<lambda>c. c)"
      have "List.map_filter (read_snapshot g) (n # ns)
          = (case c of Some d \<Rightarrow> [(s, d)] | None \<Rightarrow> []) @ List.map_filter (read_snapshot g) ns"
        by (simp add: read_snapshot_def map_filter_simps Some c [symmetric] split: option.split)
      then show "crash_triple (\<lambda>f. f = g)
          (case c of Some data \<Rightarrow> fl_scan ns (ss @ [(s, data)]) | None \<Rightarrow> fl_scan ns ss) C
          (\<lambda>x f. x = ss @ List.map_filter (read_snapshot g) (n # ns) \<and> f = g)"
        using Cons.IH [of ss] Cons.IH [of "ss @ [(s, the c)]"] by (cases c) simp_all
    qed
    ultimately show ?thesis unfolding fl_scan.simps Some option.case by (rule triple_bind)
  qed
qed

lemma read_snapshot_iff:
  assumes "ledger_dir m f"
  shows "read_snapshot f n = Some (s, d) \<longleftrightarrow> n = snapshot_path s \<and> m s = Some d"
  using assms by (auto simp: ledger_dir_def read_snapshot_def bind_eq_Some_conv)

lemma in_map_filter: "y \<in> set (List.map_filter f xs) \<longleftrightarrow> (\<exists>x\<in>set xs. f x = Some y)"
  by (force simp: List.map_filter_def)

lemma scanned_snapshots:
  assumes dir: "ledger_dir m (map_of fs)" and names: "distinct (map fst fs)"
    and ss: "ss = sort_key fst (List.map_filter (read_snapshot (map_of fs)) (map fst fs))"
  shows "snapshots_ok ss" "map_of ss = m"
proof -
  let ?L = "List.map_filter (read_snapshot (map_of fs)) (map fst fs)"
  have elem: "(s, d) \<in> set ?L \<longleftrightarrow> m s = Some d" for s d
  proof -
    have "snapshot_path s \<in> fst ` set fs" if "m s = Some d"
    proof -
      from dir that have "map_of fs (snapshot_path s) = Some (Some d)" by (simp add: ledger_dir_def)
      then show ?thesis by (metis domI dom_map_of_conv_image_fst)
    qed
    moreover have "(s, d) \<in> set ?L \<longleftrightarrow> (\<exists>n\<in>fst ` set fs. read_snapshot (map_of fs) n = Some (s, d))"
      by (simp add: in_map_filter)
    ultimately show ?thesis by (auto simp: read_snapshot_iff [OF dir])
  qed
  have "distinct (map fst (List.map_filter (read_snapshot (map_of fs)) ns))" if "distinct ns" for ns
    using that
  proof (induction ns)
    case (Cons n ns)
    have "s \<notin> fst ` set (List.map_filter (read_snapshot (map_of fs)) ns)"
      if "read_snapshot (map_of fs) n = Some (s, d)" for s d
      using that Cons.prems by (auto simp: in_map_filter read_snapshot_iff [OF dir])
    with Cons show ?case by (auto simp: map_filter_simps split: option.split)
  qed (simp add: map_filter_simps)
  from this [OF names] have "distinct (map fst ?L)" .
  then have "distinct (map fst ss)" unfolding ss by (simp only: distinct_map distinct_sort set_sort simp_thms)
  then show ok: "snapshots_ok ss" by (simp add: snapshots_ok_def ss)
  have "map_of ss k = Some v \<longleftrightarrow> m k = Some v" for k v
    using \<open>distinct (map fst ss)\<close> elem by (simp add: map_of_eq_Some_iff ss)
  then show "map_of ss = m" by (intro ext option_eqI)
qed

lemma triple_fl_open:
  "crash_triple (ledger_dir m) fl_open (ledger_dir m)
    (\<lambda>x f. (\<exists>ss. x = Ok (fl_of ss) \<and> snapshots_ok ss \<and> map_of ss = m) \<and> ledger_dir m f)"
proof -
  let ?H = "ledger_dir m" and ?Q = "\<lambda>ss. snapshots_ok (sort_key fst ss) \<and> map_of (sort_key fst ss) = m"
  have sync: "crash_triple ?H fs_sync ?H (\<lambda>ok f. ok \<and> ?H f)" by (rule triple_sync) auto
  have exists: "crash_triple ?H (fs_get (file_exists dirty_name)) ?H (\<lambda>_. ?H)" by (rule triple_get)
  have "ledger_dir m (f(n := None))" if "file_ext n = Some ''tmp''" "ledger_dir m f" for n f
    using that file_ext_dat ledger_dir_other by (metis not_Some_eq)
  then have tmp: "crash_triple ?H (if a \<and> True then remove_tmp_files else fs_return ()) ?H (\<lambda>_. ?H)" for a
    by (auto intro: triple_remove_tmp triple_return)
  have names: "crash_triple ?H (fs_get (map fst)) ?H
      (\<lambda>names f. \<exists>g. (?H g \<and> ?Q ([] @ List.map_filter (read_snapshot g) names)) \<and> f = g)"
    by (rule triple_get) (use scanned_snapshots in auto)
  have scan: "crash_triple (\<lambda>f. \<exists>g. (?H g \<and> ?Q ([] @ List.map_filter (read_snapshot g) names)) \<and> f = g)
      (fl_scan names []) ?H (\<lambda>ss f. ?Q ss \<and> ?H f)" for names
  proof (intro triple_ex triple_pre)
    fix g assume "?H g \<and> ?Q ([] @ List.map_filter (read_snapshot g) names)"
    then show "crash_triple (\<lambda>f. f = g) (fl_scan names []) ?H (\<lambda>ss f. ?Q ss \<and> ?H f)"
      by (intro triple_weaken [OF triple_fl_scan [of ?H g]]) (simp, simp, simp, metis)
  qed
  have flag: "crash_triple (\<lambda>f. A \<and> ?H f) (if a \<and> True then fs_remove dirty_name else fs_return True) ?H
      (\<lambda>_ f. A \<and> ?H f)" for A a
    by (auto intro!: triple_remove triple_return ledger_dir_other slot_of_other_names)
  show ?thesis
    unfolding fl_open_def fl_open_inner_def
    by (intro triple_bind_ok [OF sync] triple_bind [OF exists] triple_then [OF tmp]
        triple_bind [OF names] triple_bind [OF scan] triple_then [OF flag] triple_return) (auto simp: fl_of_def)
qed

lemma snapshots_determined:
  assumes "snapshots_ok ss" "snapshots_ok ss'" "map_of ss = map_of ss'"
  shows "ss = ss'"
proof -
  have d: "distinct (map fst ss)" "distinct (map fst ss')" using assms by (simp_all add: snapshots_ok_def)
  then have "set ss = set ss'" using assms(3) by (simp add: map_of_inject_set)
  moreover from d calculation have "inj_on fst (set ss \<union> set ss')" by (simp add: distinct_map)
  ultimately show ?thesis
    using assms(1,2) by (intro map_sorted_distinct_set_unique [where f = fst]) (auto simp: snapshots_ok_def)
qed


section \<open>The contract\<close>

text \<open>The store with its directory, when nothing fails: the methods of the trait \<open>LedgerStore\<close>.\<close>

type_synonym stored_ledger = "file_ledger \<times> bytes files"

definition file_ledger_ops :: "stored_ledger ledger_ops" where
  "file_ledger_ops =
     \<lparr>lo_save_snapshot = (\<lambda>(fl, fs) s d. case undisturbed (fl_save_snapshot fl s d) fs (fl, Panic) of
         ((fl', r), fs') \<Rightarrow> ((fl', fs'), r)),
      lo_latest_snapshot = (\<lambda>(fl, fs). fl_latest_snapshot fl),
      lo_latest_snapshot_before_or_at = (\<lambda>(fl, fs). fl_latest_snapshot_before_or_at fl),
      lo_truncate_after = (\<lambda>(fl, fs) so. case undisturbed (fl_truncate_after fl so) fs (fl, Panic) of
         ((fl', r), fs') \<Rightarrow> ((fl', fs'), r)),
      lo_retain_latest = (\<lambda>(fl, fs) n. case undisturbed (fl_retain_latest fl n) fs (fl, Panic) of
         ((fl', r), fs') \<Rightarrow> ((fl', fs'), r)),
      lo_count = (\<lambda>(fl, fs). fl_count fl)\<rparr>"

definition stored_ledger_inv :: "stored_ledger \<Rightarrow> bool" where
  "stored_ledger_inv = (\<lambda>(fl, fs). distinct (map fst fs) \<and> snapshots_ok (fl_snapshots fl)
     \<and> ledger_dir (map_of (fl_snapshots fl)) (map_of fs))"

definition stored_snapshots :: "stored_ledger \<Rightarrow> snapshots" where
  "stored_snapshots = (\<lambda>(fl, fs). fl_snapshots fl)"

interpretation file_ledger: ledger_store file_ledger_ops stored_ledger_inv stored_snapshots
proof
  fix l s d so n
  assume l: "stored_ledger_inv l"
  obtain ss fs where eq: "l = (fl_of ss, fs)" by (cases l) (metis fl_of_snapshots)
  with l have ss: "snapshots_ok ss" and fs: "distinct (map fst fs)" "ledger_dir (map_of ss) (map_of fs)"
    by (auto simp: stored_ledger_inv_def)
  have abs: "stored_snapshots l = ss" by (simp add: stored_snapshots_def eq)
  show "snapshots_ok (stored_snapshots l)" by (simp add: abs ss)
  show "lo_latest_snapshot file_ledger_ops l = lm_latest_snapshot (stored_snapshots l)"
    "lo_latest_snapshot_before_or_at file_ledger_ops l s = lm_latest_snapshot_before_or_at (stored_snapshots l) s"
    "lo_count file_ledger_ops l = length (stored_snapshots l)"
    unfolding abs by (simp_all add: file_ledger_ops_def eq fl_latest_snapshot_def lm_latest_snapshot_def
        fl_latest_snapshot_before_or_at_def lm_latest_snapshot_before_or_at_def fl_count_def)
  from undisturbed_run [OF triple_save [OF ss, of s d] fs] snapshots_ok_save [OF ss, of s d]
  show "implements stored_ledger_inv stored_snapshots (lo_save_snapshot file_ledger_ops l s d)
      (lm_save_snapshot (stored_snapshots l) s d)"
    unfolding abs by (auto simp: implements_def file_ledger_ops_def eq stored_ledger_inv_def stored_snapshots_def)
  from undisturbed_run [OF triple_truncate [of ss so] fs] snapshots_ok_truncate [OF ss, of so]
  show "implements stored_ledger_inv stored_snapshots (lo_truncate_after file_ledger_ops l so)
      (lm_truncate_after (stored_snapshots l) so)"
    unfolding abs by (auto simp: implements_def file_ledger_ops_def eq stored_ledger_inv_def stored_snapshots_def)
  have "snapshots_ok (fst (lm_retain_latest ss n))"
    using ss by (simp add: lm_retain_latest_def snapshots_ok_sublists)
  with undisturbed_run [OF triple_retain [OF ss, of n] fs]
  show "implements stored_ledger_inv stored_snapshots (lo_retain_latest file_ledger_ops l n)
      (lm_retain_latest (stored_snapshots l) n)"
    unfolding abs by (auto simp: implements_def file_ledger_ops_def eq stored_ledger_inv_def stored_snapshots_def)
qed



section \<open>Crashes\<close>

datatype ledger_change = FlSave slot_no bytes | FlTruncate "slot_no option" | FlRetain nat

fun fl_change :: "ledger_change \<Rightarrow> file_ledger \<Rightarrow> (bytes, file_ledger) fs" where
  "fl_change (FlSave s d) fl = fs_bind (fl_save_snapshot fl s d) (\<lambda>(fl', _). fs_return fl')"
| "fl_change (FlTruncate so) fl = fs_bind (fl_truncate_after fl so) (\<lambda>(fl', _). fs_return fl')"
| "fl_change (FlRetain n) fl = fs_bind (fl_retain_latest fl n) (\<lambda>(fl', _). fs_return fl')"

fun lm_change :: "ledger_change \<Rightarrow> snapshots \<Rightarrow> snapshots" where
  "lm_change (FlSave s d) ss = fst (lm_save_snapshot ss s d)"
| "lm_change (FlTruncate so) ss = fst (lm_truncate_after ss so)"
| "lm_change (FlRetain n) ss = fst (lm_retain_latest ss n)"

fun fl_reopen ::
    "io_outcome list list \<Rightarrow> bytes files \<Rightarrow> ((storage_error, file_ledger) result \<times> bytes files) option" where
  "fl_reopen [] fs = None"
| "fl_reopen (plan # plans) fs =
     (case fl_open \<lparr>dk_files = fs, dk_plan = plan\<rparr> of
        Finished r d \<Rightarrow> Some (r, dk_files d)
      | Crashed d \<Rightarrow> fl_reopen plans (dk_files d))"

lemma fl_reopen_finds:
  assumes "distinct (map fst fs)" "ledger_dir m (map_of fs)" "\<forall>plan\<in>set plans. IoFail \<notin> set plan"
  shows "\<exists>ss fs'. fl_reopen (plans @ [[]]) fs = Some (Ok (fl_of ss), fs')
    \<and> snapshots_ok ss \<and> map_of ss = m \<and> stored_ledger_inv (fl_of ss, fs')"
  using assms
proof (induction plans arbitrary: fs)
  case Nil
  show ?case
    by (rule triple_run [OF triple_fl_open Nil(1,2), of "[]"]) (auto simp: stored_ledger_inv_def)
next
  case (Cons plan plans)
  from Cons.prems(3) have plan: "IoFail \<notin> set plan" by simp
  show ?case
    by (rule triple_run [OF triple_fl_open Cons.prems(1,2) plan])
      (use Cons.IH Cons.prems(3) in \<open>auto simp: stored_ledger_inv_def\<close>)
qed

text \<open>What a removal has left when it dies: between the new map and the old.\<close>

lemma restricted_between:
  "m |` (- set gone) \<subseteq>\<^sub>m m |` (- set (take k gone))" "m |` (- set (take k gone)) \<subseteq>\<^sub>m m"
  by (auto simp: map_le_def restrict_map_def dest: in_set_takeD)

fun ledger_outcome :: "ledger_change \<Rightarrow> snapshots \<Rightarrow> snapshots \<Rightarrow> bool" where
  "ledger_outcome (FlSave s d) before ss \<longleftrightarrow> ss = before \<or> ss = lm_change (FlSave s d) before"
| "ledger_outcome ch before ss \<longleftrightarrow> set (lm_change ch before) \<subseteq> set ss \<and> set ss \<subseteq> set before"

lemma subset_of_map_le:
  assumes "distinct (map fst xs)" "distinct (map fst ys)" "map_of xs \<subseteq>\<^sub>m map_of ys"
  shows "set xs \<subseteq> set ys"
proof (rule subrelI)
  fix k v assume "(k, v) \<in> set xs"
  then have "map_of xs k = Some v" using assms(1) by simp
  then have "map_of ys k = Some v" using assms(3) by (metis domI map_le_def)
  then show "(k, v) \<in> set ys" by (rule map_of_SomeD)
qed

lemma lm_change_ok: "snapshots_ok ss \<Longrightarrow> snapshots_ok (lm_change ch ss)"
  by (cases ch) (auto simp: lm_retain_latest_def intro: snapshots_ok_save snapshots_ok_truncate snapshots_ok_sublists)

lemma removal_outcome:
  assumes ok: "snapshots_ok before" "snapshots_ok ss" and ch: "\<forall>s d. ch \<noteq> FlSave s d"
    and after: "map_of (lm_change ch before) = map_of before |` (- set gone)"
    and ss: "map_of ss = map_of before |` (- set (take k gone))"
  shows "ledger_outcome ch before ss"
proof -
  have d: "distinct (map fst before)" "distinct (map fst ss)" "distinct (map fst (lm_change ch before))"
    using ok lm_change_ok [OF ok(1), of ch] by (simp_all add: snapshots_ok_def)
  have "set (lm_change ch before) \<subseteq> set ss" "set ss \<subseteq> set before"
    using subset_of_map_le [OF d(3,2)] subset_of_map_le [OF d(2,1)] restricted_between
    unfolding after ss by blast+
  with ch show ?thesis by (cases ch) auto
qed

lemma crash_dir:
  assumes ok: "snapshots_ok before" and fs: "distinct (map fst fs)" "ledger_dir (map_of before) (map_of fs)"
    and plan: "IoFail \<notin> set plan" and crash: "fl_change ch (fl_of before) \<lparr>dk_files = fs, dk_plan = plan\<rparr> = Crashed d"
  shows "\<exists>m. distinct (map fst (dk_files d)) \<and> ledger_dir m (map_of (dk_files d))
    \<and> (\<forall>ss. snapshots_ok ss \<longrightarrow> map_of ss = m \<longrightarrow> ledger_outcome ch before ss)"
proof (cases ch)
  case (FlSave s x)
  with crash have "fl_save_snapshot (fl_of before) s x \<lparr>dk_files = fs, dk_plan = plan\<rparr> = Crashed d"
    by (auto simp: fs_bind_def fs_return_def split: run.splits)
  from triple_crashed [OF triple_save [OF ok] this] fs plan obtain m where
    "distinct (map fst (dk_files d))" "ledger_dir m (map_of (dk_files d))"
    "m = map_of before \<or> m = map_of (lm_change ch before)"
    by (auto simp: ledger_one_def FlSave)
  then show ?thesis
    using snapshots_determined [OF _ ok] snapshots_determined [OF _ lm_change_ok [OF ok, of ch]] FlSave by auto
next
  case (FlTruncate so)
  with crash have "fl_truncate_after (fl_of before) so \<lparr>dk_files = fs, dk_plan = plan\<rparr> = Crashed d"
    by (auto simp: fs_bind_def fs_return_def split: run.splits)
  from triple_crashed [OF triple_truncate this] fs plan obtain k where
    "distinct (map fst (dk_files d))" "ledger_dir (map_of before |` (- set (take k (truncated before so)))) (map_of (dk_files d))"
    by (auto simp: ledger_one_def)
  moreover have "map_of (lm_change ch before) = map_of before |` (- set (truncated before so))"
    by (simp only: FlTruncate lm_change.simps map_of_truncate)
  ultimately show ?thesis using removal_outcome [OF ok] FlTruncate by blast
next
  case (FlRetain n)
  with crash have "fl_retain_latest (fl_of before) n \<lparr>dk_files = fs, dk_plan = plan\<rparr> = Crashed d"
    by (auto simp: fs_bind_def fs_return_def split: run.splits)
  from triple_crashed [OF triple_retain [OF ok] this] fs plan obtain k where
    "distinct (map fst (dk_files d))" "ledger_dir (map_of before |` (- set (take k (retired before n)))) (map_of (dk_files d))"
    by (auto simp: ledger_one_def)
  moreover have "map_of (lm_change ch before) = map_of before |` (- set (retired before n))"
    by (simp only: FlRetain lm_change.simps map_of_retain [OF ok])
  ultimately show ?thesis using removal_outcome [OF ok] FlRetain by blast
qed

text \<open>
  C7. A crash of the snapshot store loses nothing it was to keep. If the process dies while a snapshot
  is being saved, recovery finds the snapshots from before or with the new one in place, never a part of
  one; if it dies while snapshots are being removed, recovery finds all that were to be kept and nothing
  that was not there before. Recovery may itself die any number of times. There are no I/O
  errors other than the crashes.
\<close>

theorem ledger_crash_safe:
  assumes store: "stored_ledger_inv (fl, fs)" and plans: "IoFail \<notin> set plan" "\<forall>plan\<in>set plans. IoFail \<notin> set plan"
    and crash: "fl_change ch fl \<lparr>dk_files = fs, dk_plan = plan\<rparr> = Crashed d"
  shows "\<exists>ss fs'. ledger_outcome ch (fl_snapshots fl) ss
    \<and> fl_reopen (plans @ [[]]) (dk_files d) = Some (Ok \<lparr>fl_snapshots = ss\<rparr>, fs')
    \<and> stored_ledger_inv (\<lparr>fl_snapshots = ss\<rparr>, fs')"
proof -
  from store have ok: "snapshots_ok (fl_snapshots fl)"
    and fs: "distinct (map fst fs)" "ledger_dir (map_of (fl_snapshots fl)) (map_of fs)"
    by (auto simp: stored_ledger_inv_def)
  from crash_dir [OF ok fs plans(1), of ch d] crash obtain m where
    m: "distinct (map fst (dk_files d))" "ledger_dir m (map_of (dk_files d))"
      "\<forall>ss. snapshots_ok ss \<longrightarrow> map_of ss = m \<longrightarrow> ledger_outcome ch (fl_snapshots fl) ss" by auto
  from fl_reopen_finds [OF m(1,2) plans(2)] m(3) show ?thesis unfolding fl_of_def by blast
qed

theorem ledger_crash_safe_witness:
  "\<exists>d. fl_change (FlSave 7 [1, 2, 3]) \<lparr>fl_snapshots = []\<rparr>
      \<lparr>dk_files = [], dk_plan = replicate 7 IoOk @ [IoCrash]\<rparr> = Crashed d
    \<and> (\<exists>ss fs'. (ss = [] \<or> ss = [(7, [1, 2, 3])])
      \<and> fl_reopen [[IoCrash], []] (dk_files d) = Some (Ok \<lparr>fl_snapshots = ss\<rparr>, fs')
      \<and> stored_ledger_inv (\<lparr>fl_snapshots = ss\<rparr>, fs'))"
proof -
  have "case fl_change (FlSave 7 [1, 2, 3]) \<lparr>fl_snapshots = []\<rparr>
      \<lparr>dk_files = [], dk_plan = replicate 7 IoOk @ [IoCrash]\<rparr> of Finished _ _ \<Rightarrow> False | Crashed _ \<Rightarrow> True"
    by code_simp
  then obtain d where d: "fl_change (FlSave 7 [1, 2, 3]) \<lparr>fl_snapshots = []\<rparr>
      \<lparr>dk_files = [], dk_plan = replicate 7 IoOk @ [IoCrash]\<rparr> = Crashed d"
    by (auto split: run.splits simp del: fl_change.simps)
  have store: "stored_ledger_inv (\<lparr>fl_snapshots = []\<rparr>, [])" by (simp add: stored_ledger_inv_def ledger_dir_def)
  have after: "lm_change (FlSave 7 [1, 2, 3]) [] = [(7, [1, 2, 3])]" by code_simp
  have "\<exists>ss fs'. ledger_outcome (FlSave 7 [1, 2, 3]) (fl_snapshots \<lparr>fl_snapshots = []\<rparr>) ss
      \<and> fl_reopen ([[IoCrash]] @ [[]]) (dk_files d) = Some (Ok \<lparr>fl_snapshots = ss\<rparr>, fs')
      \<and> stored_ledger_inv (\<lparr>fl_snapshots = ss\<rparr>, fs')"
    by (rule ledger_crash_safe [OF store _ _ d]) simp_all
  with d show ?thesis by (simp del: fl_change.simps fl_reopen.simps lm_change.simps add: after)
qed

end
