(* ===== verification/FileChainDb.thy ===== *)
theory FileChainDb
  imports LedgerRecovery FileVolatile FileImmutable FileLedger
begin

text \<open>
  The chain database on the file-backed stores, as \<open>src/crates/storage\<close> is used by the node: a
  \<open>ChainDb\<close> over \<open>FileImmutable\<close>, \<open>FileVolatile\<close> and \<open>FileLedgerStore\<close>, each in its own
  directory. The contracts of the three stores give what is proved of the database over any stores.
\<close>

type_synonym ('c, 'd, 'tx) file_db =
  "(('c, 'tx) stored_immutable, ('d, 'tx) stored_volatile, stored_ledger) chain_db"

abbreviation file_run ::
    "('c, 'tx) serde \<Rightarrow> ('d, 'tx) serde \<Rightarrow> 'tx chain_op list \<Rightarrow> ('c, 'd, 'tx) file_db
       \<Rightarrow> ('c, 'd, 'tx) file_db \<times> (storage_error, nat) result list" where
  "file_run sdi sdv \<equiv> chain_run (file_immutable_ops sdi) (file_volatile_ops sdv) file_ledger_ops"

abbreviation file_db_inv :: "('c, 'tx) serde \<Rightarrow> ('d, 'tx) serde \<Rightarrow> ('c, 'd, 'tx) file_db \<Rightarrow> bool" where
  "file_db_inv sdi sdv \<equiv> db_inv (stored_immutable_inv sdi) (stored_inv sdv) stored_ledger_inv"

abbreviation file_db_abs ::
    "('c, 'd, 'tx) file_db \<Rightarrow> ('tx block list, 'tx block list, snapshots) chain_db" where
  "file_db_abs \<equiv> db_abs immutable_blocks stored_blocks stored_snapshots"

definition file_db_spec :: "('c, 'd, 'tx) file_db \<Rightarrow> 'tx chain_spec" where
  "file_db_spec db = spec_of (file_db_abs db)"

interpretation file_db: chain_db_stores "file_immutable_ops sdi" "stored_immutable_inv sdi" immutable_blocks
  "file_volatile_ops sdv" "stored_inv sdv" stored_blocks file_ledger_ops stored_ledger_inv stored_snapshots
  for sdi sdv
  by unfold_locales

lemma file_run_spec:
  assumes db: "file_db_inv sdi sdv db" and ok: "hashes_ok (sp_chain (file_db_spec db))"
    and fresh: "fresh_run ops (file_db_spec db)" and run: "file_run sdi sdv ops db = (db', rs)"
  shows "spec_run ops (file_db_spec db) = (file_db_spec db', rs)
    \<and> file_db_inv sdi sdv db' \<and> hashes_ok (sp_chain (file_db_spec db'))"
proof -
  from file_db.store_run_implements [OF db fresh_run_typed [OF fresh]] run
  have db': "file_db_inv sdi sdv db'" and mem: "mem_run ops (file_db_abs db) = (file_db_abs db', rs)"
    by (auto simp: implements_def)
  have "hashes_ok (db_chain (file_db_abs db))" using ok by (simp add: file_db_spec_def spec_of_def)
  from mem_run_spec [OF this _ mem] fresh db' show ?thesis by (simp add: file_db_spec_def spec_of_def)
qed

text \<open>
  C4. The chain database on files does what a single chain with a boundary does. Any sequence of
  operations (adding, promoting and rolling back blocks, collecting and truncating, saving,
  truncating and retaining snapshots) gives the same results, errors included, on the files as on the
  specification, and leaves the files in the state that represents the specification's; no block is
  stored twice, and the directories stay consistent. The blocks added are not immutable already.
\<close>

theorem file_db_refines_spec:
  assumes db: "file_db_inv sdi sdv db" and ok: "hashes_ok (sp_chain (file_db_spec db))"
    and fresh: "fresh_run ops (file_db_spec db)" and run: "file_run sdi sdv ops db = (db', rs)"
  shows "spec_run ops (file_db_spec db) = (file_db_spec db', rs)
    \<and> file_db_inv sdi sdv db' \<and> hashes_ok (sp_chain (file_db_spec db'))"
  by (rule file_run_spec [OF assms])

definition empty_file_db :: "('c, 'd, 'tx) file_db" where
  "empty_file_db =
     \<lparr>cd_immutable = (fi_of [] 0, []), cd_volatile = (fv_of [] 0, []), cd_ledger = (\<lparr>fl_snapshots = []\<rparr>, [])\<rparr>"

definition empty_spec :: "'tx chain_spec" where
  "empty_spec = \<lparr>sp_chain = [], sp_stable = 0, sp_snapshots = []\<rparr>"

lemma empty_db:
  assumes "serde_ok sdi" "serde_ok sdv"
  shows "file_db_inv sdi sdv empty_file_db" "file_db_spec empty_file_db = empty_spec"
proof -
  have "stored_ledger_inv (\<lparr>fl_snapshots = []\<rparr>, [])" by (simp add: stored_ledger_inv_def ledger_dir_def)
  with assms show "file_db_inv sdi sdv empty_file_db"
    by (simp add: db_inv_def empty_file_db_def empty_immutable empty_stored)
  show "file_db_spec empty_file_db = empty_spec"
    by (simp add: file_db_spec_def spec_of_def db_abs_def db_chain_def empty_file_db_def empty_spec_def
        stored_snapshots_def)
qed

lemma empty_spec_ok [simp]: "hashes_ok (sp_chain empty_spec)" "recoverable R base empty_spec"
  by (simp_all add: recoverable_def empty_spec_def slots_increase_def)

theorem file_db_refines_spec_witness:
  "spec_run [AddVolatile (block_at 1), AddVolatile (block_at 2), Promote (point_for_block (block_at 1)),
      RollbackTo (point_for_block (block_at 1)), SaveSnapshot 1 [7]] empty_spec
    = (file_db_spec (fst (file_run tagged_serde tagged_serde
        [AddVolatile (block_at 1), AddVolatile (block_at 2), Promote (point_for_block (block_at 1)),
         RollbackTo (point_for_block (block_at 1)), SaveSnapshot 1 [7]] empty_file_db)), [Ok 0, Ok 0, Ok 1, Ok 0, Ok 0])"
proof -
  let ?ops = "[AddVolatile (block_at 1), AddVolatile (block_at 2), Promote (point_for_block (block_at 1)),
      RollbackTo (point_for_block (block_at 1)), SaveSnapshot 1 [7]]"
  have fresh: "fresh_run ?ops empty_spec" by code_simp
  have results: "snd (spec_run ?ops empty_spec) = [Ok 0, Ok 0, Ok 1, Ok 0, Ok 0]" by code_simp
  note empty = empty_db [OF tagged_serde_ok tagged_serde_ok]
  have "spec_run ?ops (file_db_spec empty_file_db)
      = (file_db_spec (fst (file_run tagged_serde tagged_serde ?ops empty_file_db)),
         snd (file_run tagged_serde tagged_serde ?ops empty_file_db))"
    using file_db_refines_spec [OF empty(1) _ _ prod.collapse [symmetric], of ?ops] fresh
    unfolding empty(2) by (simp add: empty_spec_def)
  with results show ?thesis unfolding empty(2) by (metis snd_conv)
qed



section \<open>Restart\<close>







end
