(* ===== verification/ItemLength.thy ===== *)
theory ItemLength
  imports CborItems
begin

text \<open>
  Message boundaries, \<open>cbor_item_length\<close> in \<open>src/crates/network/src/mux.rs\<close>: how many bytes at the
  start of a buffer are one complete CBOR item. The walk keeps a stack of the containers it is in,
  the innermost first; the position is the rest of the buffer that is not consumed yet. The chunks of
  an indefinite-length string are measured by a recursive call.
\<close>

section \<open>Model\<close>

datatype cbor_frame = Definite u64 | IndefArray | IndefMap bool

fun discharge :: "cbor_frame list \<Rightarrow> cbor_frame list" where
  "discharge (Definite n # st) = (if n = 0 then discharge st else Definite n # st)"
| "discharge st = st"

text \<open>The argument of a head, \<open>None\<close> when bytes are missing or the width is reserved.\<close>

definition item_argument :: "u8 \<Rightarrow> bytes \<Rightarrow> (u64 \<times> bytes) option" where
  "item_argument additional r =
     (if additional \<le> 23 then Some (ucast additional, r)
      else if additional = 24
      then (case r of [] \<Rightarrow> None | b # r' \<Rightarrow> Some (ucast b, r'))
      else if additional = 25
      then (if 2 > length r then None else Some (of_nat (be_val (take 2 r)), drop 2 r))
      else if additional = 26
      then (if 4 > length r then None else Some (of_nat (be_val (take 4 r)), drop 4 r))
      else if additional = 27
      then (if 8 > length r then None else Some (of_nat (be_val (take 8 r)), drop 8 r))
      else if additional = 31 then Some (0, r)
      else None)"

fun count_item :: "cbor_frame \<Rightarrow> cbor_frame" where
  "count_item (Definite n) = Definite (n - 1)"
| "count_item IndefArray = IndefArray"
| "count_item (IndefMap expect_value) = IndefMap (\<not> expect_value)"

text \<open>After a break, when the container below the closed one is an indefinite map.\<close>

fun toggle_map :: "cbor_frame list \<Rightarrow> cbor_frame list" where
  "toggle_map (IndefMap expect_value # st) = IndefMap (\<not> expect_value) # st"
| "toggle_map st = st"

fun closes :: "cbor_frame \<Rightarrow> bool" where
  "closes IndefArray \<longleftrightarrow> True"
| "closes (IndefMap expect_value) \<longleftrightarrow> \<not> expect_value"
| "closes (Definite n) \<longleftrightarrow> False"

text \<open>One round of the loop; a string of indefinite length is left to the loop over its chunks.\<close>

datatype walk_step =
    WalkDone bytes
  | WalkStop
  | WalkOn "cbor_frame list" bytes
  | WalkChunks u8 "cbor_frame list" bytes

definition walk_head :: "u8 \<Rightarrow> u64 \<Rightarrow> cbor_frame list \<Rightarrow> bytes \<Rightarrow> walk_step" where
  "walk_head initial arg st r =
     (let major = drop_bit 5 initial in
      if initial AND 31 = 31
      then (if major = 2 \<or> major = 3 then WalkChunks major st r
            else if major = 4 then WalkOn (IndefArray # st) r
            else if major = 5 then WalkOn (IndefMap False # st) r
            else WalkStop)
      else if major = 0 \<or> major = 1 then WalkOn st r
      else if major = 2 \<or> major = 3
      then (if unat arg > length r then WalkStop else WalkOn st (drop (unat arg) r))
      else if major = 4 then WalkOn (if arg > 0 then Definite arg # st else st) r
      else if major = 5
      then (if arg > 0
            then (if 2 * unat arg \<ge> 2 ^ 64 then WalkStop else WalkOn (Definite (arg * 2) # st) r)
            else WalkOn st r)
      else if major = 6 then WalkOn (Definite 1 # st) r
      else WalkOn st r)"

definition walk_step :: "cbor_frame list \<Rightarrow> bytes \<Rightarrow> walk_step" where
  "walk_step stack buf =
     (case discharge stack of
        [] \<Rightarrow> WalkDone buf
      | frame # st \<Rightarrow>
          (case buf of
             [] \<Rightarrow> WalkStop
           | initial # r \<Rightarrow>
               if initial = 0xff
               then (if closes frame then WalkOn (toggle_map st) r else WalkStop)
               else (case item_argument (initial AND 31) r of
                   None \<Rightarrow> WalkStop
                 | Some (arg, r1) \<Rightarrow> walk_head initial arg (count_item frame # st) r1)))"

function (sequential, domintros)
  item_walk :: "cbor_frame list \<Rightarrow> bytes \<Rightarrow> bytes option"
  and string_chunks :: "u8 \<Rightarrow> bytes \<Rightarrow> bytes option" where
  "item_walk stack buf =
     (case walk_step stack buf of
        WalkDone r \<Rightarrow> Some r
      | WalkStop \<Rightarrow> None
      | WalkOn st r \<Rightarrow> item_walk st r
      | WalkChunks major st r \<Rightarrow>
          (case string_chunks major r of None \<Rightarrow> None | Some r2 \<Rightarrow> item_walk st r2))"
| "string_chunks major buf =
     (case buf of
        [] \<Rightarrow> Some []
      | b # r \<Rightarrow>
          if b = 0xff then Some r
          else if drop_bit 5 b \<noteq> major then None
          else (case item_walk [Definite 1] buf of
              None \<Rightarrow> None
            | Some r2 \<Rightarrow> string_chunks major r2))"
  by pat_completeness auto

text \<open>Every part of the walk consumes what it reads, so the walk ends.\<close>

lemma item_argument_length: "item_argument a r = Some (v, r1) \<Longrightarrow> length r1 \<le> length r"
  by (auto simp: item_argument_def split: if_splits list.splits)

lemma walk_head_length:
  "walk_head i arg st r = WalkOn st' r' \<Longrightarrow> length r' \<le> length r"
  "walk_head i arg st r = WalkChunks m st' r' \<Longrightarrow> length r' \<le> length r"
  "walk_head i arg st r \<noteq> WalkDone r'"
  by (auto simp: walk_head_def Let_def split: if_splits)

lemma walk_step_length:
  "walk_step st buf = WalkOn st' r' \<Longrightarrow> length r' < length buf"
  "walk_step st buf = WalkChunks m st' r' \<Longrightarrow> length r' < length buf"
  "walk_step st buf = WalkDone r' \<Longrightarrow> discharge st = [] \<and> r' = buf"
  by (auto simp: walk_step_def walk_head_length(3) split: list.splits if_splits option.splits
      dest!: item_argument_length walk_head_length(1,2))

lemma walk_shrinks:
  "item_walk_string_chunks_dom (Inl (st, buf)) \<Longrightarrow> item_walk st buf = Some r
     \<Longrightarrow> length r \<le> length buf \<and> (discharge st \<noteq> [] \<longrightarrow> length r < length buf)"
  "item_walk_string_chunks_dom (Inr (m, buf)) \<Longrightarrow> string_chunks m buf = Some r \<Longrightarrow> length r \<le> length buf"
proof (induction st buf and m buf arbitrary: r and r rule: item_walk_string_chunks.pinduct)
  case (1 st buf)
  note step = walk_step_length [of st buf]
  show ?case
  proof (cases "walk_step st buf")
    case (WalkDone x)
    then show ?thesis using 1(1,5) step(3) by (simp add: item_walk.psimps)
  next
    case WalkStop
    then show ?thesis using 1(1,5) by (simp add: item_walk.psimps)
  next
    case (WalkOn x y)
    then show ?thesis using 1(1,5) 1(2) [OF WalkOn] step(1) by (force simp: item_walk.psimps)
  next
    case (WalkChunks m x y)
    then obtain r2 where "string_chunks m y = Some r2" "item_walk x r2 = Some r"
      using 1(1,5) by (auto simp: item_walk.psimps split: option.splits)
    then show ?thesis using 1(3) [OF WalkChunks] 1(4) [OF WalkChunks] step(2) [OF WalkChunks] by force
  qed
next
  case (2 m buf)
  show ?case
  proof (cases buf)
    case Nil
    then show ?thesis using 2(1,4) by (simp add: string_chunks.psimps)
  next
    case (Cons b bs)
    show ?thesis
    proof (cases "b = 0xff \<or> drop_bit 5 b \<noteq> m")
      case True
      then show ?thesis using 2(1,4) Cons by (auto simp: string_chunks.psimps split: if_splits)
    next
      case False
      then obtain r2 where r2: "item_walk [Definite 1] buf = Some r2" "string_chunks m r2 = Some r"
        using 2(1,4) Cons by (auto simp: string_chunks.psimps split: option.splits)
      from False have "b \<noteq> 255" "\<not> drop_bit 5 b \<noteq> m" by simp_all
      from 2(2) [OF Cons this r2(1)] 2(3) [OF Cons this r2] show ?thesis by simp
    qed
  qed
qed

lemma walk_total: "All item_walk_string_chunks_dom"
proof
  fix x
  show "item_walk_string_chunks_dom x"
  proof (induction x rule: measure_induct_rule
      [of "case_sum (\<lambda>(_, buf). 2 * length buf) (\<lambda>(_, buf). 2 * length buf + 1)"])
    case (less x)
    show ?case
    proof (cases x)
      case (Inl a)
      obtain st buf where a: "a = (st, buf)" by force
      have shorter: "length r2 < length buf" if step: "walk_step st buf = WalkChunks m st' r" "string_chunks m r = Some r2" for m st' r r2
      proof -
        have "item_walk_string_chunks_dom (Inr (m, r))" by (rule less) (use walk_step_length(2) [OF step(1)] in \<open>simp add: Inl a\<close>)
        from walk_shrinks(2) [OF this step(2)] walk_step_length(2) [OF step(1)] show ?thesis by simp
      qed
      show ?thesis unfolding Inl a
        by (rule item_walk_string_chunks.domintros(1); rule less) (auto simp: Inl a dest: walk_step_length shorter)
    next
      case (Inr a)
      obtain m buf where a: "a = (m, buf)" by force
      have "item_walk_string_chunks_dom (Inl ([Definite 1], buf))" by (rule less) (simp add: Inr a)
      from walk_shrinks(1) [OF this] have shorter: "\<forall>r. item_walk [Definite 1] buf = Some r \<longrightarrow> length r < length buf" by simp
      show ?thesis unfolding Inr a
        by (rule item_walk_string_chunks.domintros(2); rule less) (use shorter in \<open>auto simp: Inr a\<close>)
    qed
  qed
qed

termination item_walk
  by (rule walk_total)

lemmas walk_consumes = walk_shrinks(1) [OF walk_total [rule_format]]

definition cbor_item_length :: "bytes \<Rightarrow> nat option" where
  "cbor_item_length buf =
     (if buf = [] then None
      else map_option (\<lambda>r. length buf - length r) (item_walk [Definite 1] buf))"

declare item_walk.simps [simp del] string_chunks.simps [simp del]


section \<open>The items whose length is found\<close>

text \<open>
  Items without indefinite-length strings, in which no entry of an indefinite-length map is itself an
  indefinite-length array or map. The flag says whether the item is an indefinite-length container.
\<close>

inductive plain_item :: "bool \<Rightarrow> bytes \<Rightarrow> bool" where
  integer: "m = 0 \<or> m = 1 \<Longrightarrow> cbor_head m bs v \<Longrightarrow> plain_item False bs"
| string: "m = 2 \<or> m = 3 \<Longrightarrow> cbor_head m h v \<Longrightarrow> length body = unat v \<Longrightarrow> plain_item False (h @ body)"
| array: "cbor_head 4 h v \<Longrightarrow> length xs = unat v \<Longrightarrow> \<forall>x\<in>set xs. \<exists>k. plain_item k x
     \<Longrightarrow> plain_item False (h @ concat xs)"
| array_indef: "\<forall>x\<in>set xs. \<exists>k. plain_item k x
     \<Longrightarrow> plain_item True ((push_bit 5 4 OR AI_INDEF) # concat xs @ [BREAK])"
| map: "cbor_head 5 h v \<Longrightarrow> 2 * unat v < 2 ^ 64 \<Longrightarrow> length xs = 2 * unat v \<Longrightarrow> \<forall>x\<in>set xs. \<exists>k. plain_item k x
     \<Longrightarrow> plain_item False (h @ concat xs)"
| map_indef: "even (length xs) \<Longrightarrow> \<forall>x\<in>set xs. plain_item False x
     \<Longrightarrow> plain_item True ((push_bit 5 5 OR AI_INDEF) # concat xs @ [BREAK])"
| tag: "cbor_head 6 h v \<Longrightarrow> plain_item k x \<Longrightarrow> plain_item False (h @ x)"
| simple: "cbor_head 7 bs v \<Longrightarrow> plain_item False bs"

text \<open>They are items of the grammar of the ledger's decoder.\<close>

lemma plain_item_item: "plain_item k x \<Longrightarrow> cbor_item x"
proof (induction rule: plain_item.induct)
  case (array_indef xs)
  then show ?case by (intro cbor_item.array_indef) blast
next
  case (map_indef xs)
  then show ?case by (intro cbor_item.map_indef) blast+
qed (auto intro: cbor_item.intros)

definition open_frame :: "cbor_frame \<Rightarrow> bool" where
  "open_frame fr \<longleftrightarrow> fr \<noteq> Definite 0"

fun item_after :: "bool \<Rightarrow> cbor_frame \<Rightarrow> cbor_frame" where
  "item_after True (IndefMap e) = IndefMap e"
| "item_after k fr = count_item fr"

lemma walk_discharge: "item_walk (Definite 0 # st) r = item_walk st r"
  by (simp add: item_walk.simps [of "Definite 0 # st"] item_walk.simps [of st] walk_step_def)

lemma walk_open:
  "open_frame fr \<Longrightarrow> discharge (fr # st) = fr # st"
  by (cases fr) (auto simp: open_frame_def)

lemma argument_of_head:
  assumes "a < 28" "length args = arg_len a"
  shows "item_argument a (args @ r) = Some (arg_val a args, r)"
proof -
  have a: "a \<le> 23 \<longleftrightarrow> a < 24" for a :: u8 by (auto simp: word_le_nat_alt word_less_nat_alt)
  have "a < 24 \<or> a = 24 \<or> a = 25 \<or> a = 26 \<or> a = 27"
    using assms(1) by (auto simp: word_less_nat_alt word_unat_eq_iff)
  then show ?thesis using assms(2)
    by (auto simp: item_argument_def arg_len_def arg_val_def a length_Suc_conv be_val_def split: list.splits)
qed

lemma argument_of_cut_head:
  assumes "a < 28" "length args < arg_len a"
  shows "item_argument a args = None"
proof -
  have "a < 24 \<or> a = 24 \<or> a = 25 \<or> a = 26 \<or> a = 27"
    using assms(1) by (auto simp: word_less_nat_alt word_unat_eq_iff)
  then show ?thesis using assms(2) by (auto simp: item_argument_def arg_len_def split: if_splits list.splits)
qed

lemma walk_head_cong:
  "drop_bit 5 b = drop_bit 5 c \<Longrightarrow> b AND 31 \<noteq> 31 \<Longrightarrow> c AND 31 \<noteq> 31 \<Longrightarrow> walk_head b v st r = walk_head c v st r"
  by (simp add: walk_head_def)

text \<open>A head, and a head that is cut off.\<close>

lemma walk_of_head:
  assumes "cbor_head m h v" "m < 8" "open_frame fr"
  shows "walk_step (fr # st) (h @ r) = walk_head (push_bit 5 m) v (count_item fr # st) r"
    and "h = p @ q \<Longrightarrow> q \<noteq> [] \<Longrightarrow> item_walk (fr # st) p = None"
proof -
  from assms(1) obtain a args where a: "a < 28" "h = (push_bit 5 m OR a) # args"
    "length args = arg_len a" "v = arg_val a args" by (auto simp: cbor_head_def)
  have a32: "a < 32" "a \<noteq> 31" using a(1) by (auto simp: word_less_nat_alt)
  note hb = head_byte [OF assms(2) a32(1)]
  have hb0: "drop_bit 5 (push_bit 5 m) = m" "push_bit 5 m AND 31 = 0" using head_byte [OF assms(2), of 0] by simp_all
  have same: "walk_head (push_bit 5 m OR a) w st' r = walk_head (push_bit 5 m) w st' r" for w st'
    by (rule walk_head_cong) (simp_all only: hb hb0 a32, simp_all)
  have nb: "push_bit 5 m OR a \<noteq> 255" using head_not_break [OF assms(2) a32(1)] a32(2) by (simp add: BREAK_def)
  show "walk_step (fr # st) (h @ r) = walk_head (push_bit 5 m) v (count_item fr # st) r"
    using nb unfolding a(2,4)
    by (simp add: walk_step_def walk_open [OF assms(3)] hb(2) argument_of_head a(1,3) same)
  assume pq: "h = p @ q" "q \<noteq> []"
  show "item_walk (fr # st) p = None"
  proof (cases p)
    case Nil
    then show ?thesis by (simp add: item_walk.simps walk_step_def walk_open [OF assms(3)])
  next
    case (Cons c cs)
    then have "c = push_bit 5 m OR a" "length cs < arg_len a" using pq a(2,3)
      by (auto simp flip: length_greater_0_conv)
    then show ?thesis using nb Cons argument_of_cut_head [OF a(1)]
      by (simp add: item_walk.simps walk_step_def walk_open [OF assms(3)] hb(2))
  qed
qed

text \<open>A byte that opens a container of indefinite length.\<close>

lemma walk_of_indef:
  assumes "m = 4 \<and> fr' = IndefArray \<or> m = 5 \<and> fr' = IndefMap False" "open_frame fr"
  shows "item_walk (fr # st) ((push_bit 5 m OR AI_INDEF) # r) = item_walk (fr' # count_item fr # st) r"
proof -
  have m: "m < 8" using assms(1) by auto
  note hb = head_byte [of m AI_INDEF, OF m] 
  have "push_bit 5 m OR AI_INDEF \<noteq> 255"
    using head_not_break [OF m, of AI_INDEF] assms(1) by (auto simp: BREAK_def AI_INDEF_def)
  then show ?thesis using assms(1) hb
    by (subst item_walk.simps)
       (auto simp: walk_step_def walk_open [OF assms(2)] AI_INDEF_def item_argument_def walk_head_def Let_def)
qed

lemma walk_break:
  assumes "closes fr'"
  shows "item_walk (fr' # fr # st) (BREAK # r) = item_walk (toggle_map (fr # st)) r"
proof -
  have "discharge (fr' # fr # st) = fr' # fr # st" using assms by (cases fr') auto
  then show ?thesis using assms by (subst item_walk.simps) (simp add: walk_step_def BREAK_def)
qed

lemma walk_empty: "open_frame fr \<Longrightarrow> item_walk (fr # st) [] = None"
  by (simp add: item_walk.simps walk_step_def walk_open)

text \<open>The items of a container, each of which the walk passes over.\<close>

definition passes :: "bool \<Rightarrow> bytes \<Rightarrow> bool" where
  "passes k x \<longleftrightarrow> (\<forall>fr st r. open_frame fr \<longrightarrow> item_walk (fr # st) (x @ r) = item_walk (item_after k fr # st) r)"

lemma passesD: "passes k x \<Longrightarrow> open_frame fr \<Longrightarrow> item_walk (fr # st) (x @ r) = item_walk (item_after k fr # st) r"
  by (simp add: passes_def)

lemma passes_definite:
  assumes "\<forall>x\<in>set xs. \<exists>k. passes k x" "length xs \<le> unat n"
  shows "item_walk (Definite n # st) (concat xs @ r) = item_walk (Definite (n - of_nat (length xs)) # st) r"
  using assms
proof (induction xs arbitrary: n)
  case (Cons x xs)
  then obtain k where k: "passes k x" by auto
  have "n \<noteq> 0" using Cons.prems(2) by auto
  then have n: "unat (n - 1) = unat n - 1" and "open_frame (Definite n)"
    by (simp_all add: unat_minus_one open_frame_def)
  from passesD [OF k this(2), of st "concat xs @ r"] have
    "item_walk (Definite n # st) (concat (x # xs) @ r) = item_walk (Definite (n - 1) # st) (concat xs @ r)"
    by (cases k) simp_all
  then show ?case using Cons.IH [of "n - 1"] Cons.prems n by (simp add: algebra_simps)
qed simp

lemma passes_array:
  assumes "\<forall>x\<in>set xs. \<exists>k. passes k x"
  shows "item_walk (IndefArray # st) (concat xs @ r) = item_walk (IndefArray # st) r"
  using assms
proof (induction xs)
  case (Cons x xs)
  then obtain k where k: "passes k x" by auto
  then show ?case using Cons passesD [OF k, of IndefArray st "concat xs @ r"]
    by (cases k) (simp_all add: open_frame_def)
qed simp

lemma passes_map:
  assumes "\<forall>x\<in>set xs. passes False x"
  shows "item_walk (IndefMap e # st) (concat xs @ r) = item_walk (IndefMap (e \<noteq> odd (length xs)) # st) r"
  using assms
proof (induction xs arbitrary: e)
  case (Cons x xs)
  then have k: "passes False x" by auto
  then show ?case using Cons passesD [OF k, of "IndefMap e" st "concat xs @ r"]
    by (simp add: open_frame_def) (cases "odd (length xs)"; simp)
qed simp

lemma count_item_after: "item_after False fr = count_item fr"
  by (cases fr) simp_all

lemma toggle_count: "toggle_map (count_item fr # st) = item_after True fr # st"
  by (cases fr) simp_all

text \<open>A definite-length container of \<open>n\<close> items.\<close>

lemma passes_counted:
  assumes "\<forall>x\<in>set xs. \<exists>k. passes k x" "length xs = unat n"
  shows "item_walk (if n > 0 then Definite n # st else st) (concat xs @ r) = item_walk st r"
proof (cases "n = 0")
  case True
  then show ?thesis using assms(2) by simp
next
  case False
  then have "n > 0" by (simp add: word_gt_0)
  have "of_nat (length xs) = n" using assms(2) by simp
  then show ?thesis using \<open>n > 0\<close> passes_definite [OF assms(1), of n st r] assms(2) by (simp add: walk_discharge)
qed

lemma plain_item_passes: "plain_item k x \<Longrightarrow> passes k x"
proof (induction rule: plain_item.induct)
  case (integer m bs v)
  then show ?case unfolding passes_def count_item_after
    by (auto simp: item_walk.simps [of "_ # _" "bs @ _"] walk_of_head(1) walk_head_def)
next
  case (string m h v body)
  then show ?case unfolding passes_def count_item_after
    by (auto simp: item_walk.simps [of "_ # _" "h @ _"] walk_of_head(1) walk_head_def)
next
  case (array h v xs)
  then have items: "\<forall>x\<in>set xs. \<exists>k. passes k x" by blast
  show ?case unfolding passes_def count_item_after using array(1) passes_counted [OF items array(2)]
    by (auto simp: item_walk.simps [of "_ # _" "h @ _"] walk_of_head(1) walk_head_def)
next
  case (array_indef xs)
  then have items: "\<forall>x\<in>set xs. \<exists>k. passes k x" by blast
  show ?case unfolding passes_def using passes_array [OF items]
    by (simp add: walk_of_indef [of 4 IndefArray, simplified] walk_break toggle_count del: toggle_map.simps)
next
  case (map h v xs)
  then have items: "\<forall>x\<in>set xs. \<exists>k. passes k x" by blast
  have n: "length xs = unat (v * 2)" using map(2,3) by (simp add: unat_word_ariths)
  have "0 < v * 2 \<longleftrightarrow> 0 < v" using map(2) n map(3) by (auto simp: word_gt_0 unat_eq_0 [symmetric])
  then show ?case unfolding passes_def count_item_after using map(1,2) passes_counted [OF items n]
    by (auto simp: item_walk.simps [of "_ # _" "h @ _"] walk_of_head(1) walk_head_def split: if_splits)
next
  case (map_indef xs)
  then have items: "\<forall>x\<in>set xs. passes False x" by blast
  show ?case unfolding passes_def using passes_map [OF items] map_indef(1)
    by (simp add: walk_of_indef [of 5 "IndefMap False", simplified] walk_break toggle_count del: toggle_map.simps)
next
  case (tag h v k x)
  have "item_walk (Definite 1 # st) (x @ r) = item_walk st r" for st r
    using passesD [OF tag(3), of "Definite 1" st r] by (cases k) (simp_all add: open_frame_def walk_discharge)
  with tag(1) show ?case unfolding passes_def count_item_after
    by (auto simp: item_walk.simps [of "_ # _" "h @ _"] walk_of_head(1) walk_head_def)
next
  case (simple bs v)
  then show ?case unfolding passes_def count_item_after
    by (auto simp: item_walk.simps [of "_ # _" "bs @ _"] walk_of_head(1) walk_head_def)
qed

subsection \<open>Incomplete items\<close>

lemma split_head:
  assumes "h @ y = p @ q"
  shows "(\<exists>u. p = h @ u \<and> y = u @ q) \<or> (\<exists>w. h = p @ w \<and> w \<noteq> [])"
  using assms by (auto simp: append_eq_append_conv2)

lemma concat_split:
  "concat xs = p @ q \<Longrightarrow> q \<noteq> [] \<Longrightarrow> \<exists>ys z zs u v. xs = ys @ z # zs \<and> p = concat ys @ u \<and> z = u @ v \<and> v \<noteq> []"
proof (induction xs arbitrary: p)
  case (Cons x xs)
  from split_head [of x "concat xs" p q] Cons.prems(1) consider
    u where "p = x @ u" "concat xs = u @ q" | w where "x = p @ w" "w \<noteq> []" by auto
  then show ?case
  proof cases
    case 1
    with Cons.IH [OF 1(2) Cons.prems(2)] obtain ys z zs u v where
      "xs = ys @ z # zs" "p = x @ concat ys @ u" "z = u @ v" "v \<noteq> []" by auto
    then show ?thesis by (intro exI [of _ "x # ys"]) auto
  next
    case 2
    then have "x # xs = [] @ x # xs \<and> p = concat [] @ p \<and> x = p @ w \<and> w \<noteq> []" by simp
    then show ?thesis by blast
  qed
qed simp

definition waits :: "bytes \<Rightarrow> bool" where
  "waits x \<longleftrightarrow> (\<forall>fr st p q. open_frame fr \<longrightarrow> x = p @ q \<longrightarrow> q \<noteq> [] \<longrightarrow> item_walk (fr # st) p = None)"

lemma waitsD: "waits x \<Longrightarrow> open_frame fr \<Longrightarrow> x = p @ q \<Longrightarrow> q \<noteq> [] \<Longrightarrow> item_walk (fr # st) p = None"
  by (simp add: waits_def)

lemma waits_headI:
  assumes "cbor_head m h v" "m < 8"
    and "\<And>fr st u q. open_frame fr \<Longrightarrow> y = u @ q \<Longrightarrow> q \<noteq> [] \<Longrightarrow> item_walk (fr # st) (h @ u) = None"
  shows "waits (h @ y)"
  unfolding waits_def
proof (intro allI impI)
  fix fr st p q assume fr: "open_frame fr" and e: "h @ y = p @ q" and q: "q \<noteq> []"
  from split_head [OF e] show "item_walk (fr # st) p = None"
    using walk_of_head(2) [OF assms(1,2) fr] assms(3) [OF fr _ q] by auto
qed

lemma waits_counted:
  assumes items: "\<forall>x\<in>set xs. waits x \<and> (\<exists>k. passes k x)" and n: "length xs = unat n"
    and cut: "concat xs = u @ q" "q \<noteq> []"
  shows "n > 0 \<and> item_walk (Definite n # st) u = None"
proof -
  from concat_split [OF cut] obtain ys z zs w v where
    z: "xs = ys @ z # zs" "u = concat ys @ w" "z = w @ v" "v \<noteq> []" by auto
  have le: "length ys < unat n" using n z(1) by simp
  then have "length ys < 18446744073709551616" using unat_u64_lt [of n] by linarith
  then have l: "unat (of_nat (length ys) :: u64) = length ys" by (simp add: unat_of_nat)
  with le have "unat (n - of_nat (length ys)) = unat n - length ys"
    by (simp add: unat_sub_le word_le_nat_alt)
  with le have "open_frame (Definite (n - of_nat (length ys)))" by (auto simp: open_frame_def)
  then have "item_walk (Definite (n - of_nat (length ys)) # st) w = None"
    using items z waitsD [of z _ w v] by auto
  moreover have "item_walk (Definite n # st) u = item_walk (Definite (n - of_nat (length ys)) # st) w"
    unfolding z(2) using items le by (intro passes_definite) (auto simp: z(1))
  moreover have "n > 0" using le by (auto simp: word_gt_0)
  ultimately show ?thesis by simp
qed

lemma split_break:
  assumes "ys @ [BREAK] = u @ q" "q \<noteq> []"
  shows "u = ys \<or> (\<exists>q'. ys = u @ q' \<and> q' \<noteq> [])"
  using assms by (cases q rule: rev_cases) auto

lemma waits_indef:
  assumes fr': "m = 4 \<and> fr' = IndefArray \<or> m = 5 \<and> fr' = IndefMap False"
    and items: "\<forall>x\<in>set xs. waits x"
    and passed: "\<And>ys zs. xs = ys @ zs \<Longrightarrow> \<exists>fr2. open_frame fr2 \<and> (\<forall>st r. item_walk (fr' # st) (concat ys @ r) = item_walk (fr2 # st) r)"
  shows "waits ((push_bit 5 m OR AI_INDEF) # concat xs @ [BREAK])"
  unfolding waits_def
proof (intro allI impI)
  fix fr st p q assume fr: "open_frame fr" and e: "(push_bit 5 m OR AI_INDEF) # concat xs @ [BREAK] = p @ q"
    and q: "q \<noteq> []"
  show "item_walk (fr # st) p = None"
  proof (cases p)
    case Nil
    then show ?thesis by (simp add: walk_empty fr)
  next
    case (Cons b u)
    then have u: "concat xs @ [BREAK] = u @ q" and b: "b = push_bit 5 m OR AI_INDEF" using e by simp_all
    have "item_walk (fr' # count_item fr # st) u = None"
    proof (cases "u = concat xs")
      case True
      from passed [of xs "[]"] obtain fr2 where "open_frame fr2"
        "\<forall>st r. item_walk (fr' # st) (concat xs @ r) = item_walk (fr2 # st) r" by auto
      from this(2) [rule_format, of "count_item fr # st" "[]"] True walk_empty [OF this(1)] show ?thesis by simp
    next
      case False
      with split_break [OF u q] obtain q' where "concat xs = u @ q'" "q' \<noteq> []" by auto
      from concat_split [OF this] obtain ys z zs w v where
        z: "xs = ys @ z # zs" "u = concat ys @ w" "z = w @ v" "v \<noteq> []" by auto
      from passed [OF z(1)] obtain fr2 where "open_frame fr2"
        "item_walk (fr' # count_item fr # st) u = item_walk (fr2 # count_item fr # st) w" unfolding z(2) by auto
      with items z waitsD [of z fr2 w v] show ?thesis by auto
    qed
    with Cons show ?thesis by (simp only: b walk_of_indef [OF fr' fr])
  qed
qed

lemma plain_item_waits: "plain_item k x \<Longrightarrow> waits x"
proof (induction rule: plain_item.induct)
  case (integer m bs v)
  then have "waits (bs @ [])" by (intro waits_headI [of m]) auto
  then show ?case by simp
next
  case (string m h v body)
  then show ?case
    by (intro waits_headI [of m h v])
       (auto simp: item_walk.simps [of "_ # _" "h @ _"] walk_of_head(1) walk_head_def simp flip: length_greater_0_conv)
next
  case (array h v xs)
  then have items: "\<forall>x\<in>set xs. waits x \<and> (\<exists>k. passes k x)" using plain_item_passes by blast
  from waits_counted [OF items array(2)] show ?case
    by (intro waits_headI [OF array(1)])
       (simp_all add: item_walk.simps [of "_ # _" "h @ _"] walk_of_head(1) [OF array(1)] walk_head_def)
next
  case (array_indef xs)
  then have items: "\<forall>x\<in>set xs. \<exists>k. passes k x" and w: "\<forall>x\<in>set xs. waits x"
    using plain_item_passes by blast+
  show ?case
  proof (rule waits_indef [of 4 IndefArray])
    fix ys zs assume "xs = ys @ zs"
    with items passes_array [of ys] show "\<exists>fr2. open_frame fr2
        \<and> (\<forall>st r. item_walk (IndefArray # st) (concat ys @ r) = item_walk (fr2 # st) r)"
      by (intro exI [of _ IndefArray]) (simp add: open_frame_def)
  qed (simp_all add: w)
next
  case (map h v xs)
  then have items: "\<forall>x\<in>set xs. waits x \<and> (\<exists>k. passes k x)" using plain_item_passes by blast
  have n: "length xs = unat (v * 2)" using map(2,3) by (simp add: unat_word_ariths)
  have "0 < v * 2 \<longleftrightarrow> 0 < v" using map(2) n map(3) by (auto simp: word_gt_0 unat_eq_0 [symmetric])
  with waits_counted [OF items n] map(2) show ?case
    by (intro waits_headI [OF map(1)])
       (simp_all add: item_walk.simps [of "_ # _" "h @ _"] walk_of_head(1) [OF map(1)] walk_head_def)
next
  case (map_indef xs)
  then have items: "\<forall>x\<in>set xs. passes False x" and w: "\<forall>x\<in>set xs. waits x"
    using plain_item_passes by blast+
  show ?case
  proof (rule waits_indef [of 5 "IndefMap False"])
    fix ys zs assume "xs = ys @ zs"
    with items passes_map [of ys False] show "\<exists>fr2. open_frame fr2
        \<and> (\<forall>st r. item_walk (IndefMap False # st) (concat ys @ r) = item_walk (fr2 # st) r)"
      by (intro exI [of _ "IndefMap (odd (length ys))"]) (simp add: open_frame_def)
  qed (simp_all add: w)
next
  case (tag h v k x)
  then show ?case
    by (intro waits_headI [OF tag(1)])
       (simp_all add: item_walk.simps [of "_ # _" "h @ _"] walk_of_head(1) [OF tag(1)] walk_head_def waitsD open_frame_def)
next
  case (simple bs v)
  then have "waits (bs @ [])" by (intro waits_headI [of 7]) auto
  then show ?case by simp
qed

text \<open>
  The boundary of a plain item is found as soon as its last byte is there, whatever follows, and
  not before.
\<close>

lemma item_length_complete:
  assumes "plain_item k x"
  shows "cbor_item_length (x @ r) = Some (length x)"
proof -
  have "x \<noteq> []" using cbor_item_first [OF plain_item_item [OF assms]] by simp
  moreover have "item_walk [Definite 1] (x @ r) = Some r"
    using passesD [OF plain_item_passes [OF assms], of "Definite 1" "[]" r]
    by (cases k) (simp_all add: open_frame_def walk_discharge item_walk.simps [of "[]"] walk_step_def)
  ultimately show ?thesis by (simp add: cbor_item_length_def)
qed

lemma item_length_incomplete:
  assumes "plain_item k x" "x = p @ q" "q \<noteq> []"
  shows "cbor_item_length p = None"
  using waitsD [OF plain_item_waits [OF assms(1)] _ assms(2,3), of "Definite 1"]
  by (simp add: cbor_item_length_def open_frame_def)

text \<open>
  For the other items the boundary is not found. A string of indefinite length that is cut off
  after a chunk is taken for complete; and an indefinite-length map with an indefinite-length array
  in it is never complete, because the array is counted when it opens and again when it closes.
\<close>

lemma cut_string_taken_whole:
  "cbor_item ([0x5f, 0x41, 0x00] @ [0xff])" "cbor_item_length [0x5f, 0x41, 0x00] = Some 3"
proof -
  have "cbor_head 2 [0x41] 1" unfolding cbor_head_def
    by (rule exI [of _ 1], rule exI [of _ "[]"]) (simp add: arg_len_def arg_val_def)
  from cbor_item.string [OF _ this, of "[0]"] have "cbor_item [0x41, 0]" by simp
  with cbor_item.string_indef [of 2 "[[0x41, 0]]"] show "cbor_item ([0x5f, 0x41, 0x00] @ [0xff])"
    by (simp add: AI_INDEF_def BREAK_def)
  show "cbor_item_length [0x5f, 0x41, 0x00] = Some 3" by code_simp
qed

lemma nested_indefinite_never_complete:
  "cbor_item [0xbf, 0x00, 0x9f, 0xff, 0xff]" "cbor_item_length ([0xbf, 0x00, 0x9f, 0xff, 0xff] @ r) = None"
proof -
  have "cbor_head 0 [0] 0" unfolding cbor_head_def
    by (rule exI [of _ 0], rule exI [of _ "[]"]) (simp add: arg_len_def arg_val_def)
  from cbor_item.integer [OF _ this] have "cbor_item [0]" by simp
  moreover have "cbor_item [0x9f, 0xff]" using cbor_item.array_indef [of "[]"] by (simp add: AI_INDEF_def BREAK_def)
  ultimately show "cbor_item [0xbf, 0x00, 0x9f, 0xff, 0xff]"
    using cbor_item.map_indef [of "[[0], [0x9f, 0xff]]"] by (simp add: AI_INDEF_def BREAK_def)
  show "cbor_item_length ([0xbf, 0x00, 0x9f, 0xff, 0xff] @ r) = None"
    by (simp add: cbor_item_length_def item_walk.simps walk_step_def walk_head_def item_argument_def)
qed

end
