(* ===== verification/Mux.thy ===== *)
theory Mux
  imports ItemLength
begin

unbundle bit_operations_syntax

text \<open>
  The multiplexer, \<open>src/crates/network/src/mux.rs\<close>: the frames (SDUs) on the wire, the writer that
  takes payloads from the egress queues of the mini-protocols in a weighted round, the reader that
  dispatches frames to the ingress queues, and the channel that puts messages together again.

  One direction of a connection is a state \<open>mux_link\<close> and its events: the sending node's handles and
  writer task, the wire, and the receiving node's reader task and channels. Tasks interleave; an event
  is what one task does between two points at which another may run. \<open>send\<close> is two events, because
  the writer may take a payload before the sender has counted it.
\<close>

section \<open>Frames\<close>

datatype mini_protocol_dir = Initiator | Responder

record sdu_header =
  sh_timestamp :: u32
  sh_protocol_num :: u16
  sh_direction :: mini_protocol_dir
  sh_payload_length :: u16

datatype sdu_decode_error = BufferTooShort nat

definition DIRECTION_BIT :: u16 where
  "DIRECTION_BIT = 0x8000"

definition SDU_HEADER_SIZE :: nat where
  "SDU_HEADER_SIZE = 8"

definition sdu_encode :: "sdu_header \<Rightarrow> bytes" where
  "sdu_encode h =
     (let dir_bit = (case sh_direction h of Initiator \<Rightarrow> 0 | Responder \<Rightarrow> DIRECTION_BIT);
          num_and_dir = dir_bit OR (sh_protocol_num h AND NOT DIRECTION_BIT)
      in be_bytes 4 (unat (sh_timestamp h)) @ be_bytes 2 (unat num_and_dir)
         @ be_bytes 2 (unat (sh_payload_length h)))"

definition sdu_decode :: "bytes \<Rightarrow> (sdu_decode_error, sdu_header) result" where
  "sdu_decode buf =
     (if length buf < SDU_HEADER_SIZE then Err (BufferTooShort (length buf))
      else let num_dir = of_nat (be_val (take 2 (drop 4 buf))) :: u16 in
           Ok \<lparr>sh_timestamp = of_nat (be_val (take 4 buf)),
               sh_protocol_num = num_dir AND NOT DIRECTION_BIT,
               sh_direction = (if num_dir AND DIRECTION_BIT \<noteq> 0 then Responder else Initiator),
               sh_payload_length = of_nat (be_val (take 2 (drop 6 buf)))\<rparr>)"

definition MAX_SEGMENT_SIZE :: nat where
  "MAX_SEGMENT_SIZE = 12288"

text \<open>\<open>slice::chunks\<close>.\<close>

function chunks :: "nat \<Rightarrow> 'a list \<Rightarrow> 'a list list" where
  "chunks n xs = (if xs = [] \<or> n = 0 then [] else take n xs # chunks n (drop n xs))"
  by pat_completeness auto
termination
  by (relation "measure (length \<circ> snd)") auto

definition sdu_frame :: "u32 \<Rightarrow> u16 \<Rightarrow> mini_protocol_dir \<Rightarrow> bytes \<Rightarrow> bytes" where
  "sdu_frame timestamp proto role payload =
     sdu_encode \<lparr>sh_timestamp = timestamp, sh_protocol_num = proto, sh_direction = role,
                 sh_payload_length = of_nat (length payload)\<rparr> @ payload"

text \<open>The bytes \<open>write_sdu\<close> writes; \<open>clock i\<close> is the time at which frame \<open>i\<close> is made.\<close>

definition write_sdu :: "(nat \<Rightarrow> u32) \<Rightarrow> u16 \<Rightarrow> mini_protocol_dir \<Rightarrow> bytes \<Rightarrow> bytes" where
  "write_sdu clock proto role payload =
     (if length payload \<le> MAX_SEGMENT_SIZE then sdu_frame (clock 0) proto role payload
      else concat (map (\<lambda>(i, chunk). sdu_frame (clock i) proto role chunk)
                     (List.enumerate 0 (chunks MAX_SEGMENT_SIZE payload))))"


section \<open>The state of a link\<close>

datatype mux_error =
    MuxConnectionClosed
  | UnknownProtocol u16
  | EgressClosed
  | IngressQueueOverRun u16 u64 u64
  | EgressBufferOverflow u16 u64 u64
  | SduTimeout

definition EGRESS_SOFT_LIMIT :: u64 where
  "EGRESS_SOFT_LIMIT = 0x3ffff"

definition DEFAULT_INGRESS_LIMIT :: u64 where
  "DEFAULT_INGRESS_LIMIT = 2000000"

text \<open>
  The sending side of a protocol, shared by its handle and the writer. \<open>es_in_send\<close> is the length of
  a payload that is in the queue and that the sender has not counted yet.
\<close>

record egress_slot =
  es_protocol_num :: u16
  es_queue :: "bytes list"
  es_sender_alive :: bool
  es_in_send :: "nat option"
  es_weight :: u8
  es_pending_bytes :: u64
  es_closed :: bool

text \<open>The receiving side, with the buffer of the \<open>MessageChannel\<close> that reads from it.\<close>

record ingress_channel =
  ic_queue :: "bytes list"
  ic_receiver_alive :: bool
  ic_bytes :: u64
  ic_limit :: u64
  ic_read_buf :: bytes

datatype writer = RoundStart | AtSlot nat u8 bool | WriterWaiting | WriterExited "(mux_error, unit) result"

datatype reader = ReadHeader | ReadPayload sdu_header | ReaderExited "(mux_error, unit) result"

text \<open>The last two fields are a history: what was sent and what was delivered, in order.\<close>

record mux_link =
  ml_role :: mini_protocol_dir
  ml_slots :: "egress_slot list"
  ml_writer :: writer
  ml_notified :: bool
  ml_wire :: bytes
  ml_reader :: reader
  ml_ingress :: "(u16 \<times> ingress_channel) list"
  ml_buffer_size :: nat
  ml_sent :: "(u16 \<times> bytes) list"
  ml_delivered :: "(u16 \<times> bytes) list"

text \<open>\<open>start_from_halves\<close>, with one configuration (number, ingress limit, weight) for each protocol.\<close>

definition start_link :: "mini_protocol_dir \<Rightarrow> (u16 \<times> u64 \<times> u8) list \<Rightarrow> nat \<Rightarrow> mux_link" where
  "start_link role protocols buffer_size =
     \<lparr>ml_role = role,
      ml_slots = map (\<lambda>(num, limit, weight).
        \<lparr>es_protocol_num = num, es_queue = [], es_sender_alive = True, es_in_send = None,
         es_weight = max weight 1, es_pending_bytes = 0, es_closed = False\<rparr>) protocols,
      ml_writer = RoundStart, ml_notified = False, ml_wire = [], ml_reader = ReadHeader,
      ml_ingress = map (\<lambda>(num, limit, weight).
        (num, \<lparr>ic_queue = [], ic_receiver_alive = True, ic_bytes = 0, ic_limit = limit, ic_read_buf = []\<rparr>)) protocols,
      ml_buffer_size = buffer_size, ml_sent = [], ml_delivered = []\<rparr>"


section \<open>Handles\<close>

definition find_slot :: "u16 \<Rightarrow> egress_slot list \<Rightarrow> egress_slot option" where
  "find_slot p slots = List.find (\<lambda>s. es_protocol_num s = p) slots"

definition update_slot :: "u16 \<Rightarrow> (egress_slot \<Rightarrow> egress_slot) \<Rightarrow> egress_slot list \<Rightarrow> egress_slot list" where
  "update_slot p f slots = map (\<lambda>s. if es_protocol_num s = p then f s else s) slots"

fun writer_exited :: "writer \<Rightarrow> bool" where
  "writer_exited (WriterExited r) \<longleftrightarrow> True"
| "writer_exited w \<longleftrightarrow> False"

text \<open>
  \<open>ProtocolHandle::send\<close> up to the point where the payload is in the queue; \<open>None\<close> while the queue is
  full, and when there is no handle that could send: it was dropped, or its last send has not ended.
  The queue is closed once the writer has exited.
\<close>

definition send_begin :: "u16 \<Rightarrow> bytes \<Rightarrow> mux_link \<Rightarrow> (mux_link \<times> (mux_error, unit) result) option" where
  "send_begin p payload l =
     (case find_slot p (ml_slots l) of
        None \<Rightarrow> None
      | Some s \<Rightarrow>
          if \<not> es_sender_alive s \<or> es_in_send s \<noteq> None then None
          else if es_pending_bytes s > EGRESS_SOFT_LIMIT
          then Some (l, Err (EgressBufferOverflow p (es_pending_bytes s) EGRESS_SOFT_LIMIT))
          else if writer_exited (ml_writer l) then Some (l, Err EgressClosed)
          else if length (es_queue s) \<ge> ml_buffer_size l then None
          else Some (l\<lparr>ml_slots := update_slot p (\<lambda>s. s\<lparr>es_queue := es_queue s @ [payload],
                          es_in_send := Some (length payload)\<rparr>) (ml_slots l),
                       ml_sent := ml_sent l @ [(p, payload)]\<rparr>, Ok ()))"

text \<open>The rest of it: the payload is counted and the writer notified.\<close>

definition send_end :: "u16 \<Rightarrow> mux_link \<Rightarrow> mux_link option" where
  "send_end p l =
     Option.bind (find_slot p (ml_slots l)) (\<lambda>s. Option.bind (es_in_send s) (\<lambda>len.
       Some (l\<lparr>ml_slots := update_slot p (\<lambda>s. s\<lparr>es_pending_bytes := es_pending_bytes s + of_nat len,
                es_in_send := None\<rparr>) (ml_slots l), ml_notified := True\<rparr>)))"

definition drop_handle :: "u16 \<Rightarrow> mux_link \<Rightarrow> mux_link option" where
  "drop_handle p l =
     Option.bind (find_slot p (ml_slots l)) (\<lambda>s.
       if es_in_send s \<noteq> None then None
       else Some (l\<lparr>ml_slots := update_slot p (\<lambda>s. s\<lparr>es_sender_alive := False\<rparr>) (ml_slots l)\<rparr>))"

definition set_weight :: "u16 \<Rightarrow> u8 \<Rightarrow> mux_link \<Rightarrow> mux_link" where
  "set_weight p w l = l\<lparr>ml_slots := update_slot p (\<lambda>s. s\<lparr>es_weight := max w 1\<rparr>) (ml_slots l)\<rparr>"


section \<open>The writer\<close>

text \<open>The visit of a slot in a round: \<open>written\<close> payloads of it were written in this visit.\<close>

definition visit_slot :: "(nat \<Rightarrow> u32) \<Rightarrow> nat \<Rightarrow> u8 \<Rightarrow> bool \<Rightarrow> mux_link \<Rightarrow> mux_link" where
  "visit_slot clock i written any_written l =
     (let s = ml_slots l ! i in
      if written < es_weight s
      then (case es_queue s of
          payload # q \<Rightarrow>
            l\<lparr>ml_wire := ml_wire l @ write_sdu clock (es_protocol_num s) (ml_role l) payload,
              ml_slots := (ml_slots l)[i := s\<lparr>es_queue := q,
                es_pending_bytes := es_pending_bytes s - of_nat (length payload)\<rparr>],
              ml_writer := AtSlot i (written + 1) True\<rparr>
        | [] \<Rightarrow>
            l\<lparr>ml_slots := (ml_slots l)[i := s\<lparr>es_closed := es_closed s \<or> \<not> es_sender_alive s\<rparr>],
              ml_writer := AtSlot (Suc i) 0 any_written\<rparr>)
      else l\<lparr>ml_writer := AtSlot (Suc i) 0 any_written\<rparr>)"

fun writer_step :: "(nat \<Rightarrow> u32) \<Rightarrow> mux_link \<Rightarrow> mux_link option" where
  "writer_step clock l =
     (case ml_writer l of
        RoundStart \<Rightarrow>
          (let slots = filter (\<lambda>s. \<not> es_closed s) (ml_slots l) in
           Some (l\<lparr>ml_slots := slots,
                   ml_writer := (if slots = [] then WriterExited (Ok ()) else AtSlot 0 0 False)\<rparr>))
      | AtSlot i written any_written \<Rightarrow>
          if i < length (ml_slots l) then Some (visit_slot clock i written any_written l)
          else if any_written then Some (l\<lparr>ml_writer := RoundStart\<rparr>)
          else if list_all es_closed (ml_slots l)
          then Some (l\<lparr>ml_slots := [], ml_writer := WriterExited (Ok ())\<rparr>)
          else Some (l\<lparr>ml_writer := WriterWaiting\<rparr>)
      | WriterWaiting \<Rightarrow>
          if ml_notified l then Some (l\<lparr>ml_notified := False, ml_writer := RoundStart\<rparr>) else None
      | WriterExited r \<Rightarrow> None)"


section \<open>The reader\<close>

definition ingress_of :: "u16 \<Rightarrow> mux_link \<Rightarrow> ingress_channel option" where
  "ingress_of p l = map_of (ml_ingress l) p"

definition update_ingress :: "u16 \<Rightarrow> (ingress_channel \<Rightarrow> ingress_channel) \<Rightarrow> mux_link \<Rightarrow> mux_link" where
  "update_ingress p f l =
     l\<lparr>ml_ingress := map (\<lambda>(q, c). (q, if q = p then f c else c)) (ml_ingress l)\<rparr>"

text \<open>Eight bytes are read and the limit of the protocol is checked, before the payload is read.\<close>

definition read_header :: "mux_link \<Rightarrow> mux_link option" where
  "read_header l =
     (if length (ml_wire l) < SDU_HEADER_SIZE then None
      else case sdu_decode (take SDU_HEADER_SIZE (ml_wire l)) of
          Ok header \<Rightarrow>
            (let proto = sh_protocol_num header; len = ucast (sh_payload_length header) :: u64;
                 l1 = l\<lparr>ml_wire := drop SDU_HEADER_SIZE (ml_wire l)\<rparr> in
             case ingress_of proto l of
               Some c \<Rightarrow>
                 if ic_bytes c + len > ic_limit c
                 then Some (l1\<lparr>ml_reader := ReaderExited (Err (IngressQueueOverRun proto (ic_bytes c + len) (ic_limit c)))\<rparr>)
                 else Some ((update_ingress proto (\<lambda>c. c\<lparr>ic_bytes := ic_bytes c + len\<rparr>) l1)\<lparr>ml_reader := ReadPayload header\<rparr>)
             | None \<Rightarrow> Some (l1\<lparr>ml_reader := ReadPayload header\<rparr>))
        | _ \<Rightarrow> None)"

text \<open>The payload goes to the queue of its protocol, unless its receiver was dropped.\<close>

definition read_payload :: "sdu_header \<Rightarrow> mux_link \<Rightarrow> mux_link option" where
  "read_payload header l =
     (let len = unat (sh_payload_length header); proto = sh_protocol_num header;
          payload = take len (ml_wire l); l1 = l\<lparr>ml_wire := drop len (ml_wire l)\<rparr> in
      if length (ml_wire l) < len then None
      else case ingress_of proto l of
          None \<Rightarrow> Some (l1\<lparr>ml_reader := ReaderExited (Err (UnknownProtocol proto))\<rparr>)
        | Some c \<Rightarrow>
            if \<not> ic_receiver_alive c
            then Some ((update_ingress proto (\<lambda>c. c\<lparr>ic_bytes := ic_bytes c - of_nat len\<rparr>) l1)\<lparr>ml_reader := ReadHeader\<rparr>)
            else if length (ic_queue c) \<ge> ml_buffer_size l then None
            else Some ((update_ingress proto (\<lambda>c. c\<lparr>ic_queue := ic_queue c @ [payload]\<rparr>) l1)\<lparr>ml_reader := ReadHeader\<rparr>))"

fun reader_step :: "mux_link \<Rightarrow> mux_link option" where
  "reader_step l =
     (case ml_reader l of
        ReadHeader \<Rightarrow> read_header l
      | ReadPayload header \<Rightarrow> read_payload header l
      | ReaderExited r \<Rightarrow> None)"


section \<open>The message channel\<close>

definition deliver :: "u16 \<Rightarrow> bytes \<Rightarrow> mux_link \<Rightarrow> mux_link" where
  "deliver p msg l = l\<lparr>ml_delivered := ml_delivered l @ [(p, msg)]\<rparr>"

text \<open>
  One round of the loop of \<open>MessageChannel::recv\<close>: a complete message is taken from the buffer, or
  else the next payload is added to it; \<open>None\<close> while the queue is empty.
\<close>

definition channel_poll :: "u16 \<Rightarrow> mux_link \<Rightarrow> mux_link option" where
  "channel_poll p l =
     Option.bind (ingress_of p l) (\<lambda>c.
       if \<not> ic_receiver_alive c then None
       else case cbor_item_length (ic_read_buf c) of
           Some n \<Rightarrow>
             Some (deliver p (take n (ic_read_buf c))
               (update_ingress p (\<lambda>c. c\<lparr>ic_read_buf := drop n (ic_read_buf c)\<rparr>) l))
         | None \<Rightarrow>
             (case ic_queue c of
                [] \<Rightarrow> None
              | chunk # q \<Rightarrow>
                  (let l1 = update_ingress p (\<lambda>c. c\<lparr>ic_queue := q,
                          ic_bytes := ic_bytes c - of_nat (length chunk)\<rparr>) l in
                   if chunk = [] \<and> ic_read_buf c = [] then Some (deliver p chunk l1)
                   else Some (update_ingress p (\<lambda>c. c\<lparr>ic_read_buf := ic_read_buf c @ chunk\<rparr>) l1))))"

definition drop_receiver :: "u16 \<Rightarrow> mux_link \<Rightarrow> mux_link" where
  "drop_receiver p l = update_ingress p (\<lambda>c. c\<lparr>ic_receiver_alive := False\<rparr>) l"


section \<open>Runs\<close>

datatype mux_event =
    SendBegin u16 bytes
  | SendEnd u16
  | DropHandle u16
  | SetWeight u16 u8
  | WriterStep "nat \<Rightarrow> u32"
  | CancelWriter
  | ReaderStep
  | ReaderTimeout
  | CancelReader
  | PeerClosed
  | Poll u16
  | DropReceiver u16

text \<open>What an event does to the link; \<open>None\<close> when it cannot happen now.\<close>

fun link_step :: "mux_event \<Rightarrow> mux_link \<Rightarrow> mux_link option" where
  "link_step (SendBegin p payload) l = map_option fst (send_begin p payload l)"
| "link_step (SendEnd p) l = send_end p l"
| "link_step (DropHandle p) l = drop_handle p l"
| "link_step (SetWeight p w) l = Some (set_weight p w l)"
| "link_step (WriterStep clock) l = writer_step clock l"
| "link_step CancelWriter l =
     (if ml_writer l = WriterWaiting then Some (l\<lparr>ml_writer := WriterExited (Err MuxConnectionClosed)\<rparr>) else None)"
| "link_step ReaderStep l = reader_step l"
| "link_step ReaderTimeout l =
     (if ml_reader l = ReadHeader then Some (l\<lparr>ml_reader := ReaderExited (Err SduTimeout)\<rparr>) else None)"
| "link_step CancelReader l =
     (if ml_reader l = ReadHeader then Some (l\<lparr>ml_reader := ReaderExited (Err MuxConnectionClosed)\<rparr>) else None)"
| "link_step PeerClosed l =
     (if (case ml_reader l of ReadHeader \<Rightarrow> length (ml_wire l) < SDU_HEADER_SIZE
          | ReadPayload header \<Rightarrow> length (ml_wire l) < unat (sh_payload_length header)
          | ReaderExited r \<Rightarrow> False)
      then Some (l\<lparr>ml_reader := ReaderExited (Err MuxConnectionClosed)\<rparr>) else None)"
| "link_step (Poll p) l = channel_poll p l"
| "link_step (DropReceiver p) l = Some (drop_receiver p l)"

fun link_run :: "mux_event list \<Rightarrow> mux_link \<Rightarrow> mux_link option" where
  "link_run [] l = Some l"
| "link_run (e # es) l = Option.bind (link_step e l) (link_run es)"

end
