(* ===== verification/MuxProps.thy ===== *)
theory MuxProps
  imports Mux "HOL-Library.Sublist"
begin

unbundle bit_operations_syntax

text \<open>
  The multiplexer delivers. Whatever the tasks do in whatever order, each mini-protocol receives the
  messages that were sent on it, in the order in which they were sent; and when no task can go on,
  everything that was sent has been received.
\<close>

section \<open>Frames are read back\<close>

definition num_ok :: "u16 \<Rightarrow> bool" where
  "num_ok p \<longleftrightarrow> p AND NOT DIRECTION_BIT = p"

lemma length_sdu_encode [simp]: "length (sdu_encode h) = 8"
  by (simp add: sdu_encode_def Let_def)

lemma direction_bits:
  fixes p :: u16
  shows "(0 OR (p AND NOT DIRECTION_BIT)) AND DIRECTION_BIT = 0"
    "(DIRECTION_BIT OR (p AND NOT DIRECTION_BIT)) AND DIRECTION_BIT \<noteq> 0"
    "(0 OR (p AND NOT DIRECTION_BIT)) AND NOT DIRECTION_BIT = p AND NOT DIRECTION_BIT"
    "(DIRECTION_BIT OR (p AND NOT DIRECTION_BIT)) AND NOT DIRECTION_BIT = p AND NOT DIRECTION_BIT"
proof -
  show "(0 OR (p AND NOT DIRECTION_BIT)) AND DIRECTION_BIT = 0"
    "(0 OR (p AND NOT DIRECTION_BIT)) AND NOT DIRECTION_BIT = p AND NOT DIRECTION_BIT"
    "(DIRECTION_BIT OR (p AND NOT DIRECTION_BIT)) AND NOT DIRECTION_BIT = p AND NOT DIRECTION_BIT"
    by (rule bit_word_eqI, auto simp: bit_simps)+
  have "(DIRECTION_BIT OR (p AND NOT DIRECTION_BIT)) AND DIRECTION_BIT = DIRECTION_BIT"
    by (rule bit_word_eqI) (auto simp: bit_simps)
  then show "(DIRECTION_BIT OR (p AND NOT DIRECTION_BIT)) AND DIRECTION_BIT \<noteq> 0"
    by (simp add: DIRECTION_BIT_def)
qed

lemma be_word:
  "of_nat (be_val (be_bytes 2 (unat (x :: u16)))) = x" "of_nat (be_val (be_bytes 4 (unat (y :: u32)))) = y"
  using unsigned_less [of x, where ?'a = nat] unsigned_less [of y, where ?'a = nat]
  by (simp_all add: be_val_be_bytes)

lemma sdu_round_trip:
  assumes "num_ok (sh_protocol_num h)"
  shows "sdu_decode (sdu_encode h @ r) = Ok h"
  using assms direction_bits [of "sh_protocol_num h"]
  by (cases h) (auto simp: sdu_decode_def sdu_encode_def Let_def SDU_HEADER_SIZE_def num_ok_def be_word
      split: mini_protocol_dir.splits)

declare chunks.simps [simp del]

lemma concat_chunks: "n > 0 \<Longrightarrow> concat (chunks n xs) = xs"
  by (induction n xs rule: chunks.induct) (subst chunks.simps, simp)

lemma chunks_sized: "x \<in> set (chunks n xs) \<Longrightarrow> x \<noteq> [] \<and> length x \<le> n"
proof (induction n xs rule: chunks.induct)
  case (1 n xs)
  then show ?case by (subst (asm) (2) chunks.simps) (auto split: if_splits)
qed

text \<open>A frame in flight: its time, its protocol and its payload.\<close>

type_synonym segment = "u32 \<times> u16 \<times> bytes"

definition frames :: "mini_protocol_dir \<Rightarrow> segment list \<Rightarrow> bytes" where
  "frames role fs = concat (map (\<lambda>(t, p, b). sdu_frame t p role b) fs)"

definition segment_ok :: "segment \<Rightarrow> bool" where
  "segment_ok f \<longleftrightarrow> snd (snd f) \<noteq> [] \<and> length (snd (snd f)) \<le> MAX_SEGMENT_SIZE \<and> num_ok (fst (snd f))"

definition segs :: "u16 \<Rightarrow> segment list \<Rightarrow> bytes" where
  "segs p fs = concat (map (\<lambda>(t, q, b). b) (filter (\<lambda>(t, q, b). q = p) fs))"

lemma frames_simps [simp]:
  "frames role [] = []" "frames role ((t, p, b) # fs) = sdu_frame t p role b @ frames role fs"
  "frames role (fs @ gs) = frames role fs @ frames role gs"
  by (simp_all add: frames_def)

lemma segs_simps [simp]:
  "segs p [] = []" "segs p ((t, q, b) # fs) = (if q = p then b else []) @ segs p fs"
  "segs p (fs @ gs) = segs p fs @ segs p gs"
  by (simp_all add: segs_def)

lemma write_sdu_frames:
  assumes "payload \<noteq> []" "num_ok p"
  obtains fs where "write_sdu clock p role payload = frames role fs" "list_all segment_ok fs"
    "segs p fs = payload" "\<forall>f\<in>set fs. fst (snd f) = p"
proof (cases "length payload \<le> MAX_SEGMENT_SIZE")
  case True
  then show thesis using assms
    by (intro that [of "[(clock 0, p, payload)]"]) (simp_all add: write_sdu_def segment_ok_def)
next
  case False
  let ?cs = "chunks MAX_SEGMENT_SIZE payload"
  let ?fs = "map (\<lambda>(i, b). (clock i, p, b)) (List.enumerate 0 ?cs)"
  have snd: "map snd (List.enumerate 0 ?cs) = ?cs" by simp
  have "segs p (map (\<lambda>(i, b). (clock i, p, b)) ibs) = concat (map snd ibs)" for ibs
    by (induction ibs) auto
  then have "segs p ?fs = payload" using concat_chunks [of MAX_SEGMENT_SIZE payload]
    unfolding snd by (simp add: MAX_SEGMENT_SIZE_def)
  moreover have "list_all segment_ok ?fs"
    using chunks_sized [of _ MAX_SEGMENT_SIZE payload] assms(2)
    by (auto simp: list_all_iff segment_ok_def in_set_enumerate_eq)
  moreover have "write_sdu clock p role payload = frames role ?fs"
    using False by (simp add: write_sdu_def frames_def split_def comp_def)
  ultimately show thesis by (intro that [of ?fs]) auto
qed

definition header_of :: "mini_protocol_dir \<Rightarrow> segment \<Rightarrow> sdu_header" where
  "header_of role f =
     \<lparr>sh_timestamp = fst f, sh_protocol_num = fst (snd f), sh_direction = role,
      sh_payload_length = of_nat (length (snd (snd f)))\<rparr>"

lemma frame_header:
  assumes "segment_ok (t, p, b)"
  shows "take 8 (sdu_frame t p role b @ r) = sdu_encode (header_of role (t, p, b))"
    "drop 8 (sdu_frame t p role b @ r) = b @ r"
    "sdu_decode (sdu_encode (header_of role (t, p, b))) = Ok (header_of role (t, p, b))"
    "unat (sh_payload_length (header_of role (t, p, b))) = length b"
proof -
  show "take 8 (sdu_frame t p role b @ r) = sdu_encode (header_of role (t, p, b))"
    "drop 8 (sdu_frame t p role b @ r) = b @ r"
    by (simp_all add: sdu_frame_def header_of_def)
  show "sdu_decode (sdu_encode (header_of role (t, p, b))) = Ok (header_of role (t, p, b))"
    using sdu_round_trip [of "header_of role (t, p, b)" "[]"] assms(1) by (simp add: header_of_def segment_ok_def)
  show "unat (sh_payload_length (header_of role (t, p, b))) = length b"
    using assms(1) by (simp add: header_of_def segment_ok_def MAX_SEGMENT_SIZE_def unat_of_nat)
qed

section \<open>The invariant of a link\<close>

fun reader_exited :: "reader \<Rightarrow> bool" where
  "reader_exited (ReaderExited r) \<longleftrightarrow> True"
| "reader_exited r \<longleftrightarrow> False"

definition messages :: "u16 \<Rightarrow> (u16 \<times> bytes) list \<Rightarrow> bytes list" where
  "messages p log = map snd (filter (\<lambda>(q, m). q = p) log)"

definition egress_of :: "u16 \<Rightarrow> egress_slot list \<Rightarrow> bytes list" where
  "egress_of p slots = (case find_slot p slots of None \<Rightarrow> [] | Some s \<Rightarrow> es_queue s)"

text \<open>The wire carries the frames \<open>fs\<close>; of the first the header may have been read already.\<close>

definition carries :: "mux_link \<Rightarrow> segment list \<Rightarrow> bool" where
  "carries l fs \<longleftrightarrow>
     (case ml_reader l of
        ReadHeader \<Rightarrow> ml_wire l = frames (ml_role l) fs
      | ReadPayload h \<Rightarrow>
          (\<exists>f fs'. fs = f # fs' \<and> h = header_of (ml_role l) f \<and> ml_wire l = snd (snd f) @ frames (ml_role l) fs')
      | ReaderExited _ \<Rightarrow> True)"

text \<open>
  What is sent and not delivered is what the channel's buffer and queue hold and \<open>rest\<close>, which is
  on its way.
\<close>

definition tracks :: "bytes list \<Rightarrow> bytes list \<Rightarrow> ingress_channel \<Rightarrow> bytes \<Rightarrow> bool" where
  "tracks sent delivered c rest \<longleftrightarrow>
     [] \<notin> set (ic_queue c) \<and>
     (\<exists>pend. sent = delivered @ pend \<and> concat pend = ic_read_buf c @ concat (ic_queue c) @ rest)"

definition stream :: "segment list \<Rightarrow> mux_link \<Rightarrow> u16 \<Rightarrow> ingress_channel \<Rightarrow> bool" where
  "stream fs l p c \<longleftrightarrow>
     (\<exists>rest. tracks (messages p (ml_sent l)) (messages p (ml_delivered l)) c rest \<and>
        (ic_receiver_alive c \<longrightarrow> \<not> reader_exited (ml_reader l) \<longrightarrow> rest = segs p fs @ concat (egress_of p (ml_slots l))))"

text \<open>The counters: bytes in the ingress queue and, once its header is read, of the frame in hand.\<close>

definition in_hand :: "u16 \<Rightarrow> reader \<Rightarrow> nat" where
  "in_hand p r = (case r of ReadPayload h \<Rightarrow> if sh_protocol_num h = p then unat (sh_payload_length h) else 0 | _ \<Rightarrow> 0)"

definition counted :: "mux_link \<Rightarrow> u16 \<Rightarrow> ingress_channel \<Rightarrow> bool" where
  "counted l p c \<longleftrightarrow>
     (ic_receiver_alive c \<longrightarrow> \<not> reader_exited (ml_reader l) \<longrightarrow>
        ic_bytes c = of_nat (sum_list (map length (ic_queue c)) + in_hand p (ml_reader l)))"

definition slot_ok :: "egress_slot \<Rightarrow> bool" where
  "slot_ok s \<longleftrightarrow> (es_closed s \<longrightarrow> es_queue s = [] \<and> \<not> es_sender_alive s) \<and> [] \<notin> set (es_queue s)
     \<and> 1 \<le> es_weight s \<and> num_ok (es_protocol_num s) \<and> (es_in_send s \<noteq> None \<longrightarrow> es_sender_alive s)
     \<and> es_pending_bytes s + of_nat (case es_in_send s of None \<Rightarrow> 0 | Some n \<Rightarrow> n)
       = of_nat (sum_list (map length (es_queue s)))"

definition registered :: "mux_link \<Rightarrow> u16 set" where
  "registered l = fst ` set (ml_ingress l)"

definition is_message :: "bytes \<Rightarrow> bool" where
  "is_message m \<longleftrightarrow> (\<exists>k. plain_item k m)"

definition static_ok :: "mux_link \<Rightarrow> bool" where
  "static_ok l \<longleftrightarrow>
     distinct (map es_protocol_num (ml_slots l)) \<and> list_all slot_ok (ml_slots l)
     \<and> es_protocol_num ` set (ml_slots l) \<subseteq> registered l \<and> (\<forall>(p, m)\<in>set (ml_sent l). is_message m)
     \<and> (\<forall>p. ml_reader l \<noteq> ReaderExited (Err (UnknownProtocol p)))"

definition flow_ok :: "mux_link \<Rightarrow> segment list \<Rightarrow> bool" where
  "flow_ok l fs \<longleftrightarrow>
     carries l fs \<and> list_all segment_ok fs \<and> (\<lambda>f. fst (snd f)) ` set fs \<subseteq> registered l
     \<and> (\<forall>p c. ingress_of p l = Some c \<longrightarrow> stream fs l p c \<and> counted l p c)"

definition link_inv :: "mux_link \<Rightarrow> bool" where
  "link_inv l \<longleftrightarrow> static_ok l \<and> (\<exists>fs. flow_ok l fs)"

subsection \<open>Slots and channels\<close>

lemma messages_simps [simp]:
  "messages p [] = []" "messages p (log @ [(q, m)]) = (if q = p then messages p log @ [m] else messages p log)"
  by (simp_all add: messages_def)

lemma ingress_of_update [simp]:
  "ingress_of p (update_ingress q f l) = (if p = q then map_option f (ingress_of p l) else ingress_of p l)"
proof -
  have "map_of (map (\<lambda>(q', c). (q', if q' = q then f c else c)) xs) p
      = (if p = q then map_option f (map_of xs p) else map_of xs p)" for xs
    by (induction xs) auto
  then show ?thesis by (simp add: ingress_of_def update_ingress_def)
qed

lemma update_ingress_sel [simp]:
  "ml_role (update_ingress q f l) = ml_role l" "ml_slots (update_ingress q f l) = ml_slots l"
  "ml_writer (update_ingress q f l) = ml_writer l" "ml_notified (update_ingress q f l) = ml_notified l"
  "ml_wire (update_ingress q f l) = ml_wire l" "ml_reader (update_ingress q f l) = ml_reader l"
  "ml_buffer_size (update_ingress q f l) = ml_buffer_size l"
  "ml_sent (update_ingress q f l) = ml_sent l" "ml_delivered (update_ingress q f l) = ml_delivered l"
  "registered (update_ingress q f l) = registered l"
  by (simp_all add: update_ingress_def registered_def) force

lemma registered_iff: "p \<in> registered l \<longleftrightarrow> ingress_of p l \<noteq> None"
  by (simp add: registered_def ingress_of_def map_of_eq_None_iff)

lemma registered_sel [simp]:
  "registered (ml_slots_update f l) = registered l" "registered (ml_writer_update g l) = registered l"
  "registered (ml_notified_update h l) = registered l" "registered (ml_wire_update w l) = registered l"
  "registered (ml_reader_update r l) = registered l" "registered (ml_sent_update t l) = registered l"
  "registered (ml_delivered_update u l) = registered l"
  "ingress_of p (ml_slots_update f l) = ingress_of p l" "ingress_of p (ml_writer_update g l) = ingress_of p l"
  "ingress_of p (ml_notified_update h l) = ingress_of p l" "ingress_of p (ml_wire_update w l) = ingress_of p l"
  "ingress_of p (ml_reader_update r l) = ingress_of p l" "ingress_of p (ml_sent_update t l) = ingress_of p l"
  "ingress_of p (ml_delivered_update u l) = ingress_of p l"
  by (simp_all add: registered_def ingress_of_def)

lemma find_slot_Some: "find_slot p slots = Some s \<Longrightarrow> s \<in> set slots \<and> es_protocol_num s = p"
  by (auto simp: find_slot_def find_Some_iff)

lemma find_slot_list_update:
  assumes "distinct (map es_protocol_num slots)" "i < length slots" "es_protocol_num s = es_protocol_num (slots ! i)"
  shows "find_slot p (slots[i := s]) = (if p = es_protocol_num s then Some s else find_slot p slots)"
  using assms
proof (induction slots arbitrary: i)
  case (Cons a slots)
  show ?case
  proof (cases i)
    case 0
    then show ?thesis using Cons by (auto simp: find_slot_def)
  next
    case (Suc j)
    then have "es_protocol_num (slots ! j) \<in> es_protocol_num ` set slots" using Cons.prems(2) by simp
    then show ?thesis using Cons Suc by (auto simp: find_slot_def)
  qed
qed simp

lemma find_slot_nth:
  assumes "distinct (map es_protocol_num slots)" "i < length slots"
  shows "find_slot (es_protocol_num (slots ! i)) slots = Some (slots ! i)"
  using find_slot_list_update [OF assms refl, of "es_protocol_num (slots ! i)"] by simp

lemma egress_of_list_update:
  assumes "distinct (map es_protocol_num slots)" "i < length slots" "es_protocol_num s = es_protocol_num (slots ! i)"
  shows "egress_of p (slots[i := s]) = (if p = es_protocol_num s then es_queue s else egress_of p slots)"
  by (simp add: egress_of_def find_slot_list_update [OF assms])

lemma egress_of_update_slot:
  assumes "\<And>s. es_protocol_num (f s) = es_protocol_num s"
  shows "find_slot p (update_slot q f slots) = (if p = q then map_option f (find_slot p slots) else find_slot p slots)"
  using assms by (induction slots) (auto simp: find_slot_def update_slot_def)

lemma egress_of_filter:
  assumes "\<forall>s\<in>set slots. \<not> P s \<longrightarrow> es_queue s = []" "distinct (map es_protocol_num slots)"
  shows "egress_of p (filter P slots) = egress_of p slots"
proof (cases "find_slot p slots")
  case None
  then have "find_slot p (filter P slots) = None" by (auto simp: find_slot_def find_None_iff)
  with None show ?thesis by (simp add: egress_of_def)
next
  case (Some s)
  then have s: "s \<in> set slots" "es_protocol_num s = p" using find_slot_Some by blast+
  have only: "t = s" if "t \<in> set slots" "es_protocol_num t = p" for t
    using that s assms(2) by (auto simp: distinct_map inj_on_def)
  show ?thesis
  proof (cases "find_slot p (filter P slots)")
    case None
    then have "\<not> P s" using s by (auto simp: find_slot_def find_None_iff)
    then show ?thesis using None Some assms(1) s by (simp add: egress_of_def)
  next
    case (Some t)
    then have "t = s" using only find_slot_Some [OF Some] by auto
    with Some \<open>find_slot p slots = Some s\<close> show ?thesis by (simp add: egress_of_def)
  qed
qed

lemma slots_update_slot:
  assumes "\<And>s. es_protocol_num (f s) = es_protocol_num s"
  shows "map es_protocol_num (update_slot q f slots) = map es_protocol_num slots"
    "es_protocol_num ` set (update_slot q f slots) = es_protocol_num ` set slots"
proof -
  show "map es_protocol_num (update_slot q f slots) = map es_protocol_num slots"
    using assms by (simp add: update_slot_def)
  then show "es_protocol_num ` set (update_slot q f slots) = es_protocol_num ` set slots"
    by (metis list.set_map)
qed

lemma slot_ok_update_slot:
  assumes "list_all slot_ok slots" "\<And>s. s \<in> set slots \<Longrightarrow> es_protocol_num s = q \<Longrightarrow> slot_ok s \<Longrightarrow> slot_ok (f s)"
  shows "list_all slot_ok (update_slot q f slots)"
  using assms by (auto simp: list_all_iff update_slot_def)

subsection \<open>Every event keeps it\<close>

lemma carries_cong:
  "ml_reader l' = ml_reader l \<Longrightarrow> ml_wire l' = ml_wire l \<Longrightarrow> ml_role l' = ml_role l \<Longrightarrow> carries l' fs = carries l fs"
  unfolding carries_def by (simp split: reader.splits)

lemma carries_sel [simp]:
  "carries (ml_slots_update f l) fs = carries l fs" "carries (ml_sent_update t l) fs = carries l fs"
  "carries (ml_writer_update g l) fs = carries l fs" "carries (ml_delivered_update u l) fs = carries l fs"
  "carries (update_ingress p h l) fs = carries l fs"
  by (rule carries_cong; simp)+

lemma flow_okI:
  assumes "carries l fs" "list_all segment_ok fs" "\<And>f. f \<in> set fs \<Longrightarrow> fst (snd f) \<in> registered l"
    "\<And>p c. ingress_of p l = Some c \<Longrightarrow> stream fs l p c" "\<And>p c. ingress_of p l = Some c \<Longrightarrow> counted l p c"
  shows "flow_ok l fs"
  using assms by (auto simp: flow_ok_def)

lemma flow_okD:
  assumes "flow_ok l fs"
  shows "carries l fs" "list_all segment_ok fs" "f \<in> set fs \<Longrightarrow> fst (snd f) \<in> registered l"
    "ingress_of p l = Some c \<Longrightarrow> stream fs l p c" "ingress_of p l = Some c \<Longrightarrow> counted l p c"
  using assms by (auto simp: flow_ok_def)

lemma link_inv_slots:
  assumes "link_inv l" "distinct (map es_protocol_num (ml_slots l'))" "list_all slot_ok (ml_slots l')"
    "es_protocol_num ` set (ml_slots l') \<subseteq> registered l" "\<And>p. egress_of p (ml_slots l') = egress_of p (ml_slots l)"
    and same: "ml_role l' = ml_role l" "ml_wire l' = ml_wire l" "ml_reader l' = ml_reader l"
      "ml_ingress l' = ml_ingress l" "ml_sent l' = ml_sent l" "ml_delivered l' = ml_delivered l"
  shows "link_inv l'"
proof -
  have eq: "registered l' = registered l" "\<And>p. ingress_of p l' = ingress_of p l"
    by (simp_all add: registered_def ingress_of_def same)
  have "flow_ok l' fs = flow_ok l fs" for fs
    by (simp add: flow_ok_def carries_cong [OF same(3,2,1)] stream_def counted_def eq same assms(5))
  then show ?thesis using assms(1-4) by (simp add: link_inv_def static_ok_def eq same)
qed

lemma link_inv_exit:
  assumes inv: "link_inv l" and same: "ml_slots l' = ml_slots l" "ml_ingress l' = ml_ingress l" "ml_sent l' = ml_sent l"
      "ml_delivered l' = ml_delivered l" and exit: "ml_reader l' = ReaderExited r" "\<And>p. r \<noteq> Err (UnknownProtocol p)"
  shows "link_inv l'"
proof -
  have eq: "registered l' = registered l" "\<And>p. ingress_of p l' = ingress_of p l"
    by (simp_all add: registered_def ingress_of_def same)
  have "flow_ok l' []" if flow: "flow_ok l fs" for fs
  proof (rule flow_okI)
    fix p c assume "ingress_of p l' = Some c"
    then have "stream fs l p c" using flow_okD(4) [OF flow] eq by simp
    then show "stream [] l' p c" by (auto simp: stream_def same exit)
  qed (simp_all add: carries_def counted_def exit)
  then show ?thesis using inv exit(2) by (auto simp: link_inv_def static_ok_def eq same exit(1))
qed

lemma inv_send_begin:
  assumes inv: "link_inv l" and send: "send_begin p payload l = Some (l', r)" and m: "is_message payload"
  shows "link_inv l'"
proof -
  consider "l' = l" | s where "find_slot p (ml_slots l) = Some s" "es_in_send s = None" "es_sender_alive s"
      "l' = l\<lparr>ml_slots := update_slot p (\<lambda>s. s\<lparr>es_queue := es_queue s @ [payload],
          es_in_send := Some (length payload)\<rparr>) (ml_slots l), ml_sent := ml_sent l @ [(p, payload)]\<rparr>"
    using send by (auto simp: send_begin_def split: option.splits if_splits)
  then show ?thesis
  proof cases
    case 2
    let ?f = "\<lambda>s. s\<lparr>es_queue := es_queue s @ [payload], es_in_send := Some (length payload)\<rparr>"
    have ne: "payload \<noteq> []" using m plain_item_item cbor_item_first by (auto simp: is_message_def)
    have slots: "list_all slot_ok (update_slot p ?f (ml_slots l))"
    proof (rule slot_ok_update_slot)
      fix t assume "t \<in> set (ml_slots l)" "es_protocol_num t = p" "slot_ok t"
      moreover have "t = s" using find_slot_Some [OF 2(1)] calculation inv
        by (auto simp: link_inv_def static_ok_def distinct_map inj_on_def)
      ultimately show "slot_ok (?f t)" using 2(2,3) ne by (auto simp: slot_ok_def)
    qed (use inv in \<open>simp add: link_inv_def static_ok_def\<close>)
    have eg: "concat (egress_of q (update_slot p ?f (ml_slots l)))
        = concat (egress_of q (ml_slots l)) @ (if q = p then payload else [])" for q
      using 2(1) by (simp add: egress_of_def egress_of_update_slot)
    have tr: "tracks (messages q (ml_sent l')) (messages q (ml_delivered l')) c (rest @ (if q = p then payload else []))"
      if "tracks (messages q (ml_sent l)) (messages q (ml_delivered l)) c rest" for q c rest
      using that unfolding tracks_def 2(4) by auto
    have str: "stream fs l' q c" if st: "stream fs l q c" for fs q c
    proof -
      from st obtain rest where "tracks (messages q (ml_sent l)) (messages q (ml_delivered l)) c rest"
        "ic_receiver_alive c \<longrightarrow> \<not> reader_exited (ml_reader l) \<longrightarrow> rest = segs q fs @ concat (egress_of q (ml_slots l))"
        by (auto simp: stream_def)
      with tr [OF this(1)] show ?thesis unfolding stream_def 2(4)
        by (intro exI [of _ "rest @ (if q = p then payload else [])"]) (simp add: eg)
    qed
    have "flow_ok l' fs" if "flow_ok l fs" for fs
      using flow_okD [OF that] str
      by (intro flow_okI) (auto simp: counted_def 2(4))
    moreover have "static_ok l'" using inv slots m by (auto simp: link_inv_def static_ok_def slots_update_slot 2(4))
    ultimately show ?thesis using inv by (auto simp: link_inv_def)
  qed (simp add: inv)
qed

lemma inv_update_slot:
  assumes inv: "link_inv l" and f: "\<And>s. es_protocol_num (f s) = es_protocol_num s \<and> es_queue (f s) = es_queue s"
    and ok: "\<And>s. find_slot p (ml_slots l) = Some s \<Longrightarrow> slot_ok s \<Longrightarrow> slot_ok (f s)"
    and same: "ml_slots l' = update_slot p f (ml_slots l)" "ml_role l' = ml_role l" "ml_wire l' = ml_wire l"
      "ml_reader l' = ml_reader l" "ml_ingress l' = ml_ingress l" "ml_sent l' = ml_sent l" "ml_delivered l' = ml_delivered l"
  shows "link_inv l'"
proof (rule link_inv_slots [OF inv])
  have static: "distinct (map es_protocol_num (ml_slots l))" "list_all slot_ok (ml_slots l)"
    "es_protocol_num ` set (ml_slots l) \<subseteq> registered l" using inv by (simp_all add: link_inv_def static_ok_def)
  show "distinct (map es_protocol_num (ml_slots l'))" "es_protocol_num ` set (ml_slots l') \<subseteq> registered l"
    using static f by (simp_all add: same slots_update_slot)
  show "list_all slot_ok (ml_slots l')" unfolding same
  proof (rule slot_ok_update_slot [OF static(2)])
    fix s assume s: "s \<in> set (ml_slots l)" "es_protocol_num s = p" "slot_ok s"
    then obtain i where "i < length (ml_slots l)" "ml_slots l ! i = s" by (auto simp: in_set_conv_nth)
    with find_slot_nth [OF static(1), of i] s(2) have "find_slot p (ml_slots l) = Some s" by simp
    from ok [OF this s(3)] show "slot_ok (f s)" .
  qed
  show "egress_of q (ml_slots l') = egress_of q (ml_slots l)" for q
    using f by (simp add: egress_of_def same egress_of_update_slot split: option.splits)
qed (simp_all add: same)

lemma inv_send_end:
  assumes inv: "link_inv l" and send: "send_end p l = Some l'"
  shows "link_inv l'"
proof -
  from send obtain s len where s: "find_slot p (ml_slots l) = Some s" "es_in_send s = Some len"
    "l' = l\<lparr>ml_slots := update_slot p (\<lambda>s. s\<lparr>es_pending_bytes := es_pending_bytes s + of_nat len,
        es_in_send := None\<rparr>) (ml_slots l), ml_notified := True\<rparr>"
    by (auto simp: send_end_def bind_eq_Some_conv)
  show ?thesis
    by (rule inv_update_slot [OF inv, where p = p and f = "\<lambda>s. s\<lparr>es_pending_bytes := es_pending_bytes s + of_nat len,
        es_in_send := None\<rparr>"]) (use s in \<open>auto simp: slot_ok_def\<close>)
qed

lemma inv_drop_handle: "link_inv l \<Longrightarrow> drop_handle p l = Some l' \<Longrightarrow> link_inv l'"
  by (erule inv_update_slot [where p = p and f = "\<lambda>s. s\<lparr>es_sender_alive := False\<rparr>"])
    (auto simp: drop_handle_def bind_eq_Some_conv slot_ok_def split: if_splits option.splits)

lemma inv_set_weight: "link_inv l \<Longrightarrow> link_inv (set_weight p w l)"
  by (erule inv_update_slot [where p = p and f = "\<lambda>s. s\<lparr>es_weight := max w 1\<rparr>"])
    (auto simp: set_weight_def slot_ok_def)

lemma slots_list_update:
  assumes "i < length slots" "es_protocol_num t = es_protocol_num (slots ! i)"
  shows "map es_protocol_num (slots[i := t]) = map es_protocol_num slots"
    "es_protocol_num ` set (slots[i := t]) = es_protocol_num ` set slots"
proof -
  show "map es_protocol_num (slots[i := t]) = map es_protocol_num slots"
    using assms by (simp add: map_update list_update_same_conv)
  then show "es_protocol_num ` set (slots[i := t]) = es_protocol_num ` set slots"
    by (metis list.set_map)
qed

lemma slot_ok_list_update: "list_all slot_ok slots \<Longrightarrow> slot_ok t \<Longrightarrow> list_all slot_ok (slots[i := t])"
  by (auto simp: list_all_iff dest: set_update_subset_insert [THEN subsetD])

lemma inv_write:
  assumes inv: "link_inv l" and i: "i < length (ml_slots l)" and s: "ml_slots l ! i = s" "es_queue s = payload # q"
    and slots: "ml_slots l' = (ml_slots l)[i := s\<lparr>es_queue := q, es_pending_bytes := es_pending_bytes s - of_nat (length payload)\<rparr>]"
    and wire: "ml_wire l' = ml_wire l @ write_sdu clock (es_protocol_num s) (ml_role l) payload"
    and same: "ml_role l' = ml_role l" "ml_reader l' = ml_reader l" "ml_ingress l' = ml_ingress l"
      "ml_sent l' = ml_sent l" "ml_delivered l' = ml_delivered l"
  shows "link_inv l'"
proof -
  let ?s = "s\<lparr>es_queue := q, es_pending_bytes := es_pending_bytes s - of_nat (length payload)\<rparr>"
  have eq: "registered l' = registered l" "\<And>p. ingress_of p l' = ingress_of p l"
    by (simp_all add: registered_def ingress_of_def same)
  have static: "distinct (map es_protocol_num (ml_slots l))" "list_all slot_ok (ml_slots l)"
    "es_protocol_num ` set (ml_slots l) \<subseteq> registered l" using inv by (simp_all add: link_inv_def static_ok_def)
  have ok: "slot_ok s" and num: "es_protocol_num s \<in> registered l"
    using static(2,3) i s(1) nth_mem [OF i] by (auto simp: list_all_iff)
  then have "slot_ok ?s" using s(2) by (auto simp: slot_ok_def algebra_simps split: option.splits)
  then have st: "static_ok l'" using inv static s(1) slots_list_update [OF i, of ?s] slot_ok_list_update
    by (simp add: link_inv_def static_ok_def eq same slots)
  have eg: "egress_of p (ml_slots l) = (if p = es_protocol_num s then [payload] else []) @ egress_of p (ml_slots l')" for p
    using egress_of_list_update [OF static(1) i, of ?s p] find_slot_nth [OF static(1) i] s
    by (auto simp: slots egress_of_def)
  have "payload \<noteq> []" "num_ok (es_protocol_num s)" using ok s(2) by (auto simp: slot_ok_def)
  then obtain gs where gs: "write_sdu clock (es_protocol_num s) (ml_role l) payload = frames (ml_role l) gs"
    "list_all segment_ok gs" "segs (es_protocol_num s) gs = payload" "\<forall>f\<in>set gs. fst (snd f) = es_protocol_num s"
    by (rule write_sdu_frames)
  have other: "segs p gs = []" if "p \<noteq> es_protocol_num s" for p
    using gs(4) that by (induction gs) auto
  have "flow_ok l' (fs @ gs)" if flow: "flow_ok l fs" for fs
  proof (rule flow_okI)
    show "carries l' (fs @ gs)" using flow_okD(1) [OF flow]
      by (auto simp: carries_def same wire gs(1) split: reader.splits)
    show "list_all segment_ok (fs @ gs)" using flow_okD(2) [OF flow] gs(2) by simp
    show "fst (snd f) \<in> registered l'" if "f \<in> set (fs @ gs)" for f
      using that flow_okD(3) [OF flow, of f] gs(4) num by (auto simp: eq)
    fix p c assume c: "ingress_of p l' = Some c"
    then show "counted l' p c" using flow_okD(5) [OF flow, of p c] by (simp add: counted_def eq same)
    from c flow_okD(4) [OF flow, of p c] show "stream (fs @ gs) l' p c"
      using eg [of p] gs(3) other [of p] by (auto simp: stream_def eq same)
  qed
  then show ?thesis using st inv by (auto simp: link_inv_def)
qed

lemma inv_writer_step:
  assumes inv: "link_inv l" and step: "writer_step clock l = Some l'"
  shows "link_inv l'"
proof -
  have static: "distinct (map es_protocol_num (ml_slots l))" "list_all slot_ok (ml_slots l)"
    "es_protocol_num ` set (ml_slots l) \<subseteq> registered l" using inv by (simp_all add: link_inv_def static_ok_def)
  have closed: "\<forall>s\<in>set (ml_slots l). es_closed s \<longrightarrow> es_queue s = []"
    using static(2) by (auto simp: list_all_iff slot_ok_def)
  have removed: "link_inv l'" if "ml_slots l' = filter P (ml_slots l)" "\<And>s. \<not> P s \<Longrightarrow> es_closed s"
    "ml_role l' = ml_role l" "ml_wire l' = ml_wire l" "ml_reader l' = ml_reader l" "ml_ingress l' = ml_ingress l"
    "ml_sent l' = ml_sent l" "ml_delivered l' = ml_delivered l" for P
  proof (rule link_inv_slots [OF inv])
    show "distinct (map es_protocol_num (ml_slots l'))" using static(1) by (simp add: that(1) distinct_map_filter)
    show "egress_of p (ml_slots l') = egress_of p (ml_slots l)" for p
      unfolding that(1) using closed that(2) static(1) by (intro egress_of_filter) auto
  qed (use static that in \<open>auto simp: list_all_iff\<close>)
  show ?thesis
  proof (cases "ml_writer l")
    case RoundStart
    then show ?thesis using step by (intro removed [of "\<lambda>s. \<not> es_closed s"]) (auto simp: Let_def)
  next
    case (AtSlot i written any)
    show ?thesis
    proof (cases "i < length (ml_slots l)")
      case True
      define s where "s = ml_slots l ! i"
      have l': "l' = visit_slot clock i written any l" using step AtSlot True by simp
      show ?thesis
      proof (cases "written < es_weight s")
        case w: True
        show ?thesis
        proof (cases "es_queue s")
          case Nil
          have ok: "slot_ok s" using static(2) nth_mem [OF True] by (simp add: s_def list_all_iff)
          show ?thesis
          proof (rule link_inv_slots [OF inv])
            let ?s = "s\<lparr>es_closed := es_closed s \<or> \<not> es_sender_alive s\<rparr>"
            have slots: "ml_slots l' = (ml_slots l)[i := ?s]"
              using l' w Nil by (simp add: visit_slot_def s_def Let_def)
            have "slot_ok ?s" using ok Nil by (auto simp: slot_ok_def)
            then show "list_all slot_ok (ml_slots l')" "distinct (map es_protocol_num (ml_slots l'))"
              "es_protocol_num ` set (ml_slots l') \<subseteq> registered l"
              using static slots_list_update [OF True, of ?s] slot_ok_list_update by (simp_all add: slots s_def)
            show "egress_of p (ml_slots l') = egress_of p (ml_slots l)" for p
              using egress_of_list_update [OF static(1) True, of ?s p] find_slot_nth [OF static(1) True] Nil
              by (auto simp: slots s_def egress_of_def)
          qed (use l' w Nil in \<open>simp_all add: visit_slot_def s_def Let_def\<close>)
        next
          case (Cons payload q)
          show ?thesis
            by (rule inv_write [OF inv True s_def [symmetric] Cons, where clock = clock])
               (use l' w Cons in \<open>simp_all add: visit_slot_def s_def Let_def\<close>)
        qed
      next
        case False
        then show ?thesis using l' static
          by (intro link_inv_slots [OF inv]) (simp_all add: visit_slot_def s_def Let_def)
      qed
    next
      case False
      consider "ml_slots l' = ml_slots l" | "list_all es_closed (ml_slots l)" "ml_slots l' = []"
        using step AtSlot False by (auto split: if_splits)
      then show ?thesis
      proof cases
        case 1
        then show ?thesis using step AtSlot False by (intro removed [of "\<lambda>_. True"]) (auto split: if_splits)
      next
        case 2
        then have "ml_slots l' = filter (\<lambda>s. \<not> es_closed s) (ml_slots l)" by (auto simp: list_all_iff)
        then show ?thesis using step AtSlot False
          by (intro removed [of "\<lambda>s. \<not> es_closed s"]) (auto split: if_splits)
      qed
    qed
  next
    case WriterWaiting
    then show ?thesis using step by (intro removed [of "\<lambda>s. True"]) (auto split: if_splits)
  next
    case (WriterExited r)
    then show ?thesis using step by simp
  qed
qed

lemma inv_read_header:
  assumes inv: "link_inv l" and reader: "ml_reader l = ReadHeader" and step: "read_header l = Some l'"
  shows "link_inv l'"
proof -
  from inv obtain fs where st: "static_ok l" and flow: "flow_ok l fs" by (auto simp: link_inv_def)
  have wire: "ml_wire l = frames (ml_role l) fs" using flow_okD(1) [OF flow] reader by (simp add: carries_def)
  have long: "\<not> length (ml_wire l) < 8" using step by (auto simp: read_header_def SDU_HEADER_SIZE_def)
  then obtain t p b gs where fs: "fs = (t, p, b) # gs" using wire by (cases fs) auto
  have seg: "segment_ok (t, p, b)" and reg: "p \<in> registered l"
    using flow_okD(2) [OF flow] flow_okD(3) [OF flow, of "(t, p, b)"] by (simp_all add: fs)
  let ?h = "header_of (ml_role l) (t, p, b)"
  note fh = frame_header [OF seg, of "ml_role l"]
  obtain c where c: "ingress_of p l = Some c" using reg by (auto simp: registered_iff)
  have hp: "sh_protocol_num ?h = p" by (simp add: header_of_def)
  have dec: "sdu_decode (take SDU_HEADER_SIZE (ml_wire l)) = Ok ?h" "drop SDU_HEADER_SIZE (ml_wire l) = b @ frames (ml_role l) gs"
    using fh(1,2) [of "frames (ml_role l) gs"] fh(3) by (simp_all add: wire fs SDU_HEADER_SIZE_def)
  let ?len = "ucast (sh_payload_length ?h) :: u64"
  consider x y where "l' = l\<lparr>ml_wire := drop SDU_HEADER_SIZE (ml_wire l),
          ml_reader := ReaderExited (Err (IngressQueueOverRun p x y))\<rparr>"
    | "l' = (update_ingress p (\<lambda>c. c\<lparr>ic_bytes := ic_bytes c + ?len\<rparr>)
          (l\<lparr>ml_wire := b @ frames (ml_role l) gs\<rparr>))\<lparr>ml_reader := ReadPayload ?h\<rparr>"
    using step long dec c by (auto simp: read_header_def SDU_HEADER_SIZE_def Let_def hp split: if_splits)
  then show ?thesis
  proof cases
    case 1
    then show ?thesis by (intro link_inv_exit [OF inv, of _ "Err (IngressQueueOverRun p x y)"]) auto
  next
    case 2
    have "?len = of_nat (unat (sh_payload_length ?h))" by simp
    then have len: "?len = of_nat (length b)" by (simp only: fh(4))
    have "flow_ok l' fs"
    proof (rule flow_okI)
      show "carries l' fs" by (simp add: carries_def 2 fs)
      show "list_all segment_ok fs" using flow_okD(2) [OF flow] .
      show "fst (snd f) \<in> registered l'" if "f \<in> set fs" for f using flow_okD(3) [OF flow that] by (simp add: 2)
      fix q d assume d: "ingress_of q l' = Some d"
      then obtain d0 where d0: "ingress_of q l = Some d0" "d = (if q = p then d0\<lparr>ic_bytes := ic_bytes d0 + ?len\<rparr> else d0)"
        by (auto simp: 2 split: if_splits)
      from flow_okD(4) [OF flow d0(1)] show "stream fs l' q d"
        by (auto simp: stream_def tracks_def 2 d0(2) reader)
      from flow_okD(5) [OF flow d0(1)] show "counted l' q d"
        using fh(4) by (auto simp: counted_def 2 d0(2) reader in_hand_def hp len)
    qed
    moreover have "static_ok l'" using st by (simp add: static_ok_def 2)
    ultimately show ?thesis by (auto simp: link_inv_def)
  qed
qed

lemma inv_read_payload:
  assumes inv: "link_inv l" and reader: "ml_reader l = ReadPayload h" and step: "read_payload h l = Some l'"
  shows "link_inv l'"
proof -
  from inv obtain fs where st: "static_ok l" and flow: "flow_ok l fs" by (auto simp: link_inv_def)
  from flow_okD(1) [OF flow] obtain t p b gs where fs: "fs = (t, p, b) # gs" and h: "h = header_of (ml_role l) (t, p, b)"
    and wire: "ml_wire l = b @ frames (ml_role l) gs"
    using reader by (auto simp: carries_def)
  have seg: "segment_ok (t, p, b)" and reg: "p \<in> registered l"
    using flow_okD(2) [OF flow] flow_okD(3) [OF flow, of "(t, p, b)"] by (simp_all add: fs)
  have hp: "sh_protocol_num h = p" and len: "unat (sh_payload_length h) = length b"
    using frame_header(4) [OF seg, of "ml_role l"] by (simp_all add: h, simp add: header_of_def)
  obtain c where c: "ingress_of p l = Some c" using reg by (auto simp: registered_iff)
  let ?f = "\<lambda>c. if ic_receiver_alive c then c\<lparr>ic_queue := ic_queue c @ [b]\<rparr> else c\<lparr>ic_bytes := ic_bytes c - of_nat (length b)\<rparr>"
  have same: "ml_wire l' = frames (ml_role l) gs" "ml_reader l' = ReadHeader" "ml_role l' = ml_role l"
    "ml_slots l' = ml_slots l" "ml_sent l' = ml_sent l" "ml_delivered l' = ml_delivered l" "registered l' = registered l"
    using step c by (auto simp: read_payload_def Let_def hp len wire split: if_splits)
  have ing: "ingress_of q l' = (if q = p then map_option ?f (ingress_of q l) else ingress_of q l)" for q
    using step c by (auto simp: read_payload_def Let_def hp len wire split: if_splits)
  have "flow_ok l' gs"
  proof (rule flow_okI)
    show "carries l' gs" by (simp add: carries_def same)
    show "list_all segment_ok gs" using flow_okD(2) [OF flow] by (simp add: fs)
    show "fst (snd f) \<in> registered l'" if "f \<in> set gs" for f
      using flow_okD(3) [OF flow, of f] that by (simp add: same fs)
    fix q d assume d: "ingress_of q l' = Some d"
    then obtain d0 where d0: "ingress_of q l = Some d0" "d = (if q = p then ?f d0 else d0)"
      by (auto simp: ing split: if_splits)
    have "b \<noteq> []" using seg by (simp add: segment_ok_def)
    with flow_okD(4) [OF flow d0(1)] show "stream gs l' q d"
      by (auto simp: stream_def tracks_def same d0(2) reader fs)
    from flow_okD(5) [OF flow d0(1)] show "counted l' q d"
      by (auto simp: counted_def same d0(2) reader in_hand_def hp len)
  qed
  moreover have "static_ok l'" using st by (simp add: static_ok_def same)
  ultimately show ?thesis by (auto simp: link_inv_def)
qed

text \<open>The message at the front of a buffer is the next one that was sent.\<close>

lemma next_message:
  assumes "concat pend = buf @ rest" "\<forall>m\<in>set pend. is_message m" "cbor_item_length buf = Some n"
  obtains m pend' r where "pend = m # pend'" "buf = m @ r" "n = length m" "concat pend' = r @ rest"
proof (cases pend)
  case Nil
  then show thesis using assms(1,3) by (simp add: cbor_item_length_def)
next
  case (Cons m pend')
  then obtain k where k: "plain_item k m" using assms(2) by (auto simp: is_message_def)
  from split_head [of m "concat pend'" buf rest] Cons assms(1)
  consider u where "buf = m @ u" "concat pend' = u @ rest" | w where "m = buf @ w" "w \<noteq> []" by auto
  then show thesis
  proof cases
    case 1
    with that [OF Cons 1(1) _ 1(2)] item_length_complete [OF k, of u] assms(3) show thesis by simp
  next
    case 2
    with item_length_incomplete [OF k 2] assms(3) show thesis by simp
  qed
qed

lemma sent_messages: "static_ok l \<Longrightarrow> m \<in> set (messages p (ml_sent l)) \<Longrightarrow> is_message m"
  by (auto simp: static_ok_def messages_def)

lemma inv_poll:
  assumes inv: "link_inv l" and step: "channel_poll p l = Some l'"
  shows "link_inv l'"
proof -
  from inv obtain fs where st: "static_ok l" and flow: "flow_ok l fs" by (auto simp: link_inv_def)
  from step obtain c where c: "ingress_of p l = Some c" "ic_receiver_alive c"
    by (auto simp: channel_poll_def bind_eq_Some_conv split: if_splits)
  from flow_okD(4) [OF flow c(1)] obtain rest pend where
    p: "messages p (ml_sent l) = messages p (ml_delivered l) @ pend" "[] \<notin> set (ic_queue c)"
      "concat pend = ic_read_buf c @ concat (ic_queue c) @ rest"
      "\<not> reader_exited (ml_reader l) \<longrightarrow> rest = segs p fs @ concat (egress_of p (ml_slots l))"
    using c(2) by (auto simp: stream_def tracks_def)
  have msgs: "\<forall>m\<in>set pend. is_message m"
  proof
    fix m assume "m \<in> set pend"
    then have "m \<in> set (messages p (ml_sent l))" by (simp add: p(1))
    from sent_messages [OF st this] show "is_message m" .
  qed
  have keep: "link_inv l'"
    if ing: "\<And>q. ingress_of q l' = (if q = p then Some d else ingress_of q l)" and d: "stream fs l' p d" "counted l' p d"
      and del: "\<And>q. q \<noteq> p \<Longrightarrow> messages q (ml_delivered l') = messages q (ml_delivered l)"
      and same: "ml_role l' = ml_role l" "ml_slots l' = ml_slots l" "ml_wire l' = ml_wire l" "ml_reader l' = ml_reader l"
        "ml_sent l' = ml_sent l" "registered l' = registered l" for d
  proof -
    have "flow_ok l' fs"
    proof (rule flow_okI)
      show "carries l' fs" using flow_okD(1) [OF flow] carries_cong [OF same(4,3,1)] by simp
      fix q e assume e: "ingress_of q l' = Some e"
      then show "stream fs l' q e" "counted l' q e"
        using ing [of q] d flow_okD(4,5) [OF flow, of q e] del [of q] same
        by (auto simp: stream_def counted_def split: if_splits)
    qed (use flow_okD(2,3) [OF flow] same in auto)
    then show ?thesis using st same by (auto simp: link_inv_def static_ok_def)
  qed
  show ?thesis
  proof (cases "cbor_item_length (ic_read_buf c)")
    case (Some n)
    from next_message [OF p(3) msgs Some] obtain m pend' r where
      m: "pend = m # pend'" "ic_read_buf c = m @ r" "n = length m" "concat pend' = r @ concat (ic_queue c) @ rest" by metis
    have l': "l' = deliver p m (update_ingress p (\<lambda>c. c\<lparr>ic_read_buf := drop n (ic_read_buf c)\<rparr>) l)"
      using step c Some m by (auto simp: channel_poll_def bind_eq_Some_conv)
    show ?thesis
    proof (rule keep [of "c\<lparr>ic_read_buf := r\<rparr>"])
      show "stream fs l' p (c\<lparr>ic_read_buf := r\<rparr>)" unfolding stream_def tracks_def l'
        using p m by (intro exI [of _ rest]) (auto simp: deliver_def)
      show "counted l' p (c\<lparr>ic_read_buf := r\<rparr>)" using flow_okD(5) [OF flow c(1)]
        by (simp add: counted_def l' deliver_def)
    qed (use c m in \<open>auto simp: l' deliver_def\<close>)
  next
    case None
    then obtain chunk q where q: "ic_queue c = chunk # q" "chunk \<noteq> []"
      using step c p(2) by (cases "ic_queue c") (auto simp: channel_poll_def)
    let ?d = "c\<lparr>ic_queue := q, ic_bytes := ic_bytes c - of_nat (length chunk), ic_read_buf := ic_read_buf c @ chunk\<rparr>"
    have l': "l' = update_ingress p (\<lambda>c. c\<lparr>ic_read_buf := ic_read_buf c @ chunk\<rparr>)
        (update_ingress p (\<lambda>c. c\<lparr>ic_queue := q, ic_bytes := ic_bytes c - of_nat (length chunk)\<rparr>) l)"
      using step c None q by (auto simp: channel_poll_def Let_def)
    show ?thesis
    proof (rule keep [of ?d])
      show "stream fs l' p ?d" unfolding stream_def tracks_def l'
        using p q by (intro exI [of _ rest]) auto
      show "counted l' p ?d" using flow_okD(5) [OF flow c(1)] q by (simp add: counted_def l')
    qed (use c in \<open>auto simp: l'\<close>)
  qed
qed

lemma inv_drop_receiver:
  assumes inv: "link_inv l"
  shows "link_inv (drop_receiver p l)"
proof -
  from inv obtain fs where st: "static_ok l" and flow: "flow_ok l fs" by (auto simp: link_inv_def)
  have "flow_ok (drop_receiver p l) fs"
  proof (rule flow_okI)
    fix q e assume e: "ingress_of q (drop_receiver p l) = Some e"
    then show "stream fs (drop_receiver p l) q e" "counted (drop_receiver p l) q e"
      using flow_okD(4,5) [OF flow, of q]
      by (auto simp: drop_receiver_def stream_def tracks_def counted_def split: if_splits)
  qed (use flow_okD(1,2,3) [OF flow] in \<open>auto simp: drop_receiver_def\<close>)
  then show ?thesis using st by (auto simp: link_inv_def static_ok_def drop_receiver_def)
qed

lemma inv_step:
  assumes inv: "link_inv l" and step: "link_step e l = Some l'" and msg: "\<And>p m. e = SendBegin p m \<Longrightarrow> is_message m"
  shows "link_inv l'"
proof (cases e)
  case (SendBegin p m)
  then obtain r where "send_begin p m l = Some (l', r)" using step by auto
  from inv_send_begin [OF inv this msg [OF SendBegin]] show ?thesis .
next
  case (SendEnd p)
  then show ?thesis using inv_send_end [OF inv] step by simp
next
  case (DropHandle p)
  then show ?thesis using inv_drop_handle [OF inv] step by simp
next
  case (SetWeight p w)
  then show ?thesis using inv_set_weight [OF inv] step by auto
next
  case (WriterStep clock)
  then show ?thesis using inv_writer_step [OF inv, of clock l'] step by simp
next
  case CancelWriter
  then have l': "l' = l\<lparr>ml_writer := WriterExited (Err MuxConnectionClosed)\<rparr>" using step by (simp split: if_splits)
  show ?thesis
    by (rule link_inv_slots [OF inv]) (use inv in \<open>simp_all add: l' link_inv_def static_ok_def\<close>)
next
  case ReaderStep
  then show ?thesis using step inv_read_header [OF inv] inv_read_payload [OF inv] by (auto split: reader.splits)
next
  case ReaderTimeout
  then show ?thesis using step by (intro link_inv_exit [OF inv, of _ "Err SduTimeout"]) (auto split: if_splits)
next
  case CancelReader
  then show ?thesis using step by (intro link_inv_exit [OF inv, of _ "Err MuxConnectionClosed"]) (auto split: if_splits)
next
  case PeerClosed
  then show ?thesis using step by (intro link_inv_exit [OF inv, of _ "Err MuxConnectionClosed"]) (auto split: if_splits)
next
  case (Poll p)
  then show ?thesis using inv_poll [OF inv] step by simp
next
  case (DropReceiver p)
  then show ?thesis using inv_drop_receiver [OF inv] step by auto
qed

definition sends_messages :: "mux_event list \<Rightarrow> bool" where
  "sends_messages es \<longleftrightarrow> list_all (\<lambda>e. case e of SendBegin p m \<Rightarrow> is_message m | _ \<Rightarrow> True) es"

lemma inv_run: "link_inv l \<Longrightarrow> link_run es l = Some l' \<Longrightarrow> sends_messages es \<Longrightarrow> link_inv l'"
proof (induction es arbitrary: l)
  case (Cons e es)
  then obtain l1 where l1: "link_step e l = Some l1" "link_run es l1 = Some l'" by (auto simp: bind_eq_Some_conv)
  have "\<And>p m. e = SendBegin p m \<Longrightarrow> is_message m" using Cons.prems(3) by (simp add: sends_messages_def)
  from inv_step [OF Cons.prems(1) l1(1) this] have "link_inv l1" .
  with Cons.IH [OF this l1(2)] Cons.prems(3) show ?case by (simp add: sends_messages_def)
qed simp

definition protocols_ok :: "(u16 \<times> u64 \<times> u8) list \<Rightarrow> bool" where
  "protocols_ok protocols \<longleftrightarrow> distinct (map fst protocols) \<and> list_all (\<lambda>(num, _). num < 0x8000) protocols"

lemma num_ok_lt:
  fixes p :: u16
  assumes "p < 0x8000"
  shows "num_ok p"
proof -
  have "take_bit 15 p = p" using assms
    by (simp add: word_unat_eq_iff word_less_nat_alt take_bit_eq_mod unat_mod)
  moreover have "DIRECTION_BIT = 2 ^ 15" by (simp add: DIRECTION_BIT_def)
  moreover have "take_bit 15 p = p AND NOT (2 ^ 15)"
    by (rule bit_word_eqI) (auto simp: bit_simps simp del: power_numeral)
  ultimately show ?thesis unfolding num_ok_def by metis
qed

lemma inv_start:
  assumes "protocols_ok protocols"
  shows "link_inv (start_link role protocols n)"
proof -
  let ?l = "start_link role protocols n"
  have "find_slot p (ml_slots ?l) = Some s \<Longrightarrow> es_queue s = []" for p s
    using find_slot_Some by (fastforce simp: start_link_def)
  then have eg: "egress_of p (ml_slots ?l) = []" for p by (auto simp: egress_of_def split: option.splits)
  have ing: "ingress_of p ?l = Some c \<Longrightarrow> ic_queue c = [] \<and> ic_read_buf c = [] \<and> ic_bytes c = 0" for p c
    by (auto simp: ingress_of_def start_link_def dest!: map_of_SomeD)
  have "flow_ok ?l []"
    by (rule flow_okI) (auto simp: stream_def tracks_def counted_def eg dest!: ing, auto simp: start_link_def carries_def in_hand_def)
  moreover have "registered ?l = fst ` set protocols" "es_protocol_num ` set (ml_slots ?l) = fst ` set protocols"
    by (force simp: registered_def start_link_def)+
  then have "static_ok ?l" using assms num_ok_lt unfolding static_ok_def
    by (auto simp: start_link_def protocols_ok_def slot_ok_def list_all_iff comp_def split_def max_def)
  ultimately show ?thesis by (auto simp: link_inv_def)
qed

section \<open>Nothing is lost\<close>

text \<open>
  The writer does not sleep on a payload: while it waits without a notification, only a payload whose
  send has not ended can be in a queue. The slots it has visited in a round in which it wrote
  nothing are the same.
\<close>

definition asleep_on :: "bool \<Rightarrow> egress_slot list \<Rightarrow> bool" where
  "asleep_on notified slots \<longleftrightarrow> (\<forall>s\<in>set slots. es_queue s \<noteq> [] \<longrightarrow> notified \<or> es_in_send s \<noteq> None)"

definition awake_inv :: "mux_link \<Rightarrow> bool" where
  "awake_inv l \<longleftrightarrow>
     (case ml_writer l of
        WriterWaiting \<Rightarrow> asleep_on (ml_notified l) (ml_slots l)
      | AtSlot i written any_written \<Rightarrow>
          (written > 0 \<longrightarrow> any_written) \<and> (\<not> any_written \<longrightarrow> asleep_on (ml_notified l) (take i (ml_slots l)))
      | WriterExited r \<Rightarrow> r = Ok () \<longrightarrow> ml_slots l = []
      | RoundStart \<Rightarrow> True)"

lemma asleep_on_map:
  assumes "asleep_on n slots"
    "\<And>s. s \<in> set slots \<Longrightarrow> es_queue s \<noteq> [] \<longrightarrow> n \<or> es_in_send s \<noteq> None \<Longrightarrow> es_queue (f s) \<noteq> [] \<longrightarrow> n' \<or> es_in_send (f s) \<noteq> None"
  shows "asleep_on n' (map f slots)"
  using assms by (simp add: asleep_on_def)

lemma awake_slots:
  assumes "awake_inv l" "ml_writer l' = ml_writer l" "ml_slots l' = map f (ml_slots l)"
    and "\<And>s. es_queue s \<noteq> [] \<longrightarrow> ml_notified l \<or> es_in_send s \<noteq> None
        \<Longrightarrow> es_queue (f s) \<noteq> [] \<longrightarrow> ml_notified l' \<or> es_in_send (f s) \<noteq> None"
  shows "awake_inv l'"
proof -
  have "asleep_on (ml_notified l') (map f slots)" if "asleep_on (ml_notified l) slots" for slots
    by (rule asleep_on_map [OF that]) (rule assms(4))
  then show ?thesis using assms(1-3) by (simp add: awake_inv_def take_map split: writer.splits)
qed

lemma awake_writer_step:
  assumes awake: "awake_inv l" and inv: "link_inv l" and step: "writer_step clock l = Some l'"
  shows "awake_inv l'"
proof (cases "ml_writer l")
  case RoundStart
  then show ?thesis using step by (auto simp: awake_inv_def asleep_on_def Let_def)
next
  case (AtSlot i written any)
  note at = awake [unfolded awake_inv_def AtSlot writer.case]
  show ?thesis
  proof (cases "i < length (ml_slots l)")
    case True
    define s where "s = ml_slots l ! i"
    have l': "l' = visit_slot clock i written any l" using step AtSlot True by simp
    have "slot_ok s" using inv True by (simp add: link_inv_def static_ok_def list_all_iff s_def)
    then have w: "\<not> written < es_weight s \<Longrightarrow> written > 0"
      by (auto simp: slot_ok_def word_le_nat_alt word_less_nat_alt)
    show ?thesis
    proof (cases "written < es_weight s \<and> es_queue s = []")
      case emp: True
      let ?s = "s\<lparr>es_closed := es_closed s \<or> \<not> es_sender_alive s\<rparr>"
      have "take (Suc i) ((ml_slots l)[i := ?s]) = take i (ml_slots l) @ [?s]"
        using True by (simp add: take_Suc_conv_app_nth)
      then show ?thesis using l' emp at by (simp add: awake_inv_def visit_slot_def s_def [symmetric] Let_def asleep_on_def)
    next
      case False
      then show ?thesis using l' w at
        by (auto simp: awake_inv_def visit_slot_def s_def [symmetric] Let_def neq_Nil_conv)
    qed
  next
    case False
    then show ?thesis using step AtSlot at by (auto simp: awake_inv_def split: if_splits)
  qed
qed (use awake step in \<open>auto simp: awake_inv_def split: if_splits\<close>)

text \<open>The receiving node does nothing to the sending one.\<close>

lemma reader_keeps:
  assumes "reader_step l = Some l'"
  shows "ml_slots l' = ml_slots l \<and> ml_writer l' = ml_writer l \<and> ml_notified l' = ml_notified l \<and> ml_sent l' = ml_sent l"
proof (cases "ml_reader l")
  case ReadHeader
  then show ?thesis using assms by (auto simp: read_header_def Let_def split: if_splits option.splits result.splits)
next
  case (ReadPayload h)
  then show ?thesis using assms by (auto simp: read_payload_def Let_def split: if_splits option.splits)
qed (use assms in simp)

lemma poll_keeps:
  assumes "channel_poll p l = Some l'"
  shows "ml_slots l' = ml_slots l \<and> ml_writer l' = ml_writer l \<and> ml_notified l' = ml_notified l \<and> ml_sent l' = ml_sent l"
  using assms by (auto simp: channel_poll_def bind_eq_Some_conv deliver_def Let_def split: if_splits option.splits list.splits)

lemma awake_cong:
  "awake_inv l \<Longrightarrow> ml_slots l' = ml_slots l \<and> ml_writer l' = ml_writer l \<and> ml_notified l' = ml_notified l \<and> X \<Longrightarrow> awake_inv l'"
  by (simp add: awake_inv_def split: writer.splits)

lemma awake_step:
  assumes awake: "awake_inv l" and inv: "link_inv l" and step: "link_step e l = Some l'"
  shows "awake_inv l'"
proof (cases e)
  case (SendBegin p m)
  then consider "l' = l" | "l' = l\<lparr>ml_slots := update_slot p (\<lambda>s. s\<lparr>es_queue := es_queue s @ [m],
          es_in_send := Some (length m)\<rparr>) (ml_slots l), ml_sent := ml_sent l @ [(p, m)]\<rparr>"
    using step by (auto simp: send_begin_def split: option.splits if_splits)
  then show ?thesis
  proof cases
    case 2
    show ?thesis by (rule awake_slots [OF awake _ 2 [THEN arg_cong, of ml_slots, unfolded update_slot_def, simplified]])
        (simp_all add: 2)
  qed (simp add: awake)
next
  case (SendEnd p)
  then obtain len where 2: "l' = l\<lparr>ml_slots := update_slot p (\<lambda>s. s\<lparr>es_pending_bytes := es_pending_bytes s + of_nat len,
        es_in_send := None\<rparr>) (ml_slots l), ml_notified := True\<rparr>"
    using step by (auto simp: send_end_def bind_eq_Some_conv)
  show ?thesis by (rule awake_slots [OF awake _ 2 [THEN arg_cong, of ml_slots, unfolded update_slot_def, simplified]])
      (simp_all add: 2)
next
  case (DropHandle p)
  then have 2: "l' = l\<lparr>ml_slots := update_slot p (\<lambda>s. s\<lparr>es_sender_alive := False\<rparr>) (ml_slots l)\<rparr>"
    using step by (auto simp: drop_handle_def bind_eq_Some_conv split: if_splits)
  show ?thesis by (rule awake_slots [OF awake _ 2 [THEN arg_cong, of ml_slots, unfolded update_slot_def, simplified]])
      (simp_all add: 2)
next
  case (SetWeight p w)
  then have 2: "l' = l\<lparr>ml_slots := update_slot p (\<lambda>s. s\<lparr>es_weight := max w 1\<rparr>) (ml_slots l)\<rparr>"
    using step by (auto simp: set_weight_def)
  show ?thesis by (rule awake_slots [OF awake _ 2 [THEN arg_cong, of ml_slots, unfolded update_slot_def, simplified]])
      (simp_all add: 2)
next
  case (WriterStep clock)
  then show ?thesis using awake_writer_step [OF awake inv, of clock l'] step by simp
next
  case ReaderStep
  then show ?thesis using awake_cong [OF awake reader_keeps [of l l']] step by simp
next
  case (Poll p)
  then show ?thesis using awake_cong [OF awake poll_keeps [of p l l']] step by simp
next
  case CancelWriter
  then show ?thesis using step by (auto simp: awake_inv_def split: if_splits)
qed (use step in \<open>auto intro!: awake_cong [OF awake, of _ True] simp: drop_receiver_def split: if_splits\<close>)

subsection \<open>When no task can go on\<close>

fun internal :: "mux_event \<Rightarrow> bool" where
  "internal (WriterStep clock) \<longleftrightarrow> True"
| "internal ReaderStep \<longleftrightarrow> True"
| "internal (Poll p) \<longleftrightarrow> True"
| "internal e \<longleftrightarrow> False"

definition quiet :: "mux_link \<Rightarrow> bool" where
  "quiet l \<longleftrightarrow> (\<forall>e. internal e \<longrightarrow> link_step e l = None)"

text \<open>The connection is up, its receivers are there, and no send is half done.\<close>

definition healthy :: "mux_link \<Rightarrow> bool" where
  "healthy l \<longleftrightarrow> \<not> reader_exited (ml_reader l) \<and> (writer_exited (ml_writer l) \<longrightarrow> ml_writer l = WriterExited (Ok ()))
     \<and> (\<forall>p c. ingress_of p l = Some c \<longrightarrow> ic_receiver_alive c) \<and> (\<forall>s\<in>set (ml_slots l). es_in_send s = None)
     \<and> ml_buffer_size l > 0"

lemma poll_enabled:
  assumes "ingress_of p l = Some c" "ic_receiver_alive c" "ic_queue c \<noteq> [] \<or> cbor_item_length (ic_read_buf c) \<noteq> None"
  shows "channel_poll p l \<noteq> None"
  using assms by (auto simp: channel_poll_def Let_def split: option.splits list.splits)

lemma quiet_delivered:
  assumes inv: "link_inv l" and awake: "awake_inv l" and quiet: "quiet l" and ok: "healthy l" and p: "p \<in> registered l"
  shows "messages p (ml_delivered l) = messages p (ml_sent l)"
proof -
  have polls: "channel_poll q l = None" and reader: "reader_step l = None" and writer: "writer_step (\<lambda>_. 0) l = None" for q
    using quiet by (auto simp: quiet_def dest: spec [of _ "Poll q"] spec [of _ ReaderStep] spec [of _ "WriterStep (\<lambda>_. 0)"]
        simp del: reader_step.simps writer_step.simps)
  have drained: "ic_queue c = []" "cbor_item_length (ic_read_buf c) = None" if c: "ingress_of q l = Some c" for q c
  proof -
    have "ic_receiver_alive c" using ok c by (auto simp: healthy_def)
    from poll_enabled [OF c this] polls [of q] show "ic_queue c = []" "cbor_item_length (ic_read_buf c) = None" by blast+
  qed
  from inv obtain fs where st: "static_ok l" and flow: "flow_ok l fs" by (auto simp: link_inv_def)
  have "fs = [] \<and> ml_reader l = ReadHeader"
  proof (cases "ml_reader l")
    case ReadHeader
    then have "ml_wire l = frames (ml_role l) fs" using flow_okD(1) [OF flow] by (simp add: carries_def)
    moreover have "read_header l \<noteq> None" if "fs = (t, q, b) # gs" for t q b gs
    proof -
      have "segment_ok (t, q, b)" using flow_okD(2) [OF flow] that by simp
      from frame_header(1) [OF this, of "ml_role l" "frames (ml_role l) gs"] frame_header(3) [OF this, of "ml_role l"]
      show ?thesis
        using calculation that by (simp add: read_header_def SDU_HEADER_SIZE_def Let_def sdu_frame_def split: option.splits)
    qed
    ultimately show ?thesis using reader ReadHeader by (cases fs) auto
  next
    case (ReadPayload h)
    then obtain t q b gs where fs: "fs = (t, q, b) # gs" "h = header_of (ml_role l) (t, q, b)" "ml_wire l = b @ frames (ml_role l) gs"
      using flow_okD(1) [OF flow] by (auto simp: carries_def)
    have "segment_ok (t, q, b)" "q \<in> registered l" using flow_okD(2) [OF flow] flow_okD(3) [OF flow, of "(t, q, b)"] fs(1) by simp_all
    moreover from this obtain c where "ingress_of q l = Some c" by (auto simp: registered_iff)
    moreover have "sh_protocol_num h = q" by (simp add: fs(2) header_of_def)
    ultimately have "read_payload h l \<noteq> None" using ok drained [of q c] frame_header(4) [of t q b "ml_role l"] fs(2,3)
      by (auto simp: read_payload_def Let_def healthy_def)
    then show ?thesis using reader ReadPayload by simp
  qed (use ok in \<open>simp add: healthy_def\<close>)
  then have fs: "fs = []" by simp
  have eg: "egress_of p (ml_slots l) = []"
  proof (cases "ml_writer l")
    case WriterWaiting
    then have "asleep_on False (ml_slots l)" using awake writer by (auto simp: awake_inv_def split: if_splits)
    then have "\<forall>s\<in>set (ml_slots l). es_queue s = []" using ok by (auto simp: asleep_on_def healthy_def)
    then show ?thesis using find_slot_Some by (auto simp: egress_of_def split: option.splits)
  next
    case (WriterExited r)
    then have "ml_slots l = []" using awake ok by (auto simp: awake_inv_def healthy_def)
    then show ?thesis by (simp add: egress_of_def find_slot_def)
  qed (use writer in \<open>auto simp: Let_def split: if_splits\<close>)
  from p obtain c where c: "ingress_of p l = Some c" by (auto simp: registered_iff)
  with flow_okD(4) [OF flow c] ok obtain pend where
    pend: "messages p (ml_sent l) = messages p (ml_delivered l) @ pend" "concat pend = ic_read_buf c"
    using drained [OF c] fs eg by (auto simp: stream_def tracks_def healthy_def)
  have "pend = []"
  proof (cases pend)
    case (Cons m ms)
    then have "m \<in> set (messages p (ml_sent l))" using pend(1) by simp
    from sent_messages [OF st this] obtain k where "plain_item k m" by (auto simp: is_message_def)
    from item_length_complete [OF this, of "concat ms"] drained [OF c] pend(2) Cons show ?thesis by simp
  qed simp
  with pend(1) show ?thesis by simp
qed

subsection \<open>The tasks do not go on for ever\<close>

definition queued :: "mux_link \<Rightarrow> nat" where
  "queued l = sum_list (map (\<lambda>s. length (es_queue s)) (ml_slots l))"

fun writer_rank :: "nat \<Rightarrow> writer \<Rightarrow> nat" where
  "writer_rank n (AtSlot i w any_written) = (if any_written then n + 3 + (n - i) else 1 + (n - i))"
| "writer_rank n RoundStart = n + 2"
| "writer_rank n WriterWaiting = 0"
| "writer_rank n (WriterExited r) = 0"

definition wire_left :: "mux_link \<Rightarrow> nat" where
  "wire_left l = 2 * length (ml_wire l) + (case ml_reader l of ReadPayload h \<Rightarrow> 1 | _ \<Rightarrow> 0)"

definition over_channels :: "(ingress_channel \<Rightarrow> nat) \<Rightarrow> mux_link \<Rightarrow> nat" where
  "over_channels f l = (\<Sum>p\<in>registered l. case ingress_of p l of Some c \<Rightarrow> f c | None \<Rightarrow> 0)"

definition work :: "(mux_link \<times> mux_link) set" where
  "work = measures [queued, \<lambda>l. if ml_notified l then 1 else 0,
     \<lambda>l. writer_rank (length (ml_slots l)) (ml_writer l),
     wire_left, over_channels (\<lambda>c. length (ic_queue c)), over_channels (\<lambda>c. length (ic_read_buf c))]"

lemma over_channels_less:
  assumes "ingress_of p l = Some c" "ingress_of p l' = Some c'" "f c' < f c" "registered l' = registered l"
    "\<And>q. q \<noteq> p \<Longrightarrow> ingress_of q l' = ingress_of q l"
  shows "over_channels f l' < over_channels f l"
proof -
  have p: "p \<in> registered l" "finite (registered l)" using assms(1) by (simp add: registered_iff) (simp add: registered_def)
  have "(\<Sum>q\<in>registered l - {p}. case ingress_of q l' of Some c \<Rightarrow> f c | None \<Rightarrow> 0)
      = (\<Sum>q\<in>registered l - {p}. case ingress_of q l of Some c \<Rightarrow> f c | None \<Rightarrow> 0)"
    by (rule sum.cong) (auto simp: assms(5))
  then show ?thesis unfolding over_channels_def assms(4)
    using assms(1-3) by (simp add: sum.remove [OF p(2,1)])
qed

lemma queued_update:
  assumes "i < length (ml_slots l)" "ml_slots l' = (ml_slots l)[i := s]"
  shows "queued l' + length (es_queue (ml_slots l ! i)) = queued l + length (es_queue s)"
proof -
  have "ml_slots l = take i (ml_slots l) @ ml_slots l ! i # drop (Suc i) (ml_slots l)"
    by (rule id_take_nth_drop [OF assms(1)])
  from arg_cong [OF this, of "\<lambda>xs. sum_list (map (\<lambda>s. length (es_queue s)) xs)"]
  have "queued l = sum_list (map (\<lambda>s. length (es_queue s)) (take i (ml_slots l)))
      + length (es_queue (ml_slots l ! i)) + sum_list (map (\<lambda>s. length (es_queue s)) (drop (Suc i) (ml_slots l)))"
    unfolding queued_def by (simp only: map_append list.simps sum_list_append sum_list.Cons add.assoc)
  then show ?thesis using assms by (simp add: queued_def upd_conv_take_nth_drop)
qed

lemma item_length_pos: "cbor_item_length buf = Some n \<Longrightarrow> 0 < n \<and> n \<le> length buf"
  using walk_consumes [of "[Definite 1]" buf] by (auto simp: cbor_item_length_def split: if_splits)

lemma writer_works:
  assumes "writer_step clock l = Some l'"
  shows "(l', l) \<in> work"
proof -
  have by_rank: "(l', l) \<in> work" if "queued l' \<le> queued l" "ml_notified l' = ml_notified l"
    "writer_rank (length (ml_slots l')) (ml_writer l') < writer_rank (length (ml_slots l)) (ml_writer l)"
    using that by (auto simp: work_def)
  have filtered: "sum_list (map f (filter P xs)) \<le> sum_list (map f xs)" for f :: "egress_slot \<Rightarrow> nat" and P xs
    by (induction xs) auto
  show ?thesis
  proof (cases "ml_writer l")
    case RoundStart
    then have l': "l' = l\<lparr>ml_slots := filter (\<lambda>s. \<not> es_closed s) (ml_slots l),
        ml_writer := (if filter (\<lambda>s. \<not> es_closed s) (ml_slots l) = [] then WriterExited (Ok ()) else AtSlot 0 0 False)\<rparr>"
      using assms by (simp add: Let_def)
    have "length (filter (\<lambda>s. \<not> es_closed s) (ml_slots l)) < Suc (length (ml_slots l))"
      by (simp add: le_imp_less_Suc)
    then show ?thesis using RoundStart by (intro by_rank) (simp_all add: l' queued_def filtered)
  next
    case (AtSlot i written any)
    show ?thesis
    proof (cases "i < length (ml_slots l)")
      case True
      define s where "s = ml_slots l ! i"
      have l': "l' = visit_slot clock i written any l" using assms AtSlot True by simp
      show ?thesis
      proof (cases "written < es_weight s \<and> es_queue s \<noteq> []")
        case w: True
        then obtain payload q where q: "es_queue s = payload # q" by (auto simp: neq_Nil_conv)
        have "queued l' < queued l"
          using queued_update [OF True, of l' "s\<lparr>es_queue := q, es_pending_bytes := es_pending_bytes s - of_nat (length payload)\<rparr>"]
            w q l' by (simp add: visit_slot_def s_def [symmetric] Let_def)
        then show ?thesis by (simp add: work_def)
      next
        case False
        then have w: "ml_writer l' = AtSlot (Suc i) 0 any" "length (ml_slots l') = length (ml_slots l)" "ml_notified l' = ml_notified l"
          using l' by (auto simp: visit_slot_def s_def [symmetric] Let_def)
        have "queued l' = queued l"
          using False l' queued_update [OF True, of l' "s\<lparr>es_closed := es_closed s \<or> \<not> es_sender_alive s\<rparr>"]
          by (cases "written < es_weight s") (simp_all add: visit_slot_def s_def [symmetric] Let_def, simp add: queued_def)
        then show ?thesis using w AtSlot True by (intro by_rank) auto
      qed
    next
      case False
      then show ?thesis using assms AtSlot by (intro by_rank) (auto simp: queued_def split: if_splits)
    qed
  next
    case WriterWaiting
    then show ?thesis using assms by (auto simp: work_def queued_def split: if_splits)
  qed (use assms in simp)
qed

lemma work_below:
  assumes "ml_slots l' = ml_slots l" "ml_writer l' = ml_writer l" "ml_notified l' = ml_notified l"
    and "wire_left l' < wire_left l \<or> wire_left l' = wire_left l \<and>
      (over_channels (\<lambda>c. length (ic_queue c)) l' < over_channels (\<lambda>c. length (ic_queue c)) l
       \<or> over_channels (\<lambda>c. length (ic_queue c)) l' = over_channels (\<lambda>c. length (ic_queue c)) l
         \<and> over_channels (\<lambda>c. length (ic_read_buf c)) l' < over_channels (\<lambda>c. length (ic_read_buf c)) l)"
  shows "(l', l) \<in> work"
  using assms by (auto simp: work_def queued_def)

lemma reader_works:
  assumes "reader_step l = Some l'"
  shows "(l', l) \<in> work"
proof (rule work_below)
  show "wire_left l' < wire_left l \<or> wire_left l' = wire_left l \<and>
      (over_channels (\<lambda>c. length (ic_queue c)) l' < over_channels (\<lambda>c. length (ic_queue c)) l
       \<or> over_channels (\<lambda>c. length (ic_queue c)) l' = over_channels (\<lambda>c. length (ic_queue c)) l
         \<and> over_channels (\<lambda>c. length (ic_read_buf c)) l' < over_channels (\<lambda>c. length (ic_read_buf c)) l)"
  proof (cases "ml_reader l")
    case ReadHeader
    then show ?thesis using assms
      by (auto simp: read_header_def wire_left_def SDU_HEADER_SIZE_def Let_def split: if_splits option.splits result.splits)
  next
    case (ReadPayload h)
    then show ?thesis using assms
      by (auto simp: read_payload_def wire_left_def Let_def split: if_splits option.splits)
  qed (use assms in simp)
qed (use reader_keeps [OF assms] in simp_all)

lemma over_channels_cong:
  assumes "registered l' = registered l" "\<And>q. map_option f (ingress_of q l') = map_option f (ingress_of q l)"
  shows "over_channels f l' = over_channels f l"
proof -
  have "(case ingress_of q l' of Some c \<Rightarrow> f c | None \<Rightarrow> 0) = (case ingress_of q l of Some c \<Rightarrow> f c | None \<Rightarrow> 0)" for q
    using assms(2) [of q] by (cases "ingress_of q l"; cases "ingress_of q l'") simp_all
  then show ?thesis by (simp add: over_channels_def assms(1))
qed

lemma poll_ingress:
  assumes "channel_poll p l = Some l'"
  obtains c d where "ingress_of p l = Some c" "\<And>q. ingress_of q l' = (if q = p then Some d else ingress_of q l)"
    "registered l' = registered l" "wire_left l' = wire_left l"
    "length (ic_queue d) < length (ic_queue c) \<or> ic_queue d = ic_queue c \<and> length (ic_read_buf d) < length (ic_read_buf c)"
proof -
  from assms obtain c where c: "ingress_of p l = Some c" "ic_receiver_alive c"
    by (auto simp: channel_poll_def bind_eq_Some_conv split: if_splits)
  show thesis
  proof (cases "cbor_item_length (ic_read_buf c)")
    case (Some n)
    then show thesis using assms c item_length_pos [OF Some]
      by (intro that [of c "c\<lparr>ic_read_buf := drop n (ic_read_buf c)\<rparr>"])
         (auto simp: channel_poll_def deliver_def wire_left_def)
  next
    case None
    then obtain chunk q where q: "ic_queue c = chunk # q" using assms c by (cases "ic_queue c") (auto simp: channel_poll_def)
    let ?d = "c\<lparr>ic_queue := q, ic_bytes := ic_bytes c - of_nat (length chunk), ic_read_buf := ic_read_buf c @ chunk\<rparr>"
    show thesis using assms c None q
      by (intro that [of c ?d]) (auto simp: channel_poll_def deliver_def wire_left_def Let_def split: if_splits)
  qed
qed

lemma poll_works:
  assumes "channel_poll p l = Some l'"
  shows "(l', l) \<in> work"
proof -
  obtain c d where c: "ingress_of p l = Some c" and d: "\<And>q. ingress_of q l' = (if q = p then Some d else ingress_of q l)"
    and same: "registered l' = registered l" "wire_left l' = wire_left l"
    and less: "length (ic_queue d) < length (ic_queue c) \<or> ic_queue d = ic_queue c \<and> length (ic_read_buf d) < length (ic_read_buf c)"
    using assms by (rule poll_ingress) blast
  have "over_channels f l' < over_channels f l" if "f d < f c" for f
    by (rule over_channels_less [where f = f, OF c _ that same(1)]) (simp_all add: d)
  moreover have "over_channels f l' = over_channels f l" if "f d = f c" for f
    by (rule over_channels_cong [OF same(1)]) (simp add: d c that)
  ultimately show ?thesis using less same(2) poll_keeps [OF assms] by (intro work_below) auto
qed

lemma internal_works:
  assumes "internal e" "link_step e l = Some l'"
  shows "(l', l) \<in> work"
  using assms writer_works reader_works poll_works by (cases e) (auto simp del: writer_step.simps reader_step.simps)

lemma wf_work: "wf work"
  by (simp add: work_def)

section \<open>Claims\<close>

definition overrun :: "mux_link \<Rightarrow> bool" where
  "overrun l \<longleftrightarrow> (\<exists>p b limit. ml_reader l = ReaderExited (Err (IngressQueueOverRun p b limit)))"

lemma writer_keeps:
  assumes "writer_step clock l = Some l'"
  shows "ml_ingress l' = ml_ingress l \<and> ml_reader l' = ml_reader l \<and> ml_buffer_size l' = ml_buffer_size l
    \<and> ml_sent l' = ml_sent l \<and> ml_delivered l' = ml_delivered l
    \<and> es_in_send ` set (ml_slots l') \<subseteq> es_in_send ` set (ml_slots l)
    \<and> (writer_exited (ml_writer l') \<longrightarrow> ml_writer l' = WriterExited (Ok ()))"
proof (cases "ml_writer l")
  case RoundStart
  then show ?thesis using assms by (auto simp: Let_def split: if_splits)
next
  case (AtSlot i written any)
  show ?thesis
  proof (cases "i < length (ml_slots l)")
    case True
    define s where "s = ml_slots l ! i"
    have s: "s \<in> set (ml_slots l)" using True by (simp add: s_def)
    have upd: "es_in_send ` set ((ml_slots l)[i := t]) \<subseteq> es_in_send ` set (ml_slots l)" if "es_in_send t = es_in_send s" for t
      using set_update_subset_insert [of "ml_slots l" i t] s that by fastforce
    have l': "l' = visit_slot clock i written any l" using assms AtSlot True by simp
    show ?thesis unfolding l'
      by (simp add: visit_slot_def s_def [symmetric] Let_def upd AtSlot split: list.split)
  qed (use assms AtSlot in \<open>auto split: if_splits\<close>)
qed (use assms in \<open>auto split: if_splits\<close>)

lemma healthy_ingress:
  assumes "healthy l" "ml_slots l' = ml_slots l" "ml_writer l' = ml_writer l" "ml_buffer_size l' = ml_buffer_size l"
    and "\<And>q c. ingress_of q l' = Some c \<Longrightarrow> \<exists>d. ingress_of q l = Some d \<and> ic_receiver_alive c = ic_receiver_alive d"
    and "\<not> reader_exited (ml_reader l')"
  shows "healthy l'"
  using assms(1-4,6) assms(5) unfolding healthy_def by metis

lemma healthy_reader:
  assumes ok: "healthy l" and inv: "link_inv l'" and step: "reader_step l = Some l'"
  shows "healthy l' \<or> overrun l'"
proof -
  have size: "ml_buffer_size l' = ml_buffer_size l"
    using step by (auto simp: read_header_def read_payload_def Let_def split: reader.splits if_splits option.splits result.splits)
  have "\<exists>d. ingress_of q l = Some d \<and> ic_receiver_alive c = ic_receiver_alive d" if "ingress_of q l' = Some c" for q c
    using step that
    by (auto simp: read_header_def read_payload_def Let_def split: reader.splits if_splits option.splits result.splits)
  from healthy_ingress [OF ok _ _ size this] reader_keeps [OF step] have "\<not> reader_exited (ml_reader l') \<Longrightarrow> healthy l'" by blast
  moreover have "overrun l'" if "reader_exited (ml_reader l')"
  proof -
    have "\<forall>p. ml_reader l' \<noteq> ReaderExited (Err (UnknownProtocol p))" using inv by (simp add: link_inv_def static_ok_def)
    then show ?thesis using step that ok
      by (auto simp: read_header_def read_payload_def overrun_def Let_def split: reader.splits if_splits option.splits result.splits)
  qed
  ultimately show ?thesis by blast
qed

lemma healthy_poll:
  assumes ok: "healthy l" and step: "channel_poll p l = Some l'"
  shows "healthy l'"
proof (rule healthy_ingress [OF ok])
  show "\<exists>d. ingress_of q l = Some d \<and> ic_receiver_alive c = ic_receiver_alive d" if "ingress_of q l' = Some c" for q c
    using step that
    by (auto simp: channel_poll_def bind_eq_Some_conv deliver_def Let_def split: if_splits option.splits list.splits)
qed (use ok step in \<open>auto simp: channel_poll_def bind_eq_Some_conv deliver_def healthy_def Let_def
        split: if_splits option.splits list.splits\<close>)

lemma healthy_internal:
  assumes ok: "healthy l" and inv: "link_inv l'" and e: "internal e" "link_step e l = Some l'"
  shows "healthy l' \<or> overrun l'"
proof (cases e)
  case (WriterStep clock)
  then have step: "writer_step clock l = Some l'" using e by simp
  have "ingress_of q l' = ingress_of q l" for q using writer_keeps [OF step] by (simp add: ingress_of_def)
  then have "healthy l'" using ok writer_keeps [OF step] unfolding healthy_def by force
  then show ?thesis ..
qed (use e healthy_reader [OF ok inv] healthy_poll [OF ok] in auto)

lemma overrun_internal:
  assumes "overrun l" "internal e" "link_step e l = Some l'"
  shows "overrun l'"
proof (cases e)
  case (WriterStep clock)
  then show ?thesis using writer_keeps [of clock l l'] assms by (simp add: overrun_def del: writer_step.simps)
next
  case (Poll p)
  then have "ml_reader l' = ml_reader l" using assms
    by (auto simp: channel_poll_def bind_eq_Some_conv deliver_def Let_def split: if_splits option.splits list.splits)
  then show ?thesis using assms by (simp add: overrun_def)
qed (use assms in \<open>auto simp: overrun_def\<close>)

lemma internal_sent:
  assumes "internal e" "link_step e l = Some l'"
  shows "ml_sent l' = ml_sent l"
  using assms writer_keeps reader_keeps poll_keeps by (cases e) (auto simp del: writer_step.simps reader_step.simps)

lemma registered_step:
  assumes "link_step e l = Some l'"
  shows "registered l' = registered l"
proof (cases e)
  case (WriterStep clock)
  then show ?thesis using writer_keeps [of clock l l'] assms by (simp add: registered_def del: writer_step.simps)
next
  case ReaderStep
  then show ?thesis using assms
    by (auto simp: read_header_def read_payload_def Let_def split: reader.splits if_splits option.splits result.splits)
next
  case (Poll p)
  then show ?thesis using assms
    by (auto simp: channel_poll_def bind_eq_Some_conv deliver_def Let_def split: if_splits option.splits list.splits)
qed (use assms in \<open>auto simp: send_begin_def send_end_def drop_handle_def set_weight_def drop_receiver_def bind_eq_Some_conv
      split: if_splits option.splits\<close>)

text \<open>What holds along every run of a link, and along the steps its own tasks take.\<close>

lemma run_keeps:
  assumes "link_run es l = Some l'" "\<And>e m m'. P m \<Longrightarrow> e \<in> set es \<Longrightarrow> link_step e m = Some m' \<Longrightarrow> P m'" "P l"
  shows "P l'"
  using assms
proof (induction es arbitrary: l)
  case Nil
  then have "l' = l" using Nil.prems(1) by (simp only: link_run.simps option.inject)
  then show ?case using Nil.prems(3) by iprover
next
  case (Cons e es)
  obtain l1 where l1: "link_step e l = Some l1" "link_run es l1 = Some l'"
    using Cons.prems(1) by (auto simp: bind_eq_Some_conv)
  have "P l1" by (rule Cons.prems(2) [OF Cons.prems(3) _ l1(1)]) simp
  from Cons.IH [OF l1(2) _ this] show ?case using Cons.prems(2) by (meson list.set_intros(2))
qed

lemma reachable_link:
  assumes "protocols_ok protocols" "link_run es (start_link role protocols n) = Some l" "sends_messages es"
  shows "link_inv l \<and> awake_inv l \<and> registered l = fst ` set protocols"
proof (rule run_keeps [OF assms(2)])
  show "link_inv m' \<and> awake_inv m' \<and> registered m' = fst ` set protocols"
    if "link_inv m \<and> awake_inv m \<and> registered m = fst ` set protocols" "e \<in> set es" "link_step e m = Some m'" for e m m'
  proof -
    have "\<And>p t. e = SendBegin p t \<Longrightarrow> is_message t" using that(2) assms(3) by (auto simp: sends_messages_def list_all_iff)
    then show ?thesis using that inv_step [of m e m'] awake_step [of m e m'] registered_step [of e m m'] by blast
  qed
  have "registered (start_link role protocols n) = fst ` set protocols" by (force simp: registered_def start_link_def)
  moreover have "awake_inv (start_link role protocols n)" by (simp add: awake_inv_def start_link_def)
  ultimately show "link_inv (start_link role protocols n) \<and> awake_inv (start_link role protocols n)
      \<and> registered (start_link role protocols n) = fst ` set protocols"
    using inv_start [OF assms(1)] by blast
qed

lemma internal_run:
  assumes "link_inv l" "awake_inv l" "healthy l" "link_run es l = Some l'" "list_all internal es"
  shows "link_inv l' \<and> awake_inv l' \<and> ml_sent l' = ml_sent l \<and> registered l' = registered l \<and> (healthy l' \<or> overrun l')"
proof (rule run_keeps [OF assms(4)])
  let ?P = "\<lambda>m. link_inv m \<and> awake_inv m \<and> ml_sent m = ml_sent l \<and> registered m = registered l \<and> (healthy m \<or> overrun m)"
  show "?P m'" if "?P m" "e \<in> set es" and step: "link_step e m = Some m'" for e m m'
  proof -
    have e: "internal e" using that(2) assms(5) by (simp add: list_all_iff)
    then have "\<And>p t. e = SendBegin p t \<Longrightarrow> is_message t" by auto
    then have "link_inv m'" "awake_inv m'" using that(1) step inv_step awake_step by blast+
    moreover have "healthy m' \<or> overrun m'"
      using that(1) healthy_internal [OF _ \<open>link_inv m'\<close> e step] overrun_internal [OF _ e step] by blast
    ultimately show ?thesis using that(1) internal_sent [OF e step] registered_step [OF step] by simp
  qed
qed (use assms in simp)

lemma no_endless_work: "\<not> (\<forall>i. \<exists>e. internal e \<and> link_step e (run i) = Some (run (Suc i)))"
proof
  assume "\<forall>i. \<exists>e. internal e \<and> link_step e (run i) = Some (run (Suc i))"
  then have "\<forall>i. (run (Suc i), run i) \<in> work" using internal_works by blast
  with wf_work show False by (auto simp: wf_iff_no_infinite_down_chain)
qed



subsection \<open>A connection with two protocols\<close>

definition two_sends :: "mux_event list" where
  "two_sends = [SendBegin 2 [0x81, 1], SendEnd 2, SendBegin 8 [0x81, 2], SendEnd 8]"

definition two_tasks :: "mux_event list" where
  "two_tasks = replicate 15 (WriterStep (\<lambda>_. 0)) @ replicate 4 ReaderStep @ [Poll 2, Poll 2, Poll 8, Poll 8]"

definition two_start :: mux_link where
  "two_start = start_link Initiator [(2, 100, 1), (8, 100, 1)] 4"

definition two_sent :: mux_link where
  "two_sent = two_start\<lparr>
     ml_slots := [\<lparr>es_protocol_num = 2, es_queue = [[0x81, 1]], es_sender_alive = True, es_in_send = None,
         es_weight = 1, es_pending_bytes = 2, es_closed = False\<rparr>,
       \<lparr>es_protocol_num = 8, es_queue = [[0x81, 2]], es_sender_alive = True, es_in_send = None,
         es_weight = 1, es_pending_bytes = 2, es_closed = False\<rparr>],
     ml_notified := True, ml_sent := [(2, [0x81, 1]), (8, [0x81, 2])]\<rparr>"

definition two_rest :: mux_link where
  "two_rest = two_start\<lparr>ml_writer := WriterWaiting, ml_sent := ml_sent two_sent, ml_delivered := ml_sent two_sent\<rparr>"

lemma two_runs:
  "link_run two_sends two_start = Some two_sent" "link_run two_tasks two_sent = Some two_rest"
  by code_simp+

lemma two_ok: "protocols_ok [(2, 100, 1), (8, 100, 1)]" "sends_messages two_sends" "sends_messages two_tasks"
proof -
  have head: "cbor_head 4 [0x81] 1" "cbor_head 0 [1] 1" "cbor_head 0 [2] 2"
    by (auto simp: cbor_head_def arg_len_def arg_val_def intro: exI [of _ 1])
  have "plain_item False [1]" "plain_item False [2]" using plain_item.integer head by blast+
  then have "plain_item False [0x81, b]" if "b = 1 \<or> b = 2" for b
    using plain_item.array [OF head(1), of "[[b]]"] that by auto
  then show "sends_messages two_sends" by (auto simp: sends_messages_def two_sends_def is_message_def)
  show "protocols_ok [(2, 100, 1), (8, 100, 1)]" by (simp add: protocols_ok_def)
  show "sends_messages two_tasks" by (simp add: sends_messages_def two_tasks_def list_all_iff)
qed


text \<open>
  C9. The tasks of a connection do not run for ever on what has been sent, and where they come to
  rest everything sent has been delivered: from every state a run of the connection reaches in
  which the connection is up, its receivers are there and no send is half done, there is no endless
  sequence of writer, reader and channel steps; and a sequence of them after which none of the
  tasks can go on has delivered every message sent on every protocol, or has ended the connection
  because a message was over the ingress limit of its protocol.
\<close>

theorem mux_drains:
  assumes "protocols_ok protocols" "link_run es (start_link role protocols n) = Some l" "sends_messages es" "healthy l"
  shows "(\<nexists>run. run 0 = l \<and> (\<forall>i. \<exists>e. internal e \<and> link_step e (run i) = Some (run (Suc i))))
    \<and> (\<forall>tasks l'. list_all internal tasks \<and> link_run tasks l = Some l' \<and> quiet l' \<longrightarrow>
        overrun l' \<or> (\<forall>p\<in>fst ` set protocols. messages p (ml_delivered l') = messages p (ml_sent l)))"
proof -
  have l: "link_inv l" "awake_inv l" "registered l = fst ` set protocols" using reachable_link [OF assms(1-3)] by simp_all
  have "overrun l' \<or> (\<forall>p\<in>fst ` set protocols. messages p (ml_delivered l') = messages p (ml_sent l))"
    if run: "list_all internal tasks" "link_run tasks l = Some l'" "quiet l'" for tasks l'
    using internal_run [OF l(1,2) assms(4) run(2,1)] quiet_delivered [OF _ _ run(3)] l(3) by metis
  then show ?thesis using no_endless_work by blast
qed

lemma two_healthy: "healthy two_sent"
  by (auto simp: healthy_def two_sent_def two_start_def start_link_def ingress_of_def split: if_splits)

lemma two_quiet: "quiet two_rest"
proof -
  have "link_step e two_rest = None" if "internal e" for e
    using that by (cases e) (auto simp: two_rest_def two_start_def start_link_def read_header_def SDU_HEADER_SIZE_def
        channel_poll_def ingress_of_def cbor_item_length_def)
  then show ?thesis by (simp add: quiet_def)
qed

theorem mux_drains_witness:
  "list_all internal two_tasks \<and> link_run two_tasks two_sent = Some two_rest \<and> quiet two_rest
    \<and> messages 2 (ml_delivered two_rest) = [[0x81, 1]] \<and> messages 8 (ml_delivered two_rest) = [[0x81, 2]]"
proof -
  have tasks: "list_all internal two_tasks" by (simp add: two_tasks_def list_all_iff)
  have "messages 2 (ml_sent two_sent) = [[0x81, 1]]" "messages 8 (ml_sent two_sent) = [[0x81, 2]]"
    by (simp_all add: two_sent_def messages_def)
  moreover have "\<not> overrun two_rest" by (simp add: overrun_def two_rest_def two_start_def start_link_def)
  moreover note mux_drains [OF two_ok(1) two_runs(1) [unfolded two_start_def] two_ok(2) two_healthy,
      THEN conjunct2, rule_format, of two_tasks two_rest]
  ultimately show ?thesis using tasks two_runs(2) two_quiet by simp
qed

text \<open>
  The drop of the last handle does not wake the writer: it waits on, though no slot can ever be
  written to again, until it is cancelled.
\<close>

lemma dropped_handles_unnoticed:
  obtains l where "link_run (replicate 4 (WriterStep (\<lambda>_. 0)) @ [DropHandle 2, DropHandle 8]) two_start = Some l"
    "list_all (\<lambda>s. \<not> es_sender_alive s \<and> es_queue s = []) (ml_slots l)" "ml_writer l = WriterWaiting"
    "writer_step clock l = None"
proof -
  let ?run = "link_run (replicate 4 (WriterStep (\<lambda>_. 0)) @ [DropHandle 2, DropHandle 8]) two_start"
  have "(case ?run of None \<Rightarrow> False | Some l \<Rightarrow> list_all (\<lambda>s. \<not> es_sender_alive s \<and> es_queue s = []) (ml_slots l)
      \<and> ml_writer l = WriterWaiting \<and> \<not> ml_notified l)"
    by code_simp
  then show thesis by (auto split: option.splits intro!: that)
qed

end
