(* ===== verification/Spec2Isabelle.thy ===== *)
theory Spec2Isabelle
  imports ChainState ChainSelection Epoch Density Fees MempoolProps
    TxServer Nonce OCert BlockSpans LedgerCodecs FileChainDb MuxProps
begin

text \<open>
  A verification library for the Yggdrasil Cardano node, \<open>src/crates\<close>.

  \<^bold>\<open>The program.\<close> The node follows the Cardano chain. Bytes arrive over one connection to each peer,
  on which the multiplexer (\<open>network\<close>) carries the mini-protocols. Headers and blocks are decoded with
  a CBOR library (\<open>ledger\<close>), judged by the consensus layer (\<open>consensus\<close>: nonces, operational
  certificates, fork choice, the volatile chain window) and stored (\<open>storage\<close>) in an immutable chain, a
  volatile chain and ledger snapshots, from which the node recovers after a restart. Transactions
  arrive over TxSubmission, whose servers share one bookkeeping of who fetches what, pay fees and wait
  in the mempool until a block takes them.

  \<^bold>\<open>Conventions.\<close> A Rust integer of \<open>w\<close> bits is a word of \<open>w\<close> bits with its wrap-around, checked and
  saturating operations; a length or an index is a natural number. A struct is a record, an enum a
  datatype. \<open>Result\<close> is the type \<open>result\<close> with the branches \<open>Ok\<close>, \<open>Err\<close> and \<open>Panic\<close>; a panic of the
  code is a value of the model. Code that changes \<open>self\<close> takes the state and returns it. \<open>None\<close> as the
  outcome of a step says that the step cannot happen now. Hash functions, signatures, serialisers and
  the rules of the ledger state are parameters.

  \<^bold>\<open>Theories and the code they model.\<close>

  \<^item> \<open>Prelude\<close>: integers, results, searches in lists, and their lemmas. \<open>Containers\<close>: Rust's
    \<open>BTreeMap\<close> as a sorted list, with the contract \<open>key_value_map\<close>, and big-endian integers. \<open>Types\<close>: the types
    of \<open>ledger/src/types.rs\<close>, \<open>tx.rs\<close>, \<open>eras\<close> that the components share.
  \<^item> \<open>ChainState\<close> (\<open>consensus/src/chain_state.rs\<close>): the volatile window, \<open>roll_forward\<close>,
    \<open>roll_backward\<close>, \<open>drain_stable\<close>. Every reachable window is a linked chain no longer than its bound,
    and rolling back undoes rolling forward.
  \<^item> \<open>ChainSelection\<close> (\<open>chain_selection.rs\<close>): \<open>select_preferred\<close> and the choice among candidates, which is
    never beaten by another one and never shorter.
  \<^item> \<open>Epoch\<close>, \<open>Density\<close> (\<open>epoch.rs\<close>, \<open>in_future.rs\<close>, \<open>genesis_density.rs\<close>): slot arithmetic of epoch
    schedules, headers from the future, the density window and how it undercounts.
  \<^item> \<open>BinaryGcd\<close>, \<open>Fees\<close> (\<open>ledger/src/fees.rs\<close>): the loops of the gcd and of the tiered reference
    script fee equal their mathematical definitions, with the overflow branches.
  \<^item> \<open>Mempool\<close>, \<open>MempoolProps\<close> (\<open>consensus/src/mempool/queue.rs\<close>): all operations of the queue, the
    invariant that ties its fields together, admission with eviction, revalidation, snapshots.
  \<^item> \<open>TxState\<close> (\<open>mempool/tx_state\<close>) and \<open>TxServer\<close> (\<open>node/ntn-server/src/lib.rs\<close>): the state
    TxSubmission peers share and the server loop over it. Byte counts are exact, requests stay within
    the budgets, and no two servers fetch the same transaction, under every interleaving of the servers.
  \<^item> \<open>Nonce\<close>, \<open>OCert\<close> (\<open>consensus/src/nonce\<close>, \<open>consensus/src/ocert\<close>): the epoch nonce depends on
    exactly the blocks it should; certificate counters never go back; the KES period window.
  \<^item> \<open>Cbor\<close>, \<open>CborItems\<close>, \<open>BlockSpans\<close>, \<open>LedgerCodecs\<close> (\<open>ledger/src/cbor.rs\<close>): encoder and
    decoder, skipping of items against a grammar of its own, byte spans of a block's transactions, and
    the codecs of the core types. Every codec is an instance of the contract \<open>codec\<close>, which gives the
    round trip, the error on trailing bytes and prefix-freeness.
  \<^item> \<open>Stores\<close> (\<open>storage/src/immutable_db.rs\<close>, \<open>volatile_db.rs\<close>, \<open>ledger_db.rs\<close>): the three store
    traits as records of methods, their contracts \<open>immutable_store\<close>, \<open>volatile_store\<close>,
    \<open>ledger_store\<close>, and the in-memory stores.
  \<^item> \<open>Disk\<close>, \<open>BlockFiles\<close>, \<open>FileVolatile\<close>, \<open>FileImmutable\<close>, \<open>FileLedger\<close> (\<open>storage/src/file_*.rs\<close>): the
    file-backed stores with every file-system call they make, each of which may fail or be the last
    one before the process dies. They meet the same contracts, and what recovery finds after a crash
    is stated for each of them.
  \<^item> \<open>ChainDb\<close>, \<open>LedgerRecovery\<close>, \<open>FileChainDb\<close> (\<open>storage/src/chain_db.rs\<close>): the coordinator over any
    stores that meet the contracts. It refines a single chain with a boundary, and recovery of the
    ledger state equals a replay from genesis. \<open>FileChainDb\<close> puts the file-backed stores in.
  \<^item> \<open>ItemLength\<close>, \<open>Mux\<close>, \<open>MuxProps\<close> (\<open>network/src/mux.rs\<close>): message boundaries, frames, the writer
    and reader tasks and the message channels. Under every interleaving each protocol receives what
    was sent on it in order; the tasks do not run for ever on it, do not sleep while there is work, and
    come to rest only when everything was delivered or an ingress limit was exceeded.

  \<^bold>\<open>Concurrency.\<close> The multiplexer and the TxSubmission servers are modelled as sequences of events,
  where an event is what a task does between two points at which another task may run: an \<open>await\<close>, a
  lock, an atomic counter. Theorems are about all such sequences. A link of \<open>Mux\<close> is one direction of
  a connection; the other is another link. Timeouts and cancellation may happen at any time in the
  model, more often than in the code.

  \<^bold>\<open>Termination and fuel.\<close> \<open>skip\<close> runs on three units of fuel for each remaining byte and one more, which is
  shown to be enough for every input. The gcd loop and the search for a checkpoint are partial
  functions for which a result is proved. Everything else is total: structural, or with a
  termination proof, such as the walk of \<open>cbor_item_length\<close>, whose recursive calls consume bytes.

  \<^bold>\<open>Bounds.\<close> Where a theorem needs a bound it is a premise: a chain shorter than the largest
  integer, at most \<open>2^64\<close> bytes, protocol numbers below \<open>2^15\<close> as the frame header has room for. The
  messages of the multiplexer theorems are CBOR items without indefinite-length strings and without an
  indefinite-length container directly inside an indefinite-length map; for the others
  \<open>ItemLength\<close> shows that \<open>cbor_item_length\<close> is wrong.

  \<^bold>\<open>Crashes.\<close> A crash is that of the process: calls made before it have taken effect, in order. The
  loss of writes that the operating system has accepted is not modelled.

  \<^bold>\<open>Not modelled.\<close> Hashing, Ed25519, VRF and KES arithmetic, and the Plutus machine: they are
  parameters where the code uses them. The UTxO, reward and epoch-boundary rules: the storage
  theorems hold for any rules. Sockets, transport errors other than the end of the stream, the
  connection manager, the governor, the mini-protocol messages and their drivers except the TxSubmission server.
  Floating-point code (density quotient, clock skew). The locks and notifications around the shared
  mempool. The sidecar files and the version tag of snapshots. Logging, metrics, configuration and the
  command-line tools.
\<close>

end
